(* ===== verification/Prelude.thy ===== *)
theory Prelude
  imports "HOL-Library.Word" "HOL-Library.Multiset"
begin

text \<open>
  What every component of the development shares: the machine integer types of the C code,
  the faults a C function can run into, sequencing of fallible steps, and generic lemmas
  on words, lists and functions.

  A C function that can dereference a bad pointer, index an array out of its bounds, divide by
  zero, fail an \<open>assert\<close> or run forever is a HOL function into \<open>fault + 'a\<close>; \<open>Inl\<close> is the fault,
  \<open>Inr\<close> the regular result. Error codes that the C code returns are ordinary results.
\<close>

unbundle bit_operations_syntax

type_synonym u8 = "8 word"
type_synonym u16 = "16 word"
type_synonym u32 = "32 word"
type_synonym u64 = "64 word"

datatype fault =
    NullDeref       \<comment> \<open>a field of \<open>NULL\<close> is read or written\<close>
  | BadPointer      \<comment> \<open>a pointer that is no object (a tag, or an object of another type)\<close>
  | OutOfBounds     \<comment> \<open>an array index outside the array\<close>
  | DivByZero       \<comment> \<open>division or remainder by zero\<close>
  | AssertFail      \<comment> \<open>\<open>assert\<close> of a false condition\<close>
  | NoReturn        \<comment> \<open>a loop that does not end\<close>

section \<open>Fallible steps\<close>

fun bindE :: "fault + 'a \<Rightarrow> ('a \<Rightarrow> fault + 'b) \<Rightarrow> fault + 'b" where
  "bindE (Inl e) f = Inl e"
| "bindE (Inr x) f = f x"

lemma bindE_eq_Inr:
  "bindE m f = Inr y \<longleftrightarrow> (\<exists>x. m = Inr x \<and> f x = Inr y)"
  by (cases m) auto

lemma bindE_cong [fundef_cong]:
  "m = m' \<Longrightarrow> (\<And>x. m' = Inr x \<Longrightarrow> f x = f' x) \<Longrightarrow> bindE m f = bindE m' f'"
  by (cases m) auto

lemma bindE_assoc: "bindE (bindE m f) g = bindE m (\<lambda>x. bindE (f x) g)"
  by (cases m) auto

text \<open>The same step \<open>n\<close> times.\<close>

primrec iterE :: "nat \<Rightarrow> ('a \<Rightarrow> fault + 'a) \<Rightarrow> 'a \<Rightarrow> fault + 'a" where
  "iterE 0 f s = Inr s"
| "iterE (Suc n) f s = bindE (f s) (iterE n f)"

definition assertE :: "bool \<Rightarrow> 'a \<Rightarrow> fault + 'a" where
  "assertE P x = (if P then Inr x else Inl AssertFail)"

lemma assertE_True [simp]: "P \<Longrightarrow> assertE P x = Inr x"
  by (simp add: assertE_def)

lemma assertE_False [simp]: "\<not> P \<Longrightarrow> assertE P x = Inl AssertFail"
  by (simp add: assertE_def)

section \<open>Words\<close>

lemma unat_and_mask:
  "unat (x AND mask k) = unat (x :: 'a::len word) mod 2 ^ k"
  by (simp add: take_bit_eq_mask [symmetric] unsigned_take_bit_eq)
    (simp add: take_bit_eq_mod)

lemma unat_add_of_nat_mod:
  "k \<le> LENGTH('a) \<Longrightarrow>
    unat ((x :: 'a::len word) + of_nat i) mod 2 ^ k = (unat x + i) mod 2 ^ k"
proof -
  assume k: "k \<le> LENGTH('a)"
  have "unat (x + of_nat i) = (unat x + i) mod 2 ^ LENGTH('a)"
    by (simp add: unat_word_ariths unat_of_nat mod_add_right_eq)
  moreover have "(2::nat) ^ k dvd 2 ^ LENGTH('a)"
    using k by (rule le_imp_power_dvd)
  ultimately show ?thesis
    by (simp add: mod_mod_cancel)
qed

lemma sint_eq_unat:
  "unat (w :: 'a::len word) < 2 ^ (LENGTH('a) - 1) \<Longrightarrow> sint w = int (unat w)"
proof -
  assume "unat w < 2 ^ (LENGTH('a) - 1)"
  then have "int (unat w) < int (2 ^ (LENGTH('a) - 1))" by (simp only: of_nat_less_iff)
  then have "signed_take_bit (LENGTH('a) - 1) (int (unat w)) = int (unat w)"
    by (intro signed_take_bit_int_eq_self) (auto intro: order_trans [of _ 0])
  then show ?thesis by (simp add: sint_uint)
qed

section \<open>Arithmetic\<close>

lemma add_mod_inj:
  "(r + i) mod c = (r + j) mod c \<Longrightarrow> i < c \<Longrightarrow> j < c \<Longrightarrow> i = j" for c :: nat
proof -
  assume eq: "(r + i) mod c = (r + j) mod c" and i: "i < c" and j: "j < c"
  have "int (r + i) mod int c = int (r + j) mod int c"
    using eq by (simp add: of_nat_mod [symmetric] del: of_nat_add)
  then have "int c dvd int (r + i) - int (r + j)"
    by (simp add: mod_eq_dvd_iff)
  then have d: "int c dvd int i - int j" by simp
  show "i = j"
  proof (rule ccontr)
    assume "i \<noteq> j"
    then have "int c \<le> \<bar>int i - int j\<bar>" 
      using d dvd_imp_le_int [of "int i - int j" "int c"] by simp
    then show False using i j by linarith
  qed
qed

section \<open>Systems that make steps\<close>

text \<open>What holds at the start and is kept by every step holds in every state that can be reached.\<close>

locale inductive_invariant =
  fixes start :: "'a \<Rightarrow> bool" and move :: "'a \<Rightarrow> 'a \<Rightarrow> bool" and inv :: "'a \<Rightarrow> bool"
  assumes start: "start a \<Longrightarrow> inv a"
    and move: "inv a \<Longrightarrow> move a b \<Longrightarrow> inv b"
begin

lemma reached:
  assumes "start a" and "move\<^sup>*\<^sup>* a b"
  shows "inv b"
  using assms(2) start [OF assms(1)] by induction (auto intro: move)

end

end
