(* ===== verification/Bitarithm.thy ===== *)
theory Bitarithm
  imports Prelude
begin

text \<open>
  \<open>core/bitarithm.c\<close> and \<open>core/include/bitarithm.h\<close>: the highest and the lowest set bit and the
  number of set bits of an \<open>unsigned\<close> (32 bits wide on every supported CPU but the 16-bit ones).
  The scheduler finds the runnable priority with \<open>bitarithm_lsb\<close>; the header has three
  implementations of it, chosen per CPU, which are shown to agree.
\<close>

section \<open>The operations\<close>

definition c_bool :: "bool \<Rightarrow> u32" where
  "c_bool b = (if b then 1 else 0)"

definition bitarithm_msb :: "u32 \<Rightarrow> u32" where
  "bitarithm_msb v =
     (let r = push_bit 4 (c_bool (v > 0xFFFF)); v = drop_bit (unat r) v;
          shift = push_bit 3 (c_bool (v > 0xFF)); v = drop_bit (unat shift) v; r = r OR shift;
          shift = push_bit 2 (c_bool (v > 0xF)); v = drop_bit (unat shift) v; r = r OR shift;
          shift = push_bit 1 (c_bool (v > 0x3)); v = drop_bit (unat shift) v; r = r OR shift
      in r OR drop_bit 1 v)"

function bits_set_loop :: "u32 \<Rightarrow> u32 \<Rightarrow> u32" where
  "bits_set_loop v c = (if v \<noteq> 0 then bits_set_loop (v AND (v - 1)) (c + 1) else c)"
  by pat_completeness auto
termination
proof (relation "measure (\<lambda>(v, c). unat v)")
  fix v c :: u32
  assume "v \<noteq> 0"
  then have "unat (v AND (v - 1)) \<le> unat (v - 1)" and "unat (v - 1) < unat v"
    using word_and_le1 [of v "v - 1"] by (auto simp: word_le_nat_alt unat_minus_one unat_gt_0)
  then show "((v AND (v - 1), c + 1), (v, c)) \<in> measure (\<lambda>(v, c). unat v)" by simp
qed simp

declare bits_set_loop.simps [simp del]

definition bitarithm_bits_set :: "u32 \<Rightarrow> u32" where
  "bitarithm_bits_set v = bits_set_loop v 0"

definition bitarithm_bits_set_u32 :: "u32 \<Rightarrow> u8" where
  "bitarithm_bits_set_u32 v = ucast (bitarithm_bits_set v)"

text \<open>The portable \<open>bitarithm_lsb\<close>: for \<open>0\<close> its loop does not end.\<close>

partial_function (option) lsb_loop :: "u32 \<Rightarrow> u32 \<Rightarrow> u32 option" where
  "lsb_loop v r = (if v AND 0x01 = 0 then lsb_loop (drop_bit 1 v) (r + 1) else Some r)"

definition bitarithm_lsb :: "u32 \<Rightarrow> fault + u32" where
  "bitarithm_lsb v = (case lsb_loop v 0 of None \<Rightarrow> Inl NoReturn | Some r \<Rightarrow> Inr r)"

definition MultiplyDeBruijnBitPosition :: "u8 list" where
  "MultiplyDeBruijnBitPosition =
     [0, 1, 28, 2, 29, 14, 24, 3, 30, 22, 20, 15, 25, 17, 4, 8,
      31, 27, 13, 23, 21, 19, 16, 7, 26, 12, 18, 6, 11, 5, 10, 9]"

definition bitarithm_lsb_lookup :: "u32 \<Rightarrow> u32" where
  "bitarithm_lsb_lookup v =
     ucast (MultiplyDeBruijnBitPosition ! unat (drop_bit 27 ((v AND - v) * 0x077CB531)))"

text \<open>\<open>__builtin_ffs\<close>: one plus the index of the lowest set bit, or 0.\<close>

definition builtin_ffs :: "u32 \<Rightarrow> u32" where
  "builtin_ffs v = (case find (bit v) [0..<32] of None \<Rightarrow> 0 | Some i \<Rightarrow> of_nat i + 1)"

definition bitarithm_lsb_builtin :: "u32 \<Rightarrow> u32" where
  "bitarithm_lsb_builtin v = builtin_ffs v - 1"

section \<open>The lowest set bit\<close>

text \<open>The index of the lowest set bit, as a specification.\<close>

definition lowest_bit :: "'a::len word \<Rightarrow> nat" where
  "lowest_bit v = (LEAST i. bit v i)"

lemma lowest_bit:
  fixes v :: "'a::len word"
  assumes "v \<noteq> 0"
  shows "bit v (lowest_bit v)" and "\<And>i. i < lowest_bit v \<Longrightarrow> \<not> bit v i"
    and "lowest_bit v < LENGTH('a)"
proof -
  from assms obtain i where "bit v i" by (auto simp: bit_eq_iff)
  then show "bit v (lowest_bit v)" unfolding lowest_bit_def by (rule LeastI)
  then show "lowest_bit v < LENGTH('a)" by (rule bit_imp_le_length)
  show "\<not> bit v i" if "i < lowest_bit v" for i
    using that not_less_Least unfolding lowest_bit_def by auto
qed

lemma lowest_bit_eqI:
  "bit v n \<Longrightarrow> (\<And>i. i < n \<Longrightarrow> \<not> bit v i) \<Longrightarrow> lowest_bit v = n"
  unfolding lowest_bit_def by (rule Least_equality) (auto simp: not_less [symmetric])

lemma and_1_eq_0: "v AND 1 = 0 \<longleftrightarrow> \<not> bit v 0" for v :: "'a::len word"
  by (auto simp: bit_eq_iff [of "v AND 1"] bit_and_iff bit_1_iff intro: gr0I)

lemma lsb_loop_lowest:
  "v \<noteq> 0 \<Longrightarrow> lsb_loop v r = Some (r + of_nat (lowest_bit v))"
proof (induction "lowest_bit v" arbitrary: v r)
  case 0
  then have "bit v 0" using lowest_bit(1) [of v] by simp
  then have "v AND 1 \<noteq> 0" by (simp add: and_1_eq_0)
  then show ?case using 0 by (subst lsb_loop.simps) simp
next
  case (Suc n)
  then have "\<not> bit v 0" using lowest_bit(2) [of v 0] by simp
  then have even: "v AND 1 = 0" by (simp add: and_1_eq_0)
  have n: "lowest_bit (drop_bit 1 v) = n"
    using Suc.hyps(2) lowest_bit(1,2) [OF Suc.prems]
    by (intro lowest_bit_eqI) (auto simp: bit_drop_bit_eq)
  have "drop_bit 1 v \<noteq> 0"
    using Suc.hyps(2) [symmetric] lowest_bit(1) [OF Suc.prems] fun_cong [OF bit_drop_bit_eq [of 1 v], of n]
    by auto
  with Suc.hyps(1) [of "drop_bit 1 v" "r + 1"] n
  have "lsb_loop (drop_bit 1 v) (r + 1) = Some (r + 1 + of_nat n)" by simp
  with even show ?case
    by (subst lsb_loop.simps) (simp add: algebra_simps flip: Suc.hyps(2))
qed

lemma bitarithm_lsb_lowest: "v \<noteq> 0 \<Longrightarrow> bitarithm_lsb v = Inr (of_nat (lowest_bit v))"
  by (simp add: bitarithm_lsb_def lsb_loop_lowest)

lemma find_bit_lowest: "v \<noteq> 0 \<Longrightarrow> find (bit v) [0..<LENGTH('a)] = Some (lowest_bit v)"
  for v :: "'a::len word"
  unfolding find_Some_iff by (rule exI [of _ "lowest_bit v"]) (use lowest_bit [of v] in auto)

lemma bitarithm_lsb_builtin_lowest:
  "v \<noteq> 0 \<Longrightarrow> bitarithm_lsb_builtin v = of_nat (lowest_bit v)"
  using find_bit_lowest [of v] by (simp add: bitarithm_lsb_builtin_def builtin_ffs_def)

lemma odd_and_minus: "bit w 0 \<Longrightarrow> w AND - w = 1" for w :: "'a::len word"
proof -
  assume w: "bit w 0"
  have "- w = NOT w + 1" by (simp add: minus_eq_not_plus_1)
  also have "\<dots> = NOT w OR 1"
    using w by (intro disjunctive_add_eq_or) (auto simp: bit_eq_iff [of "NOT w AND 1"] bit_and_iff bit_not_iff bit_1_iff)
  finally show ?thesis using w
    by (auto simp: bit_eq_iff [of _ 1] bit_and_iff bit_or_iff bit_not_iff bit_1_iff)
qed

lemma and_minus_lowest: "v \<noteq> 0 \<Longrightarrow> v AND - v = 2 ^ lowest_bit v" for v :: "'a::len word"
proof -
  assume v: "v \<noteq> 0"
  let ?k = "lowest_bit v" and ?w = "drop_bit (lowest_bit v) v"
  have vw: "v = push_bit ?k ?w"
  proof (rule bit_word_eqI)
    fix n
    assume "n < LENGTH('a)"
    then show "bit v n = bit (push_bit ?k ?w) n"
      using lowest_bit(2) [OF v, of n] by (cases "n < ?k") (auto simp: bit_push_bit_iff bit_drop_bit_eq)
  qed
  have odd: "bit ?w 0" using lowest_bit(1) [OF v] by (simp add: bit_drop_bit_eq)
  have "v AND - v = push_bit ?k ?w AND push_bit ?k (- ?w)"
    by (subst (1 2) vw) (simp add: push_bit_eq_mult)
  also have "\<dots> = push_bit ?k (?w AND - ?w)" by simp
  also have "\<dots> = 2 ^ ?k" using odd_and_minus [OF odd] by (simp add: push_bit_eq_mult)
  finally show ?thesis .
qed

lemma debruijn_table:
  "\<forall>k \<in> set [0..<32].
     MultiplyDeBruijnBitPosition ! unat (drop_bit 27 (2 ^ k * 0x077CB531 :: u32)) = of_nat k"
  by (simp add: upt_rec MultiplyDeBruijnBitPosition_def)

lemma bitarithm_lsb_lookup_lowest:
  assumes "v \<noteq> 0"
  shows "bitarithm_lsb_lookup v = of_nat (lowest_bit v)"
proof -
  have k: "lowest_bit v < 32" using lowest_bit(3) [OF assms] by simp
  then have "MultiplyDeBruijnBitPosition ! unat (drop_bit 27 (2 ^ lowest_bit v * 0x077CB531 :: u32)) = of_nat (lowest_bit v)"
    using debruijn_table by simp
  then show ?thesis using k assms
    by (simp add: bitarithm_lsb_lookup_def and_minus_lowest unsigned_of_nat take_bit_nat_eq_self)
qed

section \<open>The number of set bits\<close>

lemma clear_lowest:
  "v \<noteq> 0 \<Longrightarrow> bit (v AND (v - 1)) n \<longleftrightarrow> bit v n \<and> n \<noteq> lowest_bit v" for v :: "'a::len word"
proof -
  assume v: "v \<noteq> 0"
  have 1: "bit v n \<Longrightarrow> bit (- v) n \<longleftrightarrow> n = lowest_bit v"
    using arg_cong [OF and_minus_lowest [OF v], of "\<lambda>w. bit w n"] bit_imp_le_length [of v n]
    by (simp add: bit_and_iff bit_exp_iff)
  have 2: "v - 1 = NOT (- v)" by (simp add: not_eq_complement)
  show ?thesis unfolding 2 using 1 bit_imp_le_length [of v n]
    by (auto simp: bit_and_iff bit_not_iff)
qed

lemma bits_set_loop_card:
  "bits_set_loop v c = c + of_nat (card {i. bit v i})"
proof (induction v c rule: bits_set_loop.induct)
  case (1 v c)
  show ?case
  proof (cases "v = 0")
    case True
    then show ?thesis by (simp add: bits_set_loop.simps)
  next
    case False
    have fin: "finite {i. bit v i}" by (rule finite_subset [of _ "{..<32}"]) (auto dest: bit_imp_le_length)
    have "{i. bit (v AND (v - 1)) i} = {i. bit v i} - {lowest_bit v}"
      by (auto simp: clear_lowest [OF False])
    then have "card {i. bit v i} = Suc (card {i. bit (v AND (v - 1)) i})"
      using card_Suc_Diff1 [OF fin, of "lowest_bit v"] lowest_bit(1) [OF False] by simp
    with 1 False show ?thesis by (simp add: bits_set_loop.simps [of v c])
  qed
qed

lemma bitarithm_bits_set_card: "bitarithm_bits_set v = of_nat (card {i. bit v i})"
  by (simp add: bitarithm_bits_set_def bits_set_loop_card)

section \<open>The highest set bit\<close>

lemma unat_drop_bit: "unat (drop_bit n v) = unat v div 2 ^ n" for v :: "'a::len word"
  by (simp only: unat_drop_bit_eq) (simp add: drop_bit_eq_div)

text \<open>One step of the binary search: \<open>v\<close> has at most \<open>2 * k\<close> bits, afterwards at most \<open>k\<close>.\<close>

lemma msb_step:
  fixes v :: u32
  assumes "1 \<le> unat v" and "unat v < 2 ^ (2 * k)" and "r = (if 2 ^ k \<le> unat v then k else 0)"
  shows "1 \<le> unat (drop_bit r v)" and "unat (drop_bit r v) < 2 ^ k"
    and "2 ^ a \<le> unat (drop_bit r v) \<Longrightarrow> 2 ^ (r + a) \<le> unat v"
    and "unat (drop_bit r v) < 2 * 2 ^ a \<Longrightarrow> unat v < 2 * 2 ^ (r + a)"
proof -
  have le: "m \<le> n div 2 ^ r \<longleftrightarrow> m * 2 ^ r \<le> n" for m n :: nat
    by (simp add: less_eq_div_iff_mult_less_eq)
  have lt: "n div 2 ^ r < m \<longleftrightarrow> n < m * 2 ^ r" for m n :: nat
    by (simp add: div_less_iff_less_mult)
  show "1 \<le> unat (drop_bit r v)"
    using assms by (simp add: unat_drop_bit Suc_le_eq div_greater_zero_iff)
  show "unat (drop_bit r v) < 2 ^ k"
    unfolding unat_drop_bit lt using assms by (simp add: power_add mult_2)
  show "2 ^ (r + a) \<le> unat v" if "2 ^ a \<le> unat (drop_bit r v)"
    using that unfolding unat_drop_bit le by (simp add: power_add mult.commute)
  show "unat v < 2 * 2 ^ (r + a)" if "unat (drop_bit r v) < 2 * 2 ^ a"
    using that unfolding unat_drop_bit lt by (simp add: power_add ac_simps)
qed

lemma unat_msb_bits:
  "unat (push_bit 4 (c_bool b1) OR push_bit 3 (c_bool b2) OR push_bit 2 (c_bool b3) OR
     push_bit 1 (c_bool b4) OR c_bool b5) =
   (if b1 then 16 else 0) + (if b2 then 8 else 0) + (if b3 then 4 else 0) +
   (if b4 then 2 else 0) + (if b5 then 1 else 0)"
  by (cases b1; cases b2; cases b3; cases b4; cases b5; simp add: c_bool_def)

lemma bitarithm_msb_bounds:
  assumes "v \<noteq> 0"
  shows "2 ^ unat (bitarithm_msb v) \<le> unat v" and "unat v < 2 * 2 ^ unat (bitarithm_msb v)"
proof -
  define r1 :: nat where "r1 = (if 2 ^ 16 \<le> unat v then 16 else 0)"
  define v1 where "v1 = drop_bit r1 v"
  define r2 :: nat where "r2 = (if 2 ^ 8 \<le> unat v1 then 8 else 0)"
  define v2 where "v2 = drop_bit r2 v1"
  define r3 :: nat where "r3 = (if 2 ^ 4 \<le> unat v2 then 4 else 0)"
  define v3 where "v3 = drop_bit r3 v2"
  define r4 :: nat where "r4 = (if 2 ^ 2 \<le> unat v3 then 2 else 0)"
  define v4 where "v4 = drop_bit r4 v3"
  define r5 :: nat where "r5 = (if 2 ^ 1 \<le> unat v4 then 1 else 0)"
  have v: "1 \<le> unat v" "unat v < 2 ^ (2 * 16)"
    using assms unat_gt_0 [of v] unsigned_less [of v] by auto
  note s1 = msb_step [OF v r1_def, folded v1_def]
  have "1 \<le> unat v1" "unat v1 < 2 ^ (2 * 8)" using s1 by auto
  note s2 = msb_step [OF this r2_def, folded v2_def]
  have "1 \<le> unat v2" "unat v2 < 2 ^ (2 * 4)" using s2 by auto
  note s3 = msb_step [OF this r3_def, folded v3_def]
  have "1 \<le> unat v3" "unat v3 < 2 ^ (2 * 2)" using s3 by auto
  note s4 = msb_step [OF this r4_def, folded v4_def]
  have v4: "1 \<le> unat v4" "unat v4 < 4" using s4 by auto
  have last: "drop_bit 1 v4 = c_bool (2 \<le> unat v4)"
    using v4 by (auto simp: word_unat_eq_iff unat_drop_bit c_bool_def)
  have gt: "w > 0xFFFF \<longleftrightarrow> 2 ^ 16 \<le> unat w" "w > 0xFF \<longleftrightarrow> 2 ^ 8 \<le> unat w"
     "w > 0xF \<longleftrightarrow> 2 ^ 4 \<le> unat w" "w > 0x3 \<longleftrightarrow> 2 ^ 2 \<le> unat w" for w :: u32
    by (auto simp: word_less_nat_alt)
  have sh: "unat (push_bit 4 (c_bool b)) = (if b then 16 else 0)"
      "unat (push_bit 3 (c_bool b)) = (if b then 8 else 0)"
      "unat (push_bit 2 (c_bool b)) = (if b then 4 else 0)"
      "unat (push_bit 1 (c_bool b)) = (if b then 2 else 0)" for b
    by (simp_all add: c_bool_def)
  have "bitarithm_msb v = push_bit 4 (c_bool (2 ^ 16 \<le> unat v)) OR push_bit 3 (c_bool (2 ^ 8 \<le> unat v1)) OR
     push_bit 2 (c_bool (2 ^ 4 \<le> unat v2)) OR push_bit 1 (c_bool (2 ^ 2 \<le> unat v3)) OR c_bool (2 \<le> unat v4)"
    unfolding bitarithm_msb_def Let_def gt sh r1_def [symmetric] v1_def [symmetric] r2_def [symmetric]
      v2_def [symmetric] r3_def [symmetric] v3_def [symmetric] r4_def [symmetric] v4_def [symmetric] last
    by (simp only: or.assoc)
  then have m: "unat (bitarithm_msb v) = r1 + (r2 + (r3 + (r4 + r5)))"
    by (simp only: unat_msb_bits) (simp add: r1_def r2_def r3_def r4_def r5_def)
  have 5: "2 ^ r5 \<le> unat v4" "unat v4 < 2 * 2 ^ r5" using v4 by (auto simp: r5_def)
  show "2 ^ unat (bitarithm_msb v) \<le> unat v" unfolding m
    using s1(3) [OF s2(3) [OF s3(3) [OF s4(3) [OF 5(1)]]]] by simp
  show "unat v < 2 * 2 ^ unat (bitarithm_msb v)" unfolding m
    using s1(4) [OF s2(4) [OF s3(4) [OF s4(4) [OF 5(2)]]]] by simp
qed

text \<open> C31: The three implementations of \<open>bitarithm_lsb\<close> (the portable loop, the multiplication with a
  de Bruijn sequence and the compiler builtin) agree on every word that is not 0: each gives the index
  of the lowest set bit, and the loop ends. \<open>bitarithm_msb\<close> gives the index of the highest set bit.\<close>

theorem bitarithm_lsb_variants_agree:
  assumes "v \<noteq> 0"
  shows "\<exists>i<32. bitarithm_lsb v = Inr (of_nat i) \<and> bitarithm_lsb_lookup v = of_nat i \<and>
    bitarithm_lsb_builtin v = of_nat i \<and> bit v i \<and> (\<forall>j<i. \<not> bit v j) \<and>
    2 ^ unat (bitarithm_msb v) \<le> unat v \<and> unat v < 2 * 2 ^ unat (bitarithm_msb v)"
  using assms lowest_bit [OF assms] bitarithm_msb_bounds [OF assms]
  by (intro exI [of _ "lowest_bit v"])
    (simp add: bitarithm_lsb_lowest bitarithm_lsb_lookup_lowest bitarithm_lsb_builtin_lowest)

theorem bitarithm_lsb_variants_agree_witness:
  "\<exists>i<32. bitarithm_lsb 0x50 = Inr (of_nat i) \<and> bitarithm_lsb_lookup 0x50 = of_nat i \<and> bit (0x50 :: u32) i"
  using bitarithm_lsb_variants_agree [of "0x50"] by auto

end
