(* ===== verification/Lists.thy ===== *)
theory Lists
  imports Prelude
begin

text \<open>
  The intrusive lists of \<open>core/include/list.h\<close> (singly linked, ended by \<open>NULL\<close>) and
  \<open>core/include/clist.h\<close> (circular; the head points to the last node).

  A node is its address; the \<open>next\<close> fields of all nodes, list heads included, are one map from
  nodes to pointers, so the model has the aliasing of the C code: a node linked into two lists
  corrupts both. \<open>Tagged\<close> is the pointer value \<open>(list_node_t *) -1\<close>, which the mutex uses as a
  mark and which no list operation may dereference.
\<close>

datatype 'n ptr = Null | Tagged | Ptr 'n

type_synonym 'n links = "'n \<Rightarrow> 'n ptr"

fun the_node :: "'n ptr \<Rightarrow> fault + 'n" where
  "the_node Null = Inl NullDeref"
| "the_node Tagged = Inl BadPointer"
| "the_node (Ptr n) = Inr n"

section \<open>The operations of list.h\<close>

definition list_add :: "'n links \<Rightarrow> 'n \<Rightarrow> 'n \<Rightarrow> 'n links" where
  "list_add h node new_node = (let h1 = h(new_node := h node) in h1(node := Ptr new_node))"

definition list_remove_head :: "'n links \<Rightarrow> 'n \<Rightarrow> fault + ('n links \<times> 'n ptr)" where
  "list_remove_head h list =
     (let head = h list in
      if head \<noteq> Null
      then bindE (the_node head) (\<lambda>hd. Inr (h(list := h hd), head))
      else Inr (h, head))"

text \<open>\<open>list_remove\<close> walks along the list; on a list with a cycle it need not end.\<close>

partial_function (option) list_remove :: "'n links \<Rightarrow> 'n \<Rightarrow> 'n \<Rightarrow> (fault + ('n links \<times> 'n ptr)) option" where
  "list_remove h list node =
     (case h list of
        Null \<Rightarrow> Some (Inr (h, Null))
      | Tagged \<Rightarrow> Some (Inl BadPointer)
      | Ptr nx \<Rightarrow>
          if nx = node then Some (Inr (h(list := h node), Ptr node))
          else list_remove h nx node)"

section \<open>The operations of clist.h\<close>

definition clist_rpush :: "'n links \<Rightarrow> 'n \<Rightarrow> 'n \<Rightarrow> fault + 'n links" where
  "clist_rpush h list new_node =
     (if h list \<noteq> Null
      then bindE (the_node (h list)) (\<lambda>last.
             let h1 = h(new_node := h last);
                 h2 = h1(last := Ptr new_node)
             in Inr (h2(list := Ptr new_node)))
      else let h1 = h(new_node := Ptr new_node) in Inr (h1(list := Ptr new_node)))"

definition clist_lpush :: "'n links \<Rightarrow> 'n \<Rightarrow> 'n \<Rightarrow> fault + 'n links" where
  "clist_lpush h list new_node =
     (if h list \<noteq> Null
      then bindE (the_node (h list)) (\<lambda>last.
             let h1 = h(new_node := h last) in Inr (h1(last := Ptr new_node)))
      else let h1 = h(new_node := Ptr new_node) in Inr (h1(list := Ptr new_node)))"

definition clist_lpop :: "'n links \<Rightarrow> 'n \<Rightarrow> fault + ('n links \<times> 'n ptr)" where
  "clist_lpop h list =
     (if h list \<noteq> Null
      then bindE (the_node (h list)) (\<lambda>last.
             let first = h last in
             if h list = first then Inr (h(list := Null), first)
             else bindE (the_node first) (\<lambda>f. Inr (h(last := h f), first)))
      else Inr (h, Null))"

definition clist_lpoprpush :: "'n links \<Rightarrow> 'n \<Rightarrow> fault + 'n links" where
  "clist_lpoprpush h list =
     (if h list \<noteq> Null
      then bindE (the_node (h list)) (\<lambda>last. Inr (h(list := h last)))
      else Inr h)"

definition clist_lpeek :: "'n links \<Rightarrow> 'n \<Rightarrow> fault + 'n ptr" where
  "clist_lpeek h list =
     (if h list \<noteq> Null then bindE (the_node (h list)) (\<lambda>last. Inr (h last)) else Inr Null)"

definition clist_rpeek :: "'n links \<Rightarrow> 'n \<Rightarrow> 'n ptr" where
  "clist_rpeek h list = h list"

text \<open>
  The loop of \<open>clist_rpop\<close> rotates the list until the old last node is the first one; the loops
  of \<open>clist_find_before\<close>, \<open>clist_foreach\<close> and \<open>clist_count\<close> go round the list once. All of
  them run forever on links that are not a circular list.
\<close>

partial_function (option) rotate_until :: "'n links \<Rightarrow> 'n \<Rightarrow> 'n ptr \<Rightarrow> (fault + 'n links) option" where
  "rotate_until h list old =
     (case the_node (h list) of
        Inl e \<Rightarrow> Some (Inl e)
      | Inr n \<Rightarrow>
          if h n = old then Some (Inr h)
          else (case clist_lpoprpush h list of
                  Inl e \<Rightarrow> Some (Inl e)
                | Inr h' \<Rightarrow> rotate_until h' list old))"

definition clist_rpop :: "'n links \<Rightarrow> 'n \<Rightarrow> (fault + ('n links \<times> 'n ptr)) option" where
  "clist_rpop h list =
     (if h list \<noteq> Null
      then (case rotate_until h list (h list) of
              None \<Rightarrow> None
            | Some (Inl e) \<Rightarrow> Some (Inl e)
            | Some (Inr h') \<Rightarrow> Some (clist_lpop h' list))
      else Some (Inr (h, Null)))"

text \<open>One round from the node after \<open>pos\<close>: the body of the \<open>do\<close> loop, then its test.\<close>

partial_function (option) find_before_from :: "'n links \<Rightarrow> 'n \<Rightarrow> 'n ptr \<Rightarrow> 'n ptr \<Rightarrow> (fault + 'n ptr) option" where
  "find_before_from h list node pos =
     (case the_node pos of
        Inl e \<Rightarrow> Some (Inl e)
      | Inr p \<Rightarrow>
          (case the_node (h p) of
             Inl e \<Rightarrow> Some (Inl e)
           | Inr q \<Rightarrow>
               if h q = node then Some (Inr (Ptr q))
               else if Ptr q \<noteq> h list then find_before_from h list node (Ptr q)
               else Some (Inr Null)))"

definition clist_find_before :: "'n links \<Rightarrow> 'n \<Rightarrow> 'n ptr \<Rightarrow> (fault + 'n ptr) option" where
  "clist_find_before h list node =
     (if h list = Null then Some (Inr Null) else find_before_from h list node (h list))"

definition clist_find :: "'n links \<Rightarrow> 'n \<Rightarrow> 'n ptr \<Rightarrow> (fault + 'n ptr) option" where
  "clist_find h list node =
     (case clist_find_before h list node of
        None \<Rightarrow> None
      | Some (Inl e) \<Rightarrow> Some (Inl e)
      | Some (Inr tmp) \<Rightarrow>
          if tmp \<noteq> Null then Some (bindE (the_node tmp) (\<lambda>t. Inr (h t))) else Some (Inr Null))"

definition clist_remove :: "'n links \<Rightarrow> 'n \<Rightarrow> 'n \<Rightarrow> (fault + ('n links \<times> 'n ptr)) option" where
  "clist_remove h list node =
     (if h list \<noteq> Null then
        (case the_node (h list) of
           Inl e \<Rightarrow> Some (Inl e)
         | Inr lst \<Rightarrow>
             if h lst = Ptr node then Some (clist_lpop h list)
             else
               (case clist_find_before h list (Ptr node) of
                  None \<Rightarrow> None
                | Some (Inl e) \<Rightarrow> Some (Inl e)
                | Some (Inr tmp) \<Rightarrow>
                    if tmp \<noteq> Null then
                      Some (bindE (the_node tmp) (\<lambda>t.
                        bindE (the_node (h t)) (\<lambda>n.
                          let h1 = h(t := h n);
                              h2 = (if Ptr node = h1 list then h1(list := tmp) else h1)
                          in Inr (h2, Ptr node))))
                    else Some (Inr (h, Null))))
      else Some (Inr (h, Null)))"

partial_function (option) foreach_from ::
  "'n links \<Rightarrow> 'n \<Rightarrow> ('n \<Rightarrow> 's \<Rightarrow> 's \<times> bool) \<Rightarrow> 'n ptr \<Rightarrow> 's \<Rightarrow> (fault + ('s \<times> 'n ptr)) option" where
  "foreach_from h list func node arg =
     (case the_node node of
        Inl e \<Rightarrow> Some (Inl e)
      | Inr p \<Rightarrow>
          (case the_node (h p) of
             Inl e \<Rightarrow> Some (Inl e)
           | Inr q \<Rightarrow>
               (case func q arg of
                  (arg', stop) \<Rightarrow>
                    if stop then Some (Inr (arg', Ptr q))
                    else if Ptr q \<noteq> h list then foreach_from h list func (Ptr q) arg'
                    else Some (Inr (arg', Null)))))"

text \<open>The callback works on the memory behind \<open>arg\<close>; it does not relink the list.\<close>

definition clist_foreach ::
  "'n links \<Rightarrow> 'n \<Rightarrow> ('n \<Rightarrow> 's \<Rightarrow> 's \<times> bool) \<Rightarrow> 's \<Rightarrow> (fault + ('s \<times> 'n ptr)) option" where
  "clist_foreach h list func arg =
     (if h list \<noteq> Null then foreach_from h list func (h list) arg else Some (Inr (arg, Null)))"

partial_function (option) count_from ::
  "'n links \<Rightarrow> 'n \<Rightarrow> 'n ptr \<Rightarrow> u64 \<Rightarrow> (fault + u64) option" where
  "count_from h list node cnt =
     (case the_node node of
        Inl e \<Rightarrow> Some (Inl e)
      | Inr p \<Rightarrow>
          if h p \<noteq> h list then count_from h list (h p) (cnt + 1)
          else Some (Inr (cnt + 1)))"

definition clist_count :: "'n links \<Rightarrow> 'n \<Rightarrow> (fault + u64) option" where
  "clist_count h list =
     (if h list \<noteq> Null then count_from h list (h list) 0 else Some (Inr 0))"

section \<open>Lists in the heap\<close>

fun chain :: "'n links \<Rightarrow> 'n ptr \<Rightarrow> 'n list \<Rightarrow> 'n ptr \<Rightarrow> bool" where
  "chain h p [] q \<longleftrightarrow> p = q"
| "chain h p (x # xs) q \<longleftrightarrow> p = Ptr x \<and> chain h (h x) xs q"

definition slist :: "'n links \<Rightarrow> 'n \<Rightarrow> 'n list \<Rightarrow> bool" where
  "slist h l xs \<longleftrightarrow> chain h (h l) xs Null \<and> distinct (l # xs)"

definition clist :: "'n links \<Rightarrow> 'n \<Rightarrow> 'n list \<Rightarrow> bool" where
  "clist h l xs \<longleftrightarrow> distinct (l # xs) \<and>
     (if xs = [] then h l = Null
      else h l = Ptr (last xs) \<and> chain h (Ptr (hd xs)) xs (Ptr (hd xs)))"

lemma chain_append:
  "chain h p (xs @ ys) q \<longleftrightarrow> (\<exists>r. chain h p xs r \<and> chain h r ys q)"
  by (induction xs arbitrary: p) auto

lemma chain_snoc: "chain h p (xs @ [y]) q \<longleftrightarrow> chain h p xs (Ptr y) \<and> h y = q"
  by (auto simp: chain_append)

lemma chain_cong: "(\<And>x. x \<in> set xs \<Longrightarrow> h' x = h x) \<Longrightarrow> chain h' p xs q = chain h p xs q"
  by (induction xs arbitrary: p) auto

lemma chain_upd [simp]: "n \<notin> set xs \<Longrightarrow> chain (h(n := v)) p xs q = chain h p xs q"
  by (rule chain_cong) auto

lemma chain_hd: "chain h p xs q \<Longrightarrow> xs \<noteq> [] \<Longrightarrow> p = Ptr (hd xs)"
  by (cases xs) auto

lemma chain_unique:
  "chain h p xs Null \<Longrightarrow> chain h p ys Null \<Longrightarrow> xs = ys"
proof (induction xs arbitrary: p ys)
  case Nil
  then show ?case by (cases ys) auto
next
  case (Cons x xs)
  then show ?case by (cases ys) auto
qed

lemma slist_cong:
  "(\<And>x. x \<in> insert l (set xs) \<Longrightarrow> h' x = h x) \<Longrightarrow> slist h' l xs = slist h l xs"
  by (simp add: slist_def cong: conj_cong) (metis chain_cong)

lemma clist_cong:
  "(\<And>x. x \<in> insert l (set xs) \<Longrightarrow> h' x = h x) \<Longrightarrow> clist h' l xs = clist h l xs"
  using chain_cong [of xs h' h] by (simp add: clist_def)

lemma slist_unique: "slist h l xs \<Longrightarrow> slist h l ys \<Longrightarrow> xs = ys"
  by (auto simp: slist_def dest: chain_unique)

lemma slist_Nil: "slist h l [] \<longleftrightarrow> h l = Null"
  by (simp add: slist_def)

lemma clist_Nil: "clist h l [] \<longleftrightarrow> h l = Null"
  by (simp add: clist_def)

lemma clist_snoc:
  "clist h l (xs @ [y]) \<longleftrightarrow> distinct (l # xs @ [y]) \<and> h l = Ptr y \<and>
     chain h (h y) xs (Ptr y) \<and> h y = Ptr (hd (xs @ [y]))"
  by (cases xs) (auto simp: clist_def chain_snoc)

lemma clist_not_Nil: "clist h l xs \<Longrightarrow> h l = Null \<longleftrightarrow> xs = []"
  by (auto simp: clist_def split: if_splits)

section \<open>What the operations of list.h do to a list\<close>

lemma list_remove_head_Nil [simp]: "slist h l [] \<Longrightarrow> list_remove_head h l = Inr (h, Null)"
  by (simp add: slist_Nil list_remove_head_def)

lemma list_remove_head_Cons:
  assumes "slist h l (x # xs)"
  shows "list_remove_head h l = Inr (h(l := h x), Ptr x)" and "slist (h(l := h x)) l xs"
  using assms by (auto simp: slist_def list_remove_head_def)

lemma list_add_slist:
  assumes "slist h l (as @ bs)" and "n \<notin> set (l # as @ bs)"
  shows "slist (list_add h (last (l # as)) n) l (as @ n # bs)"
proof (cases as rule: rev_cases)
  case Nil
  with assms show ?thesis by (auto simp: slist_def list_add_def Let_def)
next
  case (snoc cs c)
  with assms show ?thesis
    by (auto simp: slist_def list_add_def Let_def chain_append)
qed

lemma list_remove_chain:
  assumes "chain h (h l) xs Null" and "distinct (l # xs)"
  shows "list_remove h l node =
    (if node \<in> set xs
     then Some (Inr (h(last (l # takeWhile (\<lambda>x. x \<noteq> node) xs) := h node), Ptr node))
     else Some (Inr (h, Null)))"
  using assms
proof (induction xs arbitrary: l)
  case Nil
  then show ?case by (subst list_remove.simps) simp
next
  case (Cons x xs)
  then show ?case by (subst list_remove.simps) (cases xs; auto)
qed

section \<open>What the operations of clist.h do to a list\<close>

lemma clist_rpush:
  assumes "clist h l xs" and "n \<notin> set (l # xs)"
  obtains h' where "clist_rpush h l n = Inr h'" and "clist h' l (xs @ [n])"
    and "\<And>m. m \<notin> insert l (insert n (set xs)) \<Longrightarrow> h' m = h m"
proof (cases xs rule: rev_cases)
  case Nil
  with assms show thesis
    by (intro that [of "h(n := Ptr n, l := Ptr n)"])
       (auto simp: clist_rpush_def clist_def)
next
  case (snoc ys y)
  with assms show thesis
    by (intro that [of "h(n := h y, y := Ptr n, l := Ptr n)"])
       (auto simp: clist_rpush_def clist_snoc clist_snoc [of _ _ "ys @ [y]", simplified]
          chain_snoc hd_append)
qed

lemma clist_lpush:
  assumes "clist h l xs" and "n \<notin> set (l # xs)"
  obtains h' where "clist_lpush h l n = Inr h'" and "clist h' l (n # xs)"
    and "\<And>m. m \<notin> insert l (insert n (set xs)) \<Longrightarrow> h' m = h m"
proof (cases xs rule: rev_cases)
  case Nil
  with assms show thesis
    by (intro that [of "h(n := Ptr n, l := Ptr n)"])
       (auto simp: clist_lpush_def clist_def)
next
  case (snoc ys y)
  with assms show thesis
    by (intro that [of "h(n := h y, y := Ptr n)"])
       (auto simp: clist_lpush_def clist_snoc clist_snoc [of _ _ "n # ys", simplified] chain_snoc)
qed

lemma clist_lpop_Nil [simp]: "clist h l [] \<Longrightarrow> clist_lpop h l = Inr (h, Null)"
  by (simp add: clist_Nil clist_lpop_def)

lemma clist_lpop_Cons:
  assumes "clist h l (x # xs)"
  obtains h' where "clist_lpop h l = Inr (h', Ptr x)" and "clist h' l xs"
    and "\<And>m. m \<notin> insert l (set xs) \<Longrightarrow> h' m = h m"
proof (cases xs rule: rev_cases)
  case Nil
  with assms show thesis
    by (intro that [of "h(l := Null)"]) (auto simp: clist_lpop_def clist_def)
next
  case (snoc ys y)
  from assms have c: "distinct (l # x # ys @ [y])" "h l = Ptr y" "chain h (h x) ys (Ptr y)" "h y = Ptr x"
    using clist_snoc [of h l "x # ys" y] snoc by auto
  then have hx: "h x = Ptr (hd (ys @ [y]))" using chain_hd [OF c(3)] by (cases ys) auto
  show thesis
  proof (rule that [of "h(y := h x)"])
    show "clist_lpop h l = Inr (h(y := h x), Ptr x)" using c by (auto simp: clist_lpop_def Let_def)
    show "clist (h(y := h x)) l xs" using c hx snoc by (auto simp: clist_snoc)
    show "(h(y := h x)) m = h m" if "m \<notin> insert l (set xs)" for m using that snoc by auto
  qed
qed

lemma clist_lpoprpush_rotate1:
  assumes "clist h l xs"
  obtains h' where "clist_lpoprpush h l = Inr h'" and "clist h' l (rotate1 xs)"
    and "\<And>m. m \<noteq> l \<Longrightarrow> h' m = h m"
proof (cases xs)
  case Nil
  with assms show thesis
    by (intro that [of h]) (auto simp: clist_lpoprpush_def clist_Nil)
next
  case (Cons x ys)
  show thesis
  proof (cases ys rule: rev_cases)
    case Nil
    with assms Cons show thesis
      by (intro that [of "h(l := Ptr x)"]) (auto simp: clist_lpoprpush_def clist_def)
  next
    case (snoc zs z)
    from assms have c: "distinct (l # x # zs @ [z])" "h l = Ptr z" "chain h (h x) zs (Ptr z)" "h z = Ptr x"
      using clist_snoc [of h l "x # zs" z] Cons snoc by auto
    then have hx: "h x = Ptr (hd (zs @ [z]))" using chain_hd [OF c(3)] by (cases zs) auto
    show thesis
    proof (rule that [of "h(l := Ptr x)"])
      show "clist_lpoprpush h l = Inr (h(l := Ptr x))" using c by (simp add: clist_lpoprpush_def)
      show "clist (h(l := Ptr x)) l (rotate1 xs)"
        using c hx Cons snoc clist_snoc [of _ l "zs @ [z]" x] by (auto simp: chain_snoc hd_append)
    qed auto
  qed
qed

lemma clist_lpeek_hd:
  "clist h l xs \<Longrightarrow> clist_lpeek h l = Inr (case xs of [] \<Rightarrow> Null | x # _ \<Rightarrow> Ptr x)"
  by (cases xs rule: rev_cases)
     (auto simp: clist_lpeek_def clist_Nil clist_snoc split: list.split)

lemma clist_rpeek_last:
  "clist h l xs \<Longrightarrow> clist_rpeek h l = (if xs = [] then Null else Ptr (last xs))"
  by (auto simp: clist_rpeek_def clist_def)

lemma clist_round:
  assumes "clist h l xs" and "xs \<noteq> []"
  shows "h l = Ptr (last xs)" and "chain h (h (last xs)) xs (Ptr (hd xs))" and "distinct xs"
    and "h (last xs) = Ptr (hd xs)"
proof -
  from assms(2) obtain ys y where "xs = ys @ [y]" by (cases xs rule: rev_cases) auto
  with assms show "h l = Ptr (last xs)" "chain h (h (last xs)) xs (Ptr (hd xs))" "distinct xs"
      "h (last xs) = Ptr (hd xs)"
    by (auto simp: clist_snoc chain_snoc)
qed

lemma rotate_until_rotates:
  assumes "clist h l (as @ z # bs)"
  shows "\<exists>h'. rotate_until h l (Ptr z) = Some (Inr h') \<and> clist h' l (z # bs @ as) \<and>
    (\<forall>m. m \<noteq> l \<longrightarrow> h' m = h m)"
  using assms
proof (induction as arbitrary: h bs)
  case Nil
  then have "h l = Ptr (last (z # bs))" "h (last (z # bs)) = Ptr z"
    using clist_round [of h l "z # bs"] by simp_all
  with Nil show ?case by (subst rotate_until.simps) simp
next
  case (Cons a as)
  let ?xs = "a # as @ z # bs"
  have l: "h l = Ptr (last ?xs)" "h (last ?xs) = Ptr a"
    using clist_round [of h l ?xs] Cons.prems by simp_all
  have "a \<noteq> z" using Cons.prems by (auto simp: clist_def)
  obtain h1 where h1: "clist_lpoprpush h l = Inr h1" "clist h1 l (rotate1 ?xs)" "\<And>m. m \<noteq> l \<Longrightarrow> h1 m = h m"
    using clist_lpoprpush_rotate1 [of h l ?xs] Cons.prems by auto
  from Cons.IH [of h1 "bs @ [a]"] h1(2) obtain h' where
    "rotate_until h1 l (Ptr z) = Some (Inr h')" "clist h' l (z # bs @ a # as)" "\<forall>m. m \<noteq> l \<longrightarrow> h' m = h1 m"
    by auto
  with l \<open>a \<noteq> z\<close> h1 show ?case by (subst rotate_until.simps) auto
qed

lemma clist_rpop_snoc:
  assumes "clist h l (xs @ [z])"
  obtains h' where "clist_rpop h l = Some (Inr (h', Ptr z))" and "clist h' l xs"
    and "\<And>m. m \<notin> insert l (set xs) \<Longrightarrow> h' m = h m"
proof -
  from rotate_until_rotates [of h l xs z "[]"] assms obtain h1 where
    h1: "rotate_until h l (Ptr z) = Some (Inr h1)" "clist h1 l (z # xs)" "\<And>m. m \<noteq> l \<Longrightarrow> h1 m = h m"
    by auto
  from clist_lpop_Cons [OF h1(2)] obtain h' where
    h': "clist_lpop h1 l = Inr (h', Ptr z)" "clist h' l xs" "\<And>m. m \<notin> insert l (set xs) \<Longrightarrow> h' m = h1 m"
    by blast
  have "h l = Ptr z" using assms by (simp add: clist_snoc)
  then have "clist_rpop h l = Some (Inr (h', Ptr z))"
    using h1 h' by (simp add: clist_rpop_def)
  then show thesis using h1 h' by (intro that [of h']) auto
qed

lemma clist_rpop_Nil: "clist h l [] \<Longrightarrow> clist_rpop h l = Some (Inr (h, Null))"
  by (simp add: clist_rpop_def clist_Nil)

text \<open>The three loops that go round once, on the part \<open>bs\<close> of the round that is left.\<close>

fun foreach_list :: "('n \<Rightarrow> 's \<Rightarrow> 's \<times> bool) \<Rightarrow> 'n list \<Rightarrow> 's \<Rightarrow> 's \<times> 'n ptr" where
  "foreach_list f [] arg = (arg, Null)"
| "foreach_list f (x # xs) arg =
     (case f x arg of (arg', stop) \<Rightarrow> if stop then (arg', Ptr x) else foreach_list f xs arg')"

lemma foreach_from_round:
  assumes "chain h (h p) bs r" and "bs \<noteq> []" and "h l = Ptr (last bs)" and "distinct bs"
  shows "foreach_from h l f (Ptr p) arg = Some (Inr (foreach_list f bs arg))"
  using assms
proof (induction bs arbitrary: p arg)
  case (Cons b bs)
  then show ?case
    by (subst foreach_from.simps) (cases bs; auto split: prod.split)
qed simp

lemma find_before_round:
  assumes "chain h (h p) bs r" and "bs \<noteq> []" and "h l = Ptr (last bs)" and "distinct bs"
  shows "find_before_from h l node (Ptr p) =
    Some (Inr (case find (\<lambda>q. h q = node) bs of None \<Rightarrow> Null | Some q \<Rightarrow> Ptr q))"
  using assms
proof (induction bs arbitrary: p)
  case (Cons b bs)
  then show ?case
    by (subst find_before_from.simps) (cases bs; auto)
qed simp

lemma count_round:
  assumes "chain h (h p) bs r" and "bs \<noteq> []" and "h l = Ptr (last bs)" and "distinct bs"
  shows "count_from h l (Ptr p) cnt = Some (Inr (cnt + of_nat (length bs)))"
  using assms
proof (induction bs arbitrary: p cnt)
  case (Cons b bs)
  then show ?case
    by (subst count_from.simps) (cases bs; auto simp: algebra_simps)
qed simp

lemma clist_foreach_list:
  "clist h l xs \<Longrightarrow> clist_foreach h l f arg = Some (Inr (foreach_list f xs arg))"
proof (cases "xs = []")
  case False
  assume "clist h l xs"
  with clist_round [OF this False] False show ?thesis
    by (simp add: clist_foreach_def foreach_from_round)
qed (simp add: clist_foreach_def clist_Nil)

lemma clist_count_length:
  "clist h l xs \<Longrightarrow> clist_count h l = Some (Inr (of_nat (length xs)))"
proof (cases "xs = []")
  case False
  assume "clist h l xs"
  with clist_round [OF this False] False show ?thesis
    by (simp add: clist_count_def count_round)
qed (simp add: clist_count_def clist_Nil)

lemma clist_find_before_find:
  "clist h l xs \<Longrightarrow> clist_find_before h l node =
     Some (Inr (case find (\<lambda>q. h q = node) xs of None \<Rightarrow> Null | Some q \<Rightarrow> Ptr q))"
proof (cases "xs = []")
  case False
  assume "clist h l xs"
  with clist_round [OF this False] False show ?thesis
    by (simp add: clist_find_before_def find_before_round)
qed (simp add: clist_find_before_def clist_Nil)

lemma find_predecessor:
  "chain h p as (Ptr n) \<Longrightarrow> n \<notin> set as \<Longrightarrow> as \<noteq> [] \<Longrightarrow>
     find (\<lambda>q. h q = Ptr n) (as @ cs) = Some (last as)"
proof (induction as arbitrary: p)
  case (Cons a as)
  then show ?case by (cases as) auto
qed simp

lemma chain_next_in: "chain h p xs (Ptr z) \<Longrightarrow> q \<in> set xs \<Longrightarrow> h q \<in> Ptr ` insert z (set xs)"
proof (induction xs arbitrary: p)
  case (Cons a xs)
  then show ?case by (cases xs) auto
qed simp

lemma clist_find_in:
  assumes "clist h l xs"
  shows "clist_find h l (Ptr n) = Some (Inr (if n \<in> set xs then Ptr n else Null))"
proof (cases "xs = []")
  case True
  with assms show ?thesis by (simp add: clist_find_def clist_find_before_find)
next
  case False
  note r = clist_round [OF assms False]
  show ?thesis
  proof (cases "\<exists>q \<in> set xs. h q = Ptr n")
    case True
    then obtain q where q: "find (\<lambda>q. h q = Ptr n) xs = Some q"
      by (cases "find (\<lambda>q. h q = Ptr n) xs") (auto simp: find_None_iff)
    then have "h q = Ptr n" "q \<in> set xs" by (auto simp: find_Some_iff)
    moreover from this have "n \<in> set xs" using chain_next_in [OF r(2), of q] False by auto
    ultimately show ?thesis using assms q by (simp add: clist_find_def clist_find_before_find)
  next
    case none: False
    then have f: "find (\<lambda>q. h q = Ptr n) xs = None" by (auto simp: find_None_iff)
    have "n \<notin> set xs"
    proof
      assume "n \<in> set xs"
      then obtain as bs where xs: "xs = as @ n # bs" by (auto simp: in_set_conv_decomp)
      show False
      proof (cases as rule: rev_cases)
        case Nil
        with xs have "h (last xs) = Ptr n" using r(4) by simp
        with none False show False by (metis last_in_set)
      next
        case (snoc cs c)
        with r(2) xs none show False by (auto simp: chain_append)
      qed
    qed
    with f assms show ?thesis by (simp add: clist_find_def clist_find_before_find)
  qed
qed

lemma clist_remove_notin:
  assumes "clist h l xs" and "n \<notin> set xs"
  shows "clist_remove h l n = Some (Inr (h, Null))"
proof (cases "xs = []")
  case True
  with assms show ?thesis by (simp add: clist_remove_def clist_Nil)
next
  case False
  note r = clist_round [OF assms(1) False]
  have "h q \<noteq> Ptr n" if "q \<in> set xs" for q
    using chain_next_in [OF r(2) that] False assms(2) by auto
  then have "find (\<lambda>q. h q = Ptr n) xs = None" by (auto simp: find_None_iff)
  moreover have "hd xs \<noteq> n" using False assms(2) by auto
  ultimately show ?thesis using r assms(1) False
    by (simp add: clist_remove_def clist_find_before_find)
qed

lemma clist_remove_in:
  assumes "clist h l xs" and "n \<in> set xs"
  obtains h' where "clist_remove h l n = Some (Inr (h', Ptr n))" and "clist h' l (remove1 n xs)"
    and "\<And>m. m \<notin> insert l (set (remove1 n xs)) \<Longrightarrow> h' m = h m"
proof -
  have ne: "xs \<noteq> []" using assms(2) by auto
  note r = clist_round [OF assms(1) ne]
  show thesis
  proof (cases "hd xs = n")
    case True
    with ne obtain ys where xs: "xs = n # ys" by (cases xs) auto
    with assms(1) obtain h' where "clist_lpop h l = Inr (h', Ptr n)" "clist h' l ys"
        "\<And>m. m \<notin> insert l (set ys) \<Longrightarrow> h' m = h m"
      by (auto elim: clist_lpop_Cons)
    with r True xs show thesis by (intro that [of h']) (auto simp: clist_remove_def)
  next
    case False
    from assms(2) obtain cs bs where cs: "xs = cs @ n # bs" "n \<notin> set cs"
      by (auto dest: split_list_first)
    with False obtain as q where as: "cs = as @ [q]" by (cases cs rule: rev_cases) auto
    then have xs: "xs = as @ q # n # bs" using cs by simp
    have d: "distinct (l # xs)" using assms(1) by (simp add: clist_def)
    have c: "chain h (h (last xs)) as (Ptr q)" "h q = Ptr n" "chain h (h n) bs (Ptr (hd xs))"
      using r(2) xs by (auto simp: chain_append)
    have "find (\<lambda>q. h q = Ptr n) (cs @ n # bs) = Some (last cs)"
      using c as cs d by (intro find_predecessor [where p = "h (last xs)"]) (auto simp: chain_append)
    then have f: "find (\<lambda>q. h q = Ptr n) xs = Some q" using as cs by simp
    have hx: "hd xs = hd (as @ [q])" using xs by (cases as) auto
    let ?h1 = "h(q := h n)"
    have hl: "?h1 l = Ptr (last xs)" using r(1) d xs by auto
    let ?h2 = "if bs = [] then ?h1(l := Ptr q) else ?h1"
    have "clist_remove h l n = Some (Inr (?h2, Ptr n))"
    proof -
      have "Ptr n = Ptr (last xs) \<longleftrightarrow> bs = []" using xs d by (auto dest: last_in_set split: if_splits)
      then show ?thesis using r assms(1) False f c ne hl
        by (simp add: clist_remove_def clist_find_before_find Let_def)
    qed
    moreover have "remove1 n xs = as @ q # bs" using cs as by (simp add: remove1_append)
    moreover have "clist ?h2 l (as @ q # bs)"
    proof (cases bs rule: rev_cases)
      case Nil
      then have "last xs = n" "h n = Ptr (hd xs)" using xs c(3) by auto
      with Nil c(1) d hx xs show ?thesis by (auto simp: clist_snoc)
    next
      case (snoc ds e)
      have e: "last xs = e" "h e = Ptr (hd xs)" "chain h (h n) ds (Ptr e)"
        using xs snoc c(3) r(4) by (auto simp: chain_snoc)
      have "chain ?h1 (Ptr (hd xs)) (as @ q # ds) (Ptr e)"
        using c(1) e d xs snoc by (simp add: chain_append)
      then have "clist ?h1 l ((as @ q # ds) @ [e])"
        unfolding clist_snoc using e d xs snoc hl hx by (cases as) auto
      with snoc show ?thesis by simp
    qed
    ultimately show thesis using xs by (intro that [of ?h2]) auto
  qed
qed

end
