(* ===== verification/Cib.thy ===== *)
theory Cib
  imports Prelude
begin

text \<open>
  The circular integer buffer of \<open>core/include/cib.h\<close>: two free-running counters and a
  mask, which hand out the slot numbers of an array kept elsewhere. Message queues
  (\<open>core/msg.c\<close>) and mailboxes (\<open>core/mbox.c\<close>) store their messages through it.

  The interface is the locale \<open>slot_ring\<close>: a provider hands out slots in FIFO order and never
  hands out a slot that is in use. The lemmas of the clients (storing a message in the slot that
  was handed out appends it to the queue; reading the slot that was handed back takes the
  oldest one) are proved in the locale, and \<open>cib_put\<close> and \<open>cib_get\<close> are an interpretation.
\<close>

section \<open>The data and the operations\<close>

record cib_t =
  read_count :: u32
  write_count :: u32
  cib_mask :: u32

definition CIB_INIT :: "u32 \<Rightarrow> cib_t" where
  "CIB_INIT SIZE = \<lparr>read_count = 0, write_count = 0, cib_mask = SIZE - 1\<rparr>"

definition cib_init :: "u32 \<Rightarrow> fault + cib_t" where
  "cib_init sz = assertE (sz AND (sz - 1) = 0) (CIB_INIT sz)"

definition cib_avail :: "cib_t \<Rightarrow> u32" where
  "cib_avail cib = write_count cib - read_count cib"

definition cib_full :: "cib_t \<Rightarrow> bool" where
  "cib_full cib \<longleftrightarrow> sint (cib_avail cib) > sint (cib_mask cib)"

definition cib_get :: "cib_t \<Rightarrow> cib_t \<times> int" where
  "cib_get cib =
     (if cib_avail cib \<noteq> 0
      then (cib\<lparr>read_count := read_count cib + 1\<rparr>, sint (read_count cib AND cib_mask cib))
      else (cib, -1))"

definition cib_peek :: "cib_t \<Rightarrow> int" where
  "cib_peek cib =
     (if cib_avail cib \<noteq> 0 then sint (read_count cib AND cib_mask cib) else -1)"

definition cib_get_unsafe :: "cib_t \<Rightarrow> cib_t \<times> int" where
  "cib_get_unsafe cib =
     (cib\<lparr>read_count := read_count cib + 1\<rparr>, sint (read_count cib AND cib_mask cib))"

definition cib_put :: "cib_t \<Rightarrow> cib_t \<times> int" where
  "cib_put cib =
     (let avail = cib_avail cib in
      if sint avail \<le> sint (cib_mask cib)
      then (cib\<lparr>write_count := write_count cib + 1\<rparr>, sint (write_count cib AND cib_mask cib))
      else (cib, -1))"

definition cib_put_unsafe :: "cib_t \<Rightarrow> cib_t \<times> int" where
  "cib_put_unsafe cib =
     (cib\<lparr>write_count := write_count cib + 1\<rparr>, sint (write_count cib AND cib_mask cib))"

section \<open>The interface\<close>

text \<open>
  \<open>slots r\<close> are the slots in use, oldest first; \<open>cap r\<close> is their maximal number. \<open>put\<close>
  and \<open>get\<close> return the slot as a C \<open>int\<close>, negative for failure.
\<close>

locale slot_ring =
  fixes put :: "'r \<Rightarrow> 'r \<times> int"
    and get :: "'r \<Rightarrow> 'r \<times> int"
    and slots :: "'r \<Rightarrow> nat list"
    and cap :: "'r \<Rightarrow> nat"
    and invar :: "'r \<Rightarrow> bool"
  assumes slots_bound: "invar r \<Longrightarrow> i \<in> set (slots r) \<Longrightarrow> i < cap r"
    and slots_distinct: "invar r \<Longrightarrow> distinct (slots r)"
    and put_ok: "invar r \<Longrightarrow> length (slots r) < cap r \<Longrightarrow>
      \<exists>r' i. put r = (r', int i) \<and> i < cap r \<and> i \<notin> set (slots r) \<and>
             slots r' = slots r @ [i] \<and> cap r' = cap r \<and> invar r'"
    and put_full: "invar r \<Longrightarrow> length (slots r) = cap r \<Longrightarrow> put r = (r, -1)"
    and get_ok: "invar r \<Longrightarrow> slots r = i # is \<Longrightarrow>
      \<exists>r'. get r = (r', int i) \<and> slots r' = is \<and> cap r' = cap r \<and> invar r'"
    and get_empty: "invar r \<Longrightarrow> slots r = [] \<Longrightarrow> get r = (r, -1)"
begin

text \<open>The queue that a client sees: the array read at the slots in use.\<close>

definition contents :: "'r \<Rightarrow> (nat \<Rightarrow> 'm) \<Rightarrow> 'm list" where
  "contents r a = map a (slots r)"

lemma length_contents: "length (contents r a) = length (slots r)"
  by (simp add: contents_def)

lemma length_slots: "invar r \<Longrightarrow> length (slots r) \<le> cap r"
proof -
  assume inv: "invar r"
  have "card (set (slots r)) \<le> card {..<cap r}"
    using inv by (intro card_mono) (auto dest: slots_bound)
  then show ?thesis using inv by (simp add: distinct_card slots_distinct)
qed

lemma put_contents:
  assumes "invar r" and "length (contents r a) < cap r"
  shows "\<exists>r' i. put r = (r', int i) \<and> i < cap r \<and> invar r' \<and> cap r' = cap r \<and>
           contents r' (a(i := m)) = contents r a @ [m]"
proof -
  from assms obtain r' i where
    p: "put r = (r', int i)" "i < cap r" "i \<notin> set (slots r)"
       "slots r' = slots r @ [i]" "cap r' = cap r" "invar r'"
    using put_ok [OF assms(1)] by (auto simp: length_contents)
  then have "contents r' (a(i := m)) = contents r a @ [m]"
    by (auto simp: contents_def)
  with p show ?thesis by blast
qed

lemma get_contents:
  assumes "invar r" and "contents r a = m # ms"
  shows "\<exists>r' i. get r = (r', int i) \<and> i < cap r \<and> a i = m \<and> invar r' \<and> cap r' = cap r \<and>
           contents r' a = ms"
proof -
  from assms(2) obtain i "is" where s: "slots r = i # is" "a i = m" "map a is = ms"
    by (auto simp: contents_def)
  from get_ok [OF assms(1) s(1)] obtain r' where
    g: "get r = (r', int i)" "slots r' = is" "cap r' = cap r" "invar r'"
    by blast
  moreover from s assms(1) have "i < cap r" by (auto intro: slots_bound)
  ultimately show ?thesis using s by (auto simp: contents_def)
qed

end

section \<open>The circular integer buffer implements the interface\<close>

text \<open>
  A size is a power of two (or zero, a queue that is always full); the largest one for which
  the signed comparisons in \<open>cib_put\<close> and \<open>cib_full\<close> are right is \<open>2 ^ 30\<close>.
\<close>

definition cib_size :: "cib_t \<Rightarrow> nat" where
  "cib_size cib = unat (cib_mask cib + 1)"

definition cib_inv :: "cib_t \<Rightarrow> bool" where
  "cib_inv cib \<longleftrightarrow>
     (cib_mask cib = -1 \<or> (\<exists>k \<le> 30. cib_mask cib = mask k)) \<and>
     unat (cib_avail cib) \<le> cib_size cib"

definition cib_slots :: "cib_t \<Rightarrow> nat list" where
  "cib_slots cib =
     map (\<lambda>i. unat ((read_count cib + of_nat i) AND cib_mask cib)) [0..<unat (cib_avail cib)]"

lemma unat_mask_Suc: "k \<le> 30 \<Longrightarrow> unat (mask k + 1 :: u32) = 2 ^ k"
proof -
  assume "k \<le> 30"
  then have "(2::nat) ^ k < 2 ^ 32" by (intro power_strict_increasing) auto
  moreover have "(mask k + 1 :: u32) = of_nat (2 ^ k)"
    by (simp add: mask_eq_decr_exp)
  ultimately show ?thesis by (simp add: unat_of_nat take_bit_nat_eq_self del: of_nat_power)
qed

lemma cib_cases:
  assumes "cib_inv cib"
  obtains (none) "cib_mask cib = -1" "cib_size cib = 0" "cib_avail cib = 0"
  | (pow) k where "k \<le> 30" "cib_mask cib = mask k" "cib_size cib = 2 ^ k"
      "unat (cib_avail cib) \<le> 2 ^ k"
proof -
  from assms consider "cib_mask cib = -1" | k where "k \<le> 30" "cib_mask cib = mask k"
    by (auto simp: cib_inv_def)
  then show thesis
  proof cases
    case 1
    then show ?thesis using assms none
      by (simp add: cib_inv_def cib_size_def unat_eq_zero)
  next
    case (2 k)
    then show ?thesis using assms pow [of k]
      by (simp add: cib_inv_def cib_size_def unat_mask_Suc)
  qed
qed

lemma cib_slots_pow:
  assumes "k \<le> 30" "cib_mask cib = mask k"
  shows "cib_slots cib =
    map (\<lambda>i. (unat (read_count cib) + i) mod 2 ^ k) [0..<unat (cib_avail cib)]"
  using assms by (simp add: cib_slots_def unat_and_mask unat_add_of_nat_mod)

lemma length_cib_slots [simp]: "length (cib_slots cib) = unat (cib_avail cib)"
  by (simp add: cib_slots_def)

lemma sint_slot:
  "k \<le> 30 \<Longrightarrow> sint ((x::u32) AND mask k) = int (unat x mod 2 ^ k)"
proof -
  assume k: "k \<le> 30"
  have "unat x mod 2 ^ k < 2 ^ k" by simp
  also have "(2::nat) ^ k \<le> 2 ^ 30" using k by (intro power_increasing) auto
  finally have "unat (x AND mask k) < 2 ^ (LENGTH(32) - 1)" by (simp add: unat_and_mask)
  from sint_eq_unat [OF this] show ?thesis by (simp add: unat_and_mask)
qed

lemma unat_minus_one_mod: "k \<le> 30 \<Longrightarrow> unat (-1 :: u32) mod 2 ^ k = 2 ^ k - 1"
proof -
  assume "k \<le> 30"
  then have "(2::nat) ^ k dvd 2 ^ 32" by (intro le_imp_power_dvd) auto
  then obtain q where q: "(2::nat) ^ 32 = 2 ^ k * q" by (elim dvdE)
  then have "0 < q" by (intro Nat.gr0I) auto
  then obtain r where "q = Suc r" by (auto dest: gr0_implies_Suc)
  moreover have "unat (-1 :: u32) = 2 ^ 32 - 1" by (simp add: unsigned_minus_1_eq_mask mask_eq_exp_minus_1)
  ultimately have "unat (-1 :: u32) = (2 ^ k - 1) + 2 ^ k * r" using q by simp
  then show ?thesis by (simp only: mod_mult_self2) simp
qed

lemma cib_put_guard:
  assumes "cib_inv cib"
  shows "sint (cib_avail cib) \<le> sint (cib_mask cib) \<longleftrightarrow> unat (cib_avail cib) < cib_size cib"
  using assms
proof (cases rule: cib_cases)
  case none
  then show ?thesis by simp
next
  case (pow k)
  have p: "(2::nat) ^ k \<le> 2 ^ 30" using pow(1) by (intro power_increasing) auto
  have "sint (mask k :: u32) = int (2 ^ k - 1)"
    using sint_slot [OF pow(1), of "-1"] by (simp add: unat_minus_one_mod [OF pow(1)])
  moreover have "sint (cib_avail cib) = int (unat (cib_avail cib))"
    using pow(4) p by (intro sint_eq_unat) auto
  moreover have "int (2 ^ k - 1) = int (2 ^ k) - 1" by (simp add: of_nat_diff)
  ultimately show ?thesis using pow
    by (simp only: zle_diff1_eq of_nat_less_iff)
qed

text \<open>The effect of the two counters on the slots in use; the counters may wrap around.\<close>

lemma cib_write_slots:
  assumes "cib_inv cib" and "unat (cib_avail cib) < cib_size cib"
  defines "cib' \<equiv> cib\<lparr>write_count := write_count cib + 1\<rparr>"
  shows "cib_inv cib'" and "cib_size cib' = cib_size cib"
    and "\<exists>i. sint (write_count cib AND cib_mask cib) = int i \<and> i < cib_size cib \<and>
           i \<notin> set (cib_slots cib) \<and> cib_slots cib' = cib_slots cib @ [i]"
proof -
  from assms(1,2) obtain k where k: "k \<le> 30" "cib_mask cib = mask k" "cib_size cib = 2 ^ k"
    by (cases rule: cib_cases) auto
  let ?r = "unat (read_count cib)" and ?n = "unat (cib_avail cib)"
  have p: "(2::nat) ^ k \<le> 2 ^ 30" using k(1) by (intro power_increasing) auto
  have av: "cib_avail cib' = cib_avail cib + 1" by (simp add: cib'_def cib_avail_def)
  have n': "unat (cib_avail cib') = Suc ?n"
    using assms(2) k(3) p by (simp add: av unat_word_ariths)
  show "cib_size cib' = cib_size cib" by (simp add: cib'_def cib_size_def)
  then show "cib_inv cib'" using assms k n'
    by (auto simp: cib_inv_def cib'_def)
  have w: "write_count cib = read_count cib + of_nat ?n" by (simp add: cib_avail_def)
  let ?i = "(?r + ?n) mod 2 ^ k"
  have "sint (write_count cib AND cib_mask cib) = int ?i"
    using k unat_add_of_nat_mod [of k "read_count cib" ?n]
    by (simp add: sint_slot w)
  moreover have "?i \<notin> set (cib_slots cib)"
    using assms(2) k by (auto simp: cib_slots_pow dest: add_mod_inj)
  moreover have "cib_slots cib' = cib_slots cib @ [?i]"
  proof -
    have "cib_mask cib' = mask k" "read_count cib' = read_count cib"
      using k by (simp_all add: cib'_def)
    then show ?thesis using k n' by (simp add: cib_slots_pow)
  qed
  ultimately show "\<exists>i. sint (write_count cib AND cib_mask cib) = int i \<and> i < cib_size cib \<and>
           i \<notin> set (cib_slots cib) \<and> cib_slots cib' = cib_slots cib @ [i]"
    using k by (intro exI [of _ ?i]) simp
qed

lemma cib_read_slots:
  assumes "cib_inv cib" and "cib_avail cib \<noteq> 0"
  defines "cib' \<equiv> cib\<lparr>read_count := read_count cib + 1\<rparr>"
  shows "cib_inv cib'" and "cib_size cib' = cib_size cib"
    and "\<exists>i. sint (read_count cib AND cib_mask cib) = int i \<and> i < cib_size cib \<and>
           cib_slots cib = i # cib_slots cib'"
proof -
  from assms(1,2) obtain k where k: "k \<le> 30" "cib_mask cib = mask k" "cib_size cib = 2 ^ k"
      "unat (cib_avail cib) \<le> 2 ^ k"
    by (cases rule: cib_cases) auto
  let ?r = "unat (read_count cib)" and ?n = "unat (cib_avail cib)"
  have av: "cib_avail cib' = cib_avail cib - 1" by (simp add: cib'_def cib_avail_def)
  have n': "?n = Suc (unat (cib_avail cib'))"
    using assms(2) unat_minus_one [of "cib_avail cib"] unat_gt_0 [of "cib_avail cib"] by (simp add: av)
  show "cib_size cib' = cib_size cib" by (simp add: cib'_def cib_size_def)
  then show "cib_inv cib'" using assms(1) n'
    by (auto simp: cib_inv_def cib'_def)
  have "cib_slots cib = ?r mod 2 ^ k # cib_slots cib'"
  proof -
    have "unat (read_count cib') mod 2 ^ k = (?r + 1) mod 2 ^ k"
      using unat_add_of_nat_mod [of k "read_count cib" 1] k(1) by (simp add: cib'_def)
    then have "(unat (read_count cib') + i) mod 2 ^ k = (?r + Suc i) mod 2 ^ k" for i
      by (metis mod_add_left_eq add.assoc plus_1_eq_Suc)
    moreover have "cib_mask cib' = mask k" using k by (simp add: cib'_def)
    ultimately show ?thesis using k n'
      by (simp add: cib_slots_pow upt_conv_Cons map_Suc_upt [symmetric] comp_def del: upt_Suc)
  qed
  then show "\<exists>i. sint (read_count cib AND cib_mask cib) = int i \<and> i < cib_size cib \<and>
           cib_slots cib = i # cib_slots cib'"
    using k by (intro exI [of _ "?r mod 2 ^ k"]) (simp add: sint_slot)
qed

interpretation cib: slot_ring cib_put cib_get cib_slots cib_size cib_inv
proof unfold_locales
  fix r i
  assume inv: "cib_inv r" and "i \<in> set (cib_slots r)"
  then show "i < cib_size r"
    by (cases rule: cib_cases) (auto simp: cib_slots_def unat_and_mask)
next
  fix r
  assume inv: "cib_inv r"
  then show "distinct (cib_slots r)"
  proof (cases rule: cib_cases)
    case (pow k)
    then show ?thesis
      by (auto simp: cib_slots_pow distinct_map intro!: inj_onI dest: add_mod_inj)
  qed (simp add: cib_slots_def)
next
  fix r
  assume "cib_inv r" and "length (cib_slots r) < cib_size r"
  then show "\<exists>r' i. cib_put r = (r', int i) \<and> i < cib_size r \<and> i \<notin> set (cib_slots r) \<and>
      cib_slots r' = cib_slots r @ [i] \<and> cib_size r' = cib_size r \<and> cib_inv r'"
    using cib_write_slots [of r] by (auto simp: cib_put_def cib_put_guard)
next
  fix r
  assume "cib_inv r" and "length (cib_slots r) = cib_size r"
  then show "cib_put r = (r, -1)" by (simp add: cib_put_def cib_put_guard)
next
  fix r i "is"
  assume inv: "cib_inv r" and s: "cib_slots r = i # is"
  then have "length (cib_slots r) \<noteq> 0" by simp
  then have "cib_avail r \<noteq> 0" by auto
  with inv s show "\<exists>r'. cib_get r = (r', int i) \<and> cib_slots r' = is \<and> cib_size r' = cib_size r \<and> cib_inv r'"
    using cib_read_slots [of r] by (auto simp: cib_get_def)
next
  fix r
  assume "cib_inv r" and "cib_slots r = []"
  then have "length (cib_slots r) = 0" by simp
  then have "cib_avail r = 0" by (simp add: unat_eq_zero)
  then show "cib_get r = (r, -1)" by (simp add: cib_get_def)
qed

end
