(* ===== verification/Kernel.thy ===== *)
theory Kernel
  imports Lists Cib
begin

text \<open>
  The state of the kernel: the thread control blocks (\<open>struct _thread\<close> of
  \<open>core/include/thread.h\<close>), the variables of the scheduler (\<open>core/sched.c\<close>), the \<open>next\<close>
  fields of every list node, the message objects, and the two bits of the RISC-V core
  (\<open>cpu/riscv_common/riscv_cpu.c\<close>) that the kernel works with: the global interrupt enable
  and the software interrupt that requests a context switch.

  Addresses are integers. A thread is the address of its control block; \<open>sched_threads\<close> maps
  process identifiers to them, as the array of that name does.
\<close>

section \<open>Constants\<close>

definition SCHED_PRIO_LEVELS :: nat where "SCHED_PRIO_LEVELS = 16"
definition THREAD_PRIORITY_MIN :: nat where "THREAD_PRIORITY_MIN = SCHED_PRIO_LEVELS - 1"
definition THREAD_PRIORITY_IDLE :: nat where "THREAD_PRIORITY_IDLE = THREAD_PRIORITY_MIN"
definition THREAD_PRIORITY_MAIN :: nat where
  "THREAD_PRIORITY_MAIN = THREAD_PRIORITY_MIN - SCHED_PRIO_LEVELS div 2"
definition MAXTHREADS :: int where "MAXTHREADS = 32"
definition KERNEL_PID_UNDEF :: int where "KERNEL_PID_UNDEF = 0"
definition KERNEL_PID_FIRST :: int where "KERNEL_PID_FIRST = KERNEL_PID_UNDEF + 1"
definition KERNEL_PID_LAST :: int where "KERNEL_PID_LAST = KERNEL_PID_FIRST + MAXTHREADS - 1"
definition KERNEL_PID_ISR :: int where "KERNEL_PID_ISR = KERNEL_PID_LAST + 1"

lemmas kernel_consts = SCHED_PRIO_LEVELS_def THREAD_PRIORITY_MIN_def THREAD_PRIORITY_IDLE_def
  THREAD_PRIORITY_MAIN_def MAXTHREADS_def KERNEL_PID_UNDEF_def KERNEL_PID_FIRST_def
  KERNEL_PID_LAST_def KERNEL_PID_ISR_def

definition pid_is_valid :: "int \<Rightarrow> bool" where
  "pid_is_valid pid \<longleftrightarrow> KERNEL_PID_FIRST \<le> pid \<and> pid \<le> KERNEL_PID_LAST"

section \<open>Data\<close>

datatype thread_status_t =
    STATUS_STOPPED
  | STATUS_SLEEPING
  | STATUS_MUTEX_BLOCKED
  | STATUS_RECEIVE_BLOCKED
  | STATUS_SEND_BLOCKED
  | STATUS_REPLY_BLOCKED
  | STATUS_FLAG_BLOCKED_ANY
  | STATUS_FLAG_BLOCKED_ALL
  | STATUS_MBOX_BLOCKED
  | STATUS_COND_BLOCKED
  | STATUS_RUNNING
  | STATUS_PENDING

text \<open>\<open>st >= STATUS_ON_RUNQUEUE\<close>, where \<open>STATUS_ON_RUNQUEUE\<close> is \<open>STATUS_RUNNING\<close>.\<close>

fun on_runqueue :: "thread_status_t \<Rightarrow> bool" where
  "on_runqueue STATUS_RUNNING = True"
| "on_runqueue STATUS_PENDING = True"
| "on_runqueue _ = False"

type_synonym tid = int

text \<open>Every place that holds a \<open>list_node_t\<close> or \<open>clist_node_t\<close>.\<close>

datatype node =
    RunQueue nat          \<comment> \<open>\<open>sched_runqueues[prio]\<close>\<close>
  | RqEntry tid           \<comment> \<open>\<open>thread->rq_entry\<close>\<close>
  | MsgWaiters tid        \<comment> \<open>\<open>thread->msg_waiters\<close>\<close>
  | MutexQueue int        \<comment> \<open>\<open>mutex->queue\<close>\<close>
  | CondQueue int         \<comment> \<open>\<open>cond->queue\<close>\<close>
  | MboxReaders int       \<comment> \<open>\<open>mbox->readers\<close>\<close>
  | MboxWriters int       \<comment> \<open>\<open>mbox->writers\<close>\<close>

text \<open>
  A message object is an element of an array of messages (a single \<open>msg_t\<close> is an array of one):
  the address of the array and the index.
\<close>

type_synonym maddr = "int \<times> int"

record msg_t =
  sender_pid :: int
  msg_type :: u16
  content :: u64

text \<open>\<open>wait_data\<close> is a pointer to a message, or a mask of thread flags cast to a pointer.\<close>

datatype wait_data_t = NoData | MsgPtr maddr | FlagMask u16

record thread_t =
  status :: thread_status_t
  priority :: nat
  pid :: int
  flags :: u16
  wait_data :: wait_data_t
  msg_queue :: cib_t
  msg_array :: "int option"

record mbox_t =
  mbox_cib :: cib_t
  mbox_array :: int

record rmutex_t =
  refcount :: u16
  owner :: int

record kernel =
  links :: "node links"
  tcb :: "tid \<Rightarrow> thread_t"
  sched_threads :: "int \<Rightarrow> tid option"
  sched_num_threads :: int
  sched_active_thread :: "tid option"
  sched_active_pid :: int
  runqueue_bitcache :: u32
  sched_context_switch_request :: bool
  msgs :: "maddr \<Rightarrow> msg_t"
  mboxes :: "int \<Rightarrow> mbox_t"
  rmutexes :: "int \<Rightarrow> rmutex_t"
  msip :: bool
  mie :: bool
  in_isr :: bool
  thread_flags_module :: bool  \<comment> \<open>\<open>MODULE_CORE_THREAD_FLAGS\<close>, fixed at build time\<close>

definition upd_thread :: "tid \<Rightarrow> (thread_t \<Rightarrow> thread_t) \<Rightarrow> kernel \<Rightarrow> kernel" where
  "upd_thread t f s = s\<lparr>tcb := (tcb s)(t := f (tcb s t))\<rparr>"

text \<open>\<open>container_of(node, thread_t, rq_entry)\<close>: only an \<open>rq_entry\<close> lies inside a thread.\<close>

fun thread_of :: "node ptr \<Rightarrow> fault + tid" where
  "thread_of (Ptr (RqEntry t)) = Inr t"
| "thread_of Null = Inl NullDeref"
| "thread_of _ = Inl BadPointer"

fun active_thread :: "kernel \<Rightarrow> fault + tid" where
  "active_thread s = (case sched_active_thread s of None \<Rightarrow> Inl NullDeref | Some t \<Rightarrow> Inr t)"

text \<open>An access \<open>sched_threads[pid]\<close>; the array has \<open>KERNEL_PID_LAST + 1\<close> elements.\<close>

definition thread_entry :: "kernel \<Rightarrow> int \<Rightarrow> fault + tid option" where
  "thread_entry s p =
     (if 0 \<le> p \<and> p \<le> KERNEL_PID_LAST then Inr (sched_threads s p) else Inl OutOfBounds)"

text \<open>
  A call that can block either returns a value or stops after \<open>thread_yield_higher\<close> with the
  caller blocked; what the call does once the caller runs again is a definition of its own.
\<close>

datatype 'a outcome = Done 'a | Blocked

section \<open>Interrupts and the request for a context switch\<close>

definition irq_disable :: "kernel \<Rightarrow> kernel \<times> bool" where
  "irq_disable s = (s\<lparr>mie := False\<rparr>, mie s)"

definition irq_enable :: "kernel \<Rightarrow> kernel \<times> bool" where
  "irq_enable s = (s\<lparr>mie := True\<rparr>, mie s)"

definition irq_restore :: "bool \<Rightarrow> kernel \<Rightarrow> kernel" where
  "irq_restore state s = (if state then s\<lparr>mie := True\<rparr> else s\<lparr>mie := False\<rparr>)"

definition irq_is_in :: "kernel \<Rightarrow> bool" where
  "irq_is_in s = in_isr s"

text \<open>
  \<open>thread_yield_higher\<close> raises the software interrupt; the switch itself is the trap entry,
  which runs as soon as interrupts are enabled.
\<close>

definition thread_yield_higher :: "kernel \<Rightarrow> kernel" where
  "thread_yield_higher s = s\<lparr>msip := True\<rparr>"

text \<open>A context switch will happen before the active thread executes its next instruction.\<close>

definition switch_pending :: "kernel \<Rightarrow> bool" where
  "switch_pending s \<longleftrightarrow> msip s \<or> (in_isr s \<and> sched_context_switch_request s)"

lemma upd_thread_simps [simp]:
  "tcb (upd_thread t f s) = (tcb s)(t := f (tcb s t))"
  "links (upd_thread t f s) = links s"
  "sched_threads (upd_thread t f s) = sched_threads s"
  "sched_num_threads (upd_thread t f s) = sched_num_threads s"
  "sched_active_thread (upd_thread t f s) = sched_active_thread s"
  "sched_active_pid (upd_thread t f s) = sched_active_pid s"
  "runqueue_bitcache (upd_thread t f s) = runqueue_bitcache s"
  "sched_context_switch_request (upd_thread t f s) = sched_context_switch_request s"
  "msgs (upd_thread t f s) = msgs s"
  "mboxes (upd_thread t f s) = mboxes s"
  "rmutexes (upd_thread t f s) = rmutexes s"
  "msip (upd_thread t f s) = msip s"
  "mie (upd_thread t f s) = mie s"
  "in_isr (upd_thread t f s) = in_isr s"
  "thread_flags_module (upd_thread t f s) = thread_flags_module s"
  by (simp_all add: upd_thread_def)

end
