(* ===== verification/Invariant.thy ===== *)
theory Invariant
  imports Kernel
begin

text \<open>
  The invariant of the kernel: what ties the lists in the heap, the bit mask of the run queues,
  the status of every thread and the active thread together; that priorities are respected; and
  the contract every call into the kernel keeps, as a locale the components interpret.
\<close>

section \<open>The lists of the kernel\<close>

text \<open>
  A layout gives for every list head the threads linked to it. \<open>queue_at\<close> says that the links
  in the heap are such a list: circular for a run queue; for a mutex also the mark
  \<open>MUTEX_LOCKED\<close> of a locked mutex nobody waits for.
\<close>

type_synonym layout = "node \<Rightarrow> tid list"

fun queue_at :: "node links \<Rightarrow> node \<Rightarrow> tid list \<Rightarrow> bool" where
  "queue_at h (RunQueue p) ts = clist h (RunQueue p) (map RqEntry ts)"
| "queue_at h (RqEntry t) ts = (ts = [])"
| "queue_at h (MutexQueue m) ts =
     (h (MutexQueue m) = Tagged \<and> ts = [] \<or> slist h (MutexQueue m) (map RqEntry ts))"
| "queue_at h l ts = slist h l (map RqEntry ts)"

fun is_runqueue :: "node \<Rightarrow> bool" where
  "is_runqueue (RunQueue p) = True"
| "is_runqueue _ = False"

lemma not_runqueue [simp]: "\<not> is_runqueue l \<Longrightarrow> l \<noteq> RunQueue p" "\<not> is_runqueue l \<Longrightarrow> RunQueue p \<noteq> l"
  by auto

fun is_entry :: "node \<Rightarrow> bool" where
  "is_entry (RqEntry t) = True"
| "is_entry _ = False"

definition layout_ok :: "node links \<Rightarrow> layout \<Rightarrow> bool" where
  "layout_ok h L \<longleftrightarrow>
     (\<forall>l. queue_at h l (L l)) \<and> (\<forall>l l' t. t \<in> set (L l) \<longrightarrow> t \<in> set (L l') \<longrightarrow> l = l')"

lemma queue_at_cong:
  assumes "\<And>x. x \<in> insert l (RqEntry ` set ts) \<Longrightarrow> h' x = h x" and "queue_at h l ts"
  shows "queue_at h' l ts"
  using assms slist_cong [of l "map RqEntry ts" h' h] clist_cong [of l "map RqEntry ts" h' h]
  by (cases l) auto

lemma queue_at_distinct: "queue_at h l ts \<Longrightarrow> distinct ts"
  by (cases l) (auto simp: slist_def clist_def distinct_map)

lemma queue_at_wait:
  "\<not> is_runqueue l \<Longrightarrow> \<not> is_entry l \<Longrightarrow> h l \<noteq> Tagged \<Longrightarrow>
     queue_at h l ts = slist h l (map RqEntry ts)"
  by (cases l) auto

lemma layout_update:
  assumes "layout_ok h L" and "\<not> is_entry l" and "queue_at h' l ts"
    and "\<And>x. x \<noteq> l \<Longrightarrow> x \<notin> RqEntry ` (set (L l) \<union> set ts) \<Longrightarrow> h' x = h x"
    and "\<And>t l'. t \<in> set ts \<Longrightarrow> l' \<noteq> l \<Longrightarrow> t \<notin> set (L l')"
  shows "layout_ok h' (L(l := ts))"
proof -
  have "queue_at h' l' (L l')" if "l' \<noteq> l" for l'
  proof (cases "is_entry l'")
    case True
    then obtain t where "l' = RqEntry t" by (cases l') auto
    moreover from this have "L l' = []" using assms(1) unfolding layout_ok_def by (metis queue_at.simps(2))
    ultimately show ?thesis by simp
  next
    case False
    have "h' x = h x" if x: "x \<in> insert l' (RqEntry ` set (L l'))" for x
    proof (rule assms(4))
      show "x \<noteq> l" using x \<open>l' \<noteq> l\<close> assms(2) by auto
      show "x \<notin> RqEntry ` (set (L l) \<union> set ts)"
        using x False assms(1,5) \<open>l' \<noteq> l\<close> unfolding layout_ok_def by auto
    qed
    then show ?thesis using assms(1) unfolding layout_ok_def by (metis queue_at_cong)
  qed
  with assms(1,3,5) show ?thesis unfolding layout_ok_def by auto
qed

section \<open>The invariant\<close>

definition live :: "kernel \<Rightarrow> tid \<Rightarrow> bool" where
  "live s t \<longleftrightarrow> (\<exists>p. sched_threads s p = Some t)"

definition threads_ok :: "kernel \<Rightarrow> bool" where
  "threads_ok s \<longleftrightarrow>
     (\<forall>p t. sched_threads s p = Some t \<longrightarrow>
        pid_is_valid p \<and> pid (tcb s t) = p \<and> priority (tcb s t) < SCHED_PRIO_LEVELS)"

definition runq_ok :: "kernel \<Rightarrow> layout \<Rightarrow> bool" where
  "runq_ok s L \<longleftrightarrow>
     (\<forall>p t. t \<in> set (L (RunQueue p)) \<longleftrightarrow>
        live s t \<and> on_runqueue (status (tcb s t)) \<and> priority (tcb s t) = p)"

definition cache_ok :: "kernel \<Rightarrow> layout \<Rightarrow> bool" where
  "cache_ok s L \<longleftrightarrow> (\<forall>p. bit (runqueue_bitcache s) p \<longleftrightarrow> L (RunQueue p) \<noteq> [])"

text \<open>The status of a thread that is linked to a list of waiting threads.\<close>

fun waiting_status :: "node \<Rightarrow> thread_status_t set" where
  "waiting_status (MutexQueue m) = {STATUS_MUTEX_BLOCKED}"
| "waiting_status (MsgWaiters t) = {STATUS_SEND_BLOCKED, STATUS_REPLY_BLOCKED}"
| "waiting_status (CondQueue c) = {STATUS_COND_BLOCKED}"
| "waiting_status (MboxReaders m) = {STATUS_MBOX_BLOCKED}"
| "waiting_status (MboxWriters m) = {STATUS_MBOX_BLOCKED}"
| "waiting_status _ = {}"

definition waiters_ok :: "kernel \<Rightarrow> layout \<Rightarrow> bool" where
  "waiters_ok s L \<longleftrightarrow>
     (\<forall>l. \<not> is_runqueue l \<longrightarrow>
        sorted (map (\<lambda>t. priority (tcb s t)) (L l)) \<and>
        (\<forall>t \<in> set (L l). live s t \<and> status (tcb s t) \<in> waiting_status l))"

text \<open>
  The active thread is the first of its run queue unless it blocked or a switch is pending:
  this is why \<open>sched_set_status\<close> may take the head of the list for the thread itself.
\<close>

definition active_ok :: "kernel \<Rightarrow> layout \<Rightarrow> bool" where
  "active_ok s L \<longleftrightarrow>
     (\<forall>t. sched_active_thread s = Some t \<longrightarrow>
        live s t \<and> sched_active_pid s = pid (tcb s t) \<and>
        (on_runqueue (status (tcb s t)) \<and> \<not> switch_pending s \<longrightarrow>
           hd (L (RunQueue (priority (tcb s t)))) = t))"

text \<open>
  \<open>wait_data\<close> of a blocked thread is what its status says: the mask of the flags it waits for, or
  the message that is to be filled in or sent.
\<close>

fun is_mask :: "wait_data_t \<Rightarrow> bool" where
  "is_mask (FlagMask m) = True"
| "is_mask _ = False"

fun is_msg :: "wait_data_t \<Rightarrow> bool" where
  "is_msg (MsgPtr p) = True"
| "is_msg _ = False"

fun data_fits :: "thread_status_t \<Rightarrow> wait_data_t \<Rightarrow> bool" where
  "data_fits STATUS_FLAG_BLOCKED_ANY d = is_mask d"
| "data_fits STATUS_FLAG_BLOCKED_ALL d = is_mask d"
| "data_fits STATUS_RECEIVE_BLOCKED d = is_msg d"
| "data_fits STATUS_SEND_BLOCKED d = is_msg d"
| "data_fits STATUS_REPLY_BLOCKED d = is_msg d"
| "data_fits _ d = True"

definition data_ok :: "kernel \<Rightarrow> layout \<Rightarrow> bool" where
  "data_ok s L \<longleftrightarrow>
     (\<forall>t. live s t \<longrightarrow> data_fits (status (tcb s t)) (wait_data (tcb s t))) \<and>
     (\<forall>m t. t \<in> set (L (MboxReaders m)) \<longrightarrow> is_msg (wait_data (tcb s t)))"

definition kinv :: "kernel \<Rightarrow> layout \<Rightarrow> bool" where
  "kinv s L \<longleftrightarrow>
     layout_ok (links s) L \<and> threads_ok s \<and> runq_ok s L \<and> cache_ok s L \<and>
     waiters_ok s L \<and> active_ok s L \<and> data_ok s L"

lemmas kinv_defs = kinv_def layout_ok_def threads_ok_def runq_ok_def cache_ok_def
  waiters_ok_def active_ok_def data_ok_def

lemma live_cong: "sched_threads s' = sched_threads s \<Longrightarrow> live s' t = live s t"
  by (simp add: live_def)

lemma live_simps [simp]:
  "live (upd_thread u f s) t = live s t"
  "live (s\<lparr>links := h\<rparr>) t = live s t"
  "live (s\<lparr>runqueue_bitcache := b\<rparr>) t = live s t"
  "live (s\<lparr>sched_context_switch_request := r\<rparr>) t = live s t"
  "live (s\<lparr>sched_active_thread := a\<rparr>) t = live s t"
  "live (s\<lparr>sched_active_pid := i\<rparr>) t = live s t"
  "live (s\<lparr>msip := c\<rparr>) t = live s t"
  "live (s\<lparr>mie := c\<rparr>) t = live s t"
  "live (s\<lparr>msgs := m\<rparr>) t = live s t"
  "live (s\<lparr>mboxes := mb\<rparr>) t = live s t"
  "live (s\<lparr>rmutexes := rm\<rparr>) t = live s t"
  by (simp_all add: live_def)

lemma switch_pending_simps [simp]:
  "switch_pending (upd_thread u f s) = switch_pending s"
  "switch_pending (s\<lparr>links := h\<rparr>) = switch_pending s"
  "switch_pending (s\<lparr>runqueue_bitcache := b\<rparr>) = switch_pending s"
  "switch_pending (s\<lparr>sched_active_thread := a\<rparr>) = switch_pending s"
  "switch_pending (s\<lparr>sched_active_pid := i\<rparr>) = switch_pending s"
  "switch_pending (s\<lparr>mie := c\<rparr>) = switch_pending s"
  "switch_pending (s\<lparr>msgs := m\<rparr>) = switch_pending s"
  "switch_pending (s\<lparr>mboxes := mb\<rparr>) = switch_pending s"
  "switch_pending (s\<lparr>rmutexes := rm\<rparr>) = switch_pending s"
  by (simp_all add: switch_pending_def)

lemma waiting_not_on_runqueue: "st \<in> waiting_status l \<Longrightarrow> \<not> on_runqueue st"
  by (cases l) auto

lemma kinv_priority: "kinv s L \<Longrightarrow> live s t \<Longrightarrow> priority (tcb s t) < SCHED_PRIO_LEVELS"
  by (auto simp: kinv_def threads_ok_def live_def)

lemma kinv_runqueue:
  "kinv s L \<Longrightarrow> clist (links s) (RunQueue p) (map RqEntry (L (RunQueue p)))"
  unfolding kinv_def layout_ok_def by (metis queue_at.simps(1))

lemma kinv_queue_at: "kinv s L \<Longrightarrow> queue_at (links s) l (L l)"
  by (simp add: kinv_def layout_ok_def)

lemma kinv_disjoint: "kinv s L \<Longrightarrow> t \<in> set (L l) \<Longrightarrow> t \<in> set (L l') \<Longrightarrow> l = l'"
  unfolding kinv_def layout_ok_def by blast

lemma kinv_distinct: "kinv s L \<Longrightarrow> distinct (L l)"
  using kinv_queue_at queue_at_distinct by blast

lemma kinv_in_runqueue:
  "kinv s L \<Longrightarrow> t \<in> set (L (RunQueue p)) \<longleftrightarrow>
     live s t \<and> on_runqueue (status (tcb s t)) \<and> priority (tcb s t) = p"
  by (simp add: kinv_def runq_ok_def)

lemma kinv_waiters_ok: "kinv s L \<Longrightarrow> waiters_ok s L"
  by (simp add: kinv_def)

lemma kinv_waiter:
  "kinv s L \<Longrightarrow> t \<in> set (L l) \<Longrightarrow> \<not> is_runqueue l \<Longrightarrow>
     live s t \<and> status (tcb s t) \<in> waiting_status l"
  by (simp add: kinv_def waiters_ok_def)

lemma on_runqueue_data_fits [simp]: "on_runqueue st \<Longrightarrow> data_fits st d"
  by (cases st) auto

lemma kinv_data: "kinv s L \<Longrightarrow> live s t \<Longrightarrow> data_fits (status (tcb s t)) (wait_data (tcb s t))"
  by (simp add: kinv_def data_ok_def)

lemma kinv_reader: "kinv s L \<Longrightarrow> t \<in> set (L (MboxReaders m)) \<Longrightarrow> is_msg (wait_data (tcb s t))"
  unfolding kinv_def data_ok_def by blast

lemma data_ok_change:
  assumes "data_ok s L" and "\<And>m. set (L' (MboxReaders m)) \<subseteq> set (L (MboxReaders m))"
    and "\<And>u. wait_data (tcb s' u) = wait_data (tcb s u)"
    and "\<And>u. live s' u \<Longrightarrow> live s u \<and> status (tcb s' u) = status (tcb s u) \<or>
           data_fits (status (tcb s' u)) (wait_data (tcb s' u))"
  shows "data_ok s' L'"
  using assms unfolding data_ok_def by (metis subsetD)

lemma kinv_data_ok: "kinv s L \<Longrightarrow> data_ok s L"
  by (simp add: kinv_def)

lemma kinv_bitcache: "kinv s L \<Longrightarrow> bit (runqueue_bitcache s) p \<longleftrightarrow> L (RunQueue p) \<noteq> []"
  by (simp add: kinv_def cache_ok_def)

lemma kinv_active:
  assumes "kinv s L" and "sched_active_thread s = Some t"
  shows "live s t" and "sched_active_pid s = pid (tcb s t)"
    and "on_runqueue (status (tcb s t)) \<Longrightarrow> \<not> switch_pending s \<Longrightarrow>
           \<exists>ts. L (RunQueue (priority (tcb s t))) = t # ts"
proof -
  from assms show l: "live s t" and "sched_active_pid s = pid (tcb s t)"
    by (simp_all add: kinv_def active_ok_def)
  assume on: "on_runqueue (status (tcb s t))" and "\<not> switch_pending s"
  with assms have "hd (L (RunQueue (priority (tcb s t)))) = t" by (simp add: kinv_def active_ok_def)
  moreover have "t \<in> set (L (RunQueue (priority (tcb s t))))"
    using kinv_in_runqueue [OF assms(1)] l on by simp
  ultimately show "\<exists>ts. L (RunQueue (priority (tcb s t))) = t # ts"
    by (cases "L (RunQueue (priority (tcb s t)))") auto
qed

lemma kinv_runqueue_empty: "kinv s L \<Longrightarrow> SCHED_PRIO_LEVELS \<le> p \<Longrightarrow> L (RunQueue p) = []"
  using kinv_in_runqueue [of s L _ p] kinv_priority [of s L]
  by (metis list.set_intros(1) neq_Nil_conv not_le)

lemma kinv_no_queue_blocked:
  "kinv s L \<Longrightarrow> \<not> on_runqueue (status (tcb s t)) \<Longrightarrow> t \<notin> set (L (RunQueue p))"
  by (simp add: kinv_in_runqueue)

text \<open>Only a mutex carries the mark \<open>MUTEX_LOCKED\<close>.\<close>

lemma kinv_not_tagged:
  "kinv s L \<Longrightarrow> \<not> is_runqueue l \<Longrightarrow> \<not> is_entry l \<Longrightarrow> (\<And>m. l \<noteq> MutexQueue m) \<Longrightarrow> links s l \<noteq> Tagged"
  using kinv_queue_at [of s L l] by (cases l; cases "L l") (auto simp: slist_def)

lemma kinv_no_waiter:
  assumes "kinv s L" and "L l = []" and "\<not> is_runqueue l" "\<not> is_entry l" "\<And>m. l \<noteq> MutexQueue m"
  shows "links s l = Null"
  using kinv_queue_at [OF assms(1), of l] assms(2-) by (cases l) (auto simp: slist_def)

text \<open>Updates that touch nothing the invariant mentions.\<close>

lemma kinv_cong:
  assumes "kinv s L" and "links s' = links s" and "sched_threads s' = sched_threads s"
    and "runqueue_bitcache s' = runqueue_bitcache s"
    and "sched_active_thread s' = sched_active_thread s" and "sched_active_pid s' = sched_active_pid s"
    and "\<And>t. status (tcb s' t) = status (tcb s t) \<and> priority (tcb s' t) = priority (tcb s t) \<and>
             pid (tcb s' t) = pid (tcb s t) \<and> wait_data (tcb s' t) = wait_data (tcb s t)"
    and "switch_pending s \<Longrightarrow> switch_pending s'"
  shows "kinv s' L"
  using assms unfolding kinv_defs live_def by auto

lemma waiters_ok_change:
  assumes "waiters_ok s L" and "\<And>l. \<not> is_runqueue l \<Longrightarrow> L' l = L l \<or> L' l = []"
    and "\<And>l u. \<not> is_runqueue l \<Longrightarrow> u \<in> set (L l) \<Longrightarrow>
           live s' u \<and> status (tcb s' u) = status (tcb s u) \<and> priority (tcb s' u) = priority (tcb s u)"
  shows "waiters_ok s' L'"
  unfolding waiters_ok_def
proof (intro allI impI)
  fix l
  assume l: "\<not> is_runqueue l"
  then have "map (\<lambda>u. priority (tcb s' u)) (L l) = map (\<lambda>u. priority (tcb s u)) (L l)"
    using assms(3) by simp
  moreover have "sorted (map (\<lambda>u. priority (tcb s u)) (L l))"
    using assms(1) l by (simp add: waiters_ok_def)
  ultimately have "sorted (map (\<lambda>u. priority (tcb s' u)) (L l))" by (simp only:)
  then show "sorted (map (\<lambda>u. priority (tcb s' u)) (L' l)) \<and>
      (\<forall>u \<in> set (L' l). live s' u \<and> status (tcb s' u) \<in> waiting_status l)"
    using assms(1,3) l assms(2) [OF l] by (auto simp: waiters_ok_def)
qed

section \<open>Priorities are respected\<close>

definition runnable :: "kernel \<Rightarrow> tid \<Rightarrow> bool" where
  "runnable s t \<longleftrightarrow> live s t \<and> on_runqueue (status (tcb s t))"

lemma runnable_simps [simp]:
  "runnable (s\<lparr>links := h\<rparr>) t = runnable s t"
  "runnable (s\<lparr>sched_context_switch_request := r\<rparr>) t = runnable s t"
  "runnable (s\<lparr>sched_active_thread := a\<rparr>) t = runnable s t"
  "runnable (s\<lparr>sched_active_pid := i\<rparr>) t = runnable s t"
  "runnable (s\<lparr>msip := c\<rparr>) t = runnable s t"
  "runnable (s\<lparr>mie := c\<rparr>) t = runnable s t"
  by (simp_all add: runnable_def)

lemma kinv_runnable: "kinv s L \<Longrightarrow> runnable s t \<longleftrightarrow> t \<in> set (L (RunQueue (priority (tcb s t))))"
  by (simp add: runnable_def kinv_in_runqueue)

text \<open>
  Unless a switch is pending the active thread can run and no runnable thread is more urgent
  (a smaller number is a higher priority).
\<close>

definition prio_ok :: "kernel \<Rightarrow> bool" where
  "prio_ok s \<longleftrightarrow>
     switch_pending s \<or>
     (\<exists>t. sched_active_thread s = Some t \<and> runnable s t \<and>
          (\<forall>u. runnable s u \<longrightarrow> priority (tcb s t) \<le> priority (tcb s u)))"

text \<open>
  The context of a thread: \<open>t\<close> executes, with interrupts on. The context of an interrupt
  handler: \<open>__in_isr\<close> is set and interrupts are off.
\<close>

definition thread_context :: "kernel \<Rightarrow> tid \<Rightarrow> bool" where
  "thread_context s t \<longleftrightarrow>
     sched_active_thread s = Some t \<and> on_runqueue (status (tcb s t)) \<and>
     \<not> in_isr s \<and> \<not> msip s \<and> mie s"

lemma thread_contextD:
  assumes "thread_context s t"
  shows "sched_active_thread s = Some t" "on_runqueue (status (tcb s t))" "\<not> in_isr s"
    "\<not> msip s" "mie s" "\<not> switch_pending s"
  using assms by (auto simp: thread_context_def switch_pending_def)

lemma kinv_irq [simp]:
  "kinv (s\<lparr>mie := b\<rparr>) L = kinv s L"
  by (rule iffI; erule kinv_cong) (simp_all add: switch_pending_def)

lemma kinv_yield: "kinv s L \<Longrightarrow> kinv (s\<lparr>msip := True\<rparr>) L"
  by (erule kinv_cong) (simp_all add: switch_pending_def)

lemma kinv_request: "kinv s L \<Longrightarrow> kinv (s\<lparr>sched_context_switch_request := True\<rparr>) L"
  by (erule kinv_cong) (simp_all add: switch_pending_def, blast)

text \<open>A thread that is not blocked may change its \<open>wait_data\<close>.\<close>

lemma kinv_upd_wait_data:
  assumes "kinv s L" and "on_runqueue (status (tcb s t))"
    and "\<And>th. status (f th) = status th \<and> priority (f th) = priority th \<and> pid (f th) = pid th"
  shows "kinv (upd_thread t f s) L"
proof -
  have "t \<notin> set (L (MboxReaders m))" for m
    using kinv_waiter [OF assms(1), of t "MboxReaders m"] assms(2) by auto
  then have "data_ok (upd_thread t f s) L"
    using kinv_data_ok [OF assms(1)] assms(2,3) by (auto simp: data_ok_def)
  moreover have [simp]: "priority (tcb (upd_thread t f s) u) = priority (tcb s u)"
    "status (tcb (upd_thread t f s) u) = status (tcb s u)" "pid (tcb (upd_thread t f s) u) = pid (tcb s u)" for u
    using assms(3) by simp_all
  ultimately show ?thesis
    using assms(1) unfolding kinv_def threads_ok_def runq_ok_def cache_ok_def waiters_ok_def active_ok_def
    by (simp del: upd_thread_simps(1))
qed

lemma kinv_upd_other:
  "kinv s L \<Longrightarrow> (\<And>th. status (f th) = status th \<and> priority (f th) = priority th \<and> pid (f th) = pid th \<and>
      wait_data (f th) = wait_data th) \<Longrightarrow>
     kinv (upd_thread t f s) L"
  by (erule kinv_cong) simp_all

lemma irq_restore_eq [simp]: "irq_restore b s = s\<lparr>mie := b\<rparr>"
  by (cases b) (simp_all add: irq_restore_def)

lemma prio_ok_irq [simp]: "prio_ok (s\<lparr>mie := b\<rparr>) = prio_ok s"
  by (simp add: prio_ok_def switch_pending_def)

lemma prio_ok_cong:
  assumes "prio_ok s" and "switch_pending s \<Longrightarrow> switch_pending s'"
    and "sched_active_thread s' = sched_active_thread s"
    and "\<And>u. runnable s' u = runnable s u"
    and "\<And>u. runnable s u \<Longrightarrow> priority (tcb s' u) = priority (tcb s u)"
  shows "prio_ok s'"
  using assms unfolding prio_ok_def by metis

lemma prio_ok_blocked:
  "prio_ok s \<Longrightarrow> \<not> on_runqueue (status (tcb s t)) \<Longrightarrow> sched_active_thread s \<noteq> Some t \<or> switch_pending s"
  by (auto simp: prio_ok_def runnable_def)

lemma prio_ok_pending: "switch_pending s \<Longrightarrow> prio_ok s"
  by (simp add: prio_ok_def)

definition only_requests :: "kernel \<Rightarrow> kernel \<Rightarrow> bool" where
  "only_requests s s' \<longleftrightarrow>
     s' = s \<or> s' = s\<lparr>sched_context_switch_request := True\<rparr> \<and> in_isr s \<or> s' = s\<lparr>msip := True\<rparr>"

lemma only_requests_kinv: "only_requests s s' \<Longrightarrow> kinv s L \<Longrightarrow> kinv s' L"
  by (auto simp: only_requests_def kinv_yield kinv_request)

text \<open>
  In the middle of an operation the threads \<open>W\<close> it made runnable may be more urgent than the
  active thread. \<open>sched_switch\<close> with a priority at least as urgent as theirs repairs that.
\<close>

definition prio_ok_but :: "kernel \<Rightarrow> tid set \<Rightarrow> bool" where
  "prio_ok_but s W \<longleftrightarrow>
     switch_pending s \<or>
     (\<exists>t. sched_active_thread s = Some t \<and>
          (\<forall>u. runnable s u \<longrightarrow> u \<notin> W \<longrightarrow> priority (tcb s t) \<le> priority (tcb s u)))"

lemma prio_ok_but_empty: "prio_ok s \<Longrightarrow> prio_ok_but s {}"
  by (auto simp: prio_ok_def prio_ok_but_def)

lemma prio_ok_but_simps [simp]:
  "prio_ok_but (s\<lparr>links := h\<rparr>) W = prio_ok_but s W"
  "prio_ok_but (s\<lparr>mie := b\<rparr>) W = prio_ok_but s W"
  by (simp_all add: prio_ok_but_def)

lemma prio_ok_but_wake:
  assumes "prio_ok_but s W" and "\<And>u. u \<noteq> t \<Longrightarrow> tcb s' u = tcb s u"
    and "priority (tcb s' t) = priority (tcb s t)"
    and "sched_threads s' = sched_threads s" and "sched_active_thread s' = sched_active_thread s"
    and "switch_pending s' = switch_pending s"
  shows "prio_ok_but s' (insert t W)"
proof -
  have "runnable s' u = runnable s u" if "u \<noteq> t" for u
    using that assms(2,4) by (simp add: runnable_def live_def)
  moreover have "priority (tcb s' u) = priority (tcb s u)" for u using assms(2,3) by metis
  ultimately show ?thesis using assms(1,5,6) by (auto simp: prio_ok_but_def)
qed

section \<open>The contract of a call into the kernel\<close>

text \<open>
  The counters of every message queue and mailbox are those of a ring with at most as many
  messages as slots; a thread without an array has a queue of size 0.
\<close>

definition thread_queue_ok :: "thread_t \<Rightarrow> bool" where
  "thread_queue_ok th \<longleftrightarrow> cib_inv (msg_queue th) \<and> (msg_array th = None \<longrightarrow> cib_size (msg_queue th) = 0)"

definition queues_ok :: "kernel \<Rightarrow> bool" where
  "queues_ok s \<longleftrightarrow>
     (\<forall>t. live s t \<longrightarrow> thread_queue_ok (tcb s t)) \<and> (\<forall>m. cib_inv (mbox_cib (mboxes s m)))"

text \<open>
  What every call keeps: the context it was called in, the active thread, the message queues,
  that no thread stops existing, and that none stops being runnable but a thread that makes the call
  itself.
\<close>

definition call_frame :: "kernel \<Rightarrow> kernel \<Rightarrow> bool" where
  "call_frame s s' \<longleftrightarrow>
     in_isr s' = in_isr s \<and> mie s' = mie s \<and> sched_active_thread s' = sched_active_thread s \<and>
     (\<forall>u. runnable s u \<longrightarrow> sched_active_thread s \<noteq> Some u \<or> in_isr s \<longrightarrow> runnable s' u) \<and>
     (\<forall>u. live s u \<longrightarrow> live s' u) \<and> (queues_ok s \<longrightarrow> queues_ok s')"

lemma call_frame_refl [simp]: "call_frame s s"
  by (simp add: call_frame_def)

text \<open>Most calls do not touch a queue at all.\<close>

definition same_queues :: "kernel \<Rightarrow> kernel \<Rightarrow> bool" where [simp]:
  "same_queues s s' \<longleftrightarrow>
     (\<forall>u. msg_queue (tcb s' u) = msg_queue (tcb s u) \<and> msg_array (tcb s' u) = msg_array (tcb s u)) \<and>
     mboxes s' = mboxes s"

lemma queues_ok_simps [simp]:
  "queues_ok (s\<lparr>links := h\<rparr>) = queues_ok s"
  "queues_ok (s\<lparr>runqueue_bitcache := b\<rparr>) = queues_ok s"
  "queues_ok (s\<lparr>sched_context_switch_request := r\<rparr>) = queues_ok s"
  "queues_ok (s\<lparr>sched_active_thread := a\<rparr>) = queues_ok s"
  "queues_ok (s\<lparr>sched_active_pid := i\<rparr>) = queues_ok s"
  "queues_ok (s\<lparr>msip := c\<rparr>) = queues_ok s"
  "queues_ok (s\<lparr>mie := c\<rparr>) = queues_ok s"
  "queues_ok (s\<lparr>msgs := m\<rparr>) = queues_ok s"
  "queues_ok (s\<lparr>rmutexes := rm\<rparr>) = queues_ok s"
  by (simp_all add: queues_ok_def)

lemma queues_ok_upd [simp]:
  "(\<And>th. msg_queue (f th) = msg_queue th \<and> msg_array (f th) = msg_array th) \<Longrightarrow>
     queues_ok (upd_thread t f s) = queues_ok s"
  unfolding queues_ok_def thread_queue_ok_def by (auto split: if_splits)

lemma queues_ok_cong:
  "queues_ok s \<Longrightarrow> same_queues s s' \<Longrightarrow> (\<And>u. live s' u \<Longrightarrow> live s u) \<Longrightarrow> queues_ok s'"
  by (simp add: queues_ok_def thread_queue_ok_def same_queues_def)

lemma call_frameI_queues:
  assumes "in_isr s' = in_isr s" and "mie s' = mie s" and "sched_active_thread s' = sched_active_thread s"
    and "\<And>p. sched_threads s' p = sched_threads s p"
    and "\<And>u. sched_active_thread s \<noteq> Some u \<or> in_isr s \<Longrightarrow> on_runqueue (status (tcb s u)) \<Longrightarrow>
           on_runqueue (status (tcb s' u))"
    and "queues_ok s \<Longrightarrow> queues_ok s'"
  shows "call_frame s s'"
  using assms by (auto simp: call_frame_def runnable_def live_def)

lemma call_frameI:
  assumes "in_isr s' = in_isr s" and "mie s' = mie s" and "sched_active_thread s' = sched_active_thread s"
    and "\<And>p. sched_threads s' p = sched_threads s p"
    and "\<And>u. sched_active_thread s \<noteq> Some u \<or> in_isr s \<Longrightarrow> on_runqueue (status (tcb s u)) \<Longrightarrow>
           on_runqueue (status (tcb s' u))"
    and "same_queues s s'"
  shows "call_frame s s'"
proof (rule call_frameI_queues [OF assms(1-5)])
  assume "queues_ok s"
  then show "queues_ok s'" by (rule queues_ok_cong) (use assms(4,6) in \<open>auto simp: live_def\<close>)
qed

definition noval :: "fault + kernel \<Rightarrow> fault + (kernel \<times> unit)" where
  "noval m = bindE m (\<lambda>s. Inr (s, ()))"

lemma noval_Inr [simp]: "noval (Inr s) = Inr (s, ())"
  by (simp add: noval_def)

locale kernel_call =
  fixes ctx :: "kernel \<Rightarrow> layout \<Rightarrow> bool"
    and call :: "kernel \<Rightarrow> fault + (kernel \<times> 'a)"
  assumes safe: "kinv s L \<Longrightarrow> prio_ok s \<Longrightarrow> ctx s L \<Longrightarrow>
    \<exists>s' r L'. call s = Inr (s', r) \<and> kinv s' L' \<and> prio_ok s' \<and> call_frame s s'"
begin

lemma no_fault: "kinv s L \<Longrightarrow> prio_ok s \<Longrightarrow> ctx s L \<Longrightarrow> call s \<noteq> Inl e"
  using safe [of s L] by auto

lemma keeps:
  assumes "kinv s L" and "prio_ok s" and "ctx s L" and "call s = Inr (s', r)"
  shows "\<exists>L'. kinv s' L'" and "prio_ok s'" and "call_frame s s'"
  using safe [OF assms(1-3)] assms(4) by auto

end

end
