(* ===== verification/Demo.thy ===== *)
theory Demo
  imports Invariant
begin

text \<open>
  A concrete state of the kernel in which every kind of waiting occurs. The theorems about the
  operations are applied to it to show that their hypotheses can be met.

  Thread 200 (priority 7) runs, 100 is the idle thread, 900 sleeps; 300 waits for the mutex 1,
  400 for the condition variable 1, 500 to read the mailbox 1, 600 to write the mailbox 2,
  700 to send to thread 200; 800 waits for a message, 1000 for one of the thread flags 0 and 15, and 1100 for
  a reply. The mutex 2 is locked, mutex 3 free. Thread 200 has a message queue with room for four
  messages and one in it, thread 1000 an empty one with room for two.
\<close>

fun demo_status :: "tid \<Rightarrow> thread_status_t" where
  "demo_status t =
     (if t = 200 then STATUS_RUNNING else if t = 100 then STATUS_PENDING
      else if t = 300 then STATUS_MUTEX_BLOCKED else if t = 400 then STATUS_COND_BLOCKED
      else if t = 500 \<or> t = 600 then STATUS_MBOX_BLOCKED else if t = 700 then STATUS_SEND_BLOCKED
      else if t = 800 then STATUS_RECEIVE_BLOCKED else if t = 900 then STATUS_SLEEPING
      else if t = 1000 then STATUS_FLAG_BLOCKED_ANY else if t = 1100 then STATUS_REPLY_BLOCKED
      else STATUS_STOPPED)"

definition demo_thread :: "tid \<Rightarrow> thread_t" where
  "demo_thread t =
     \<lparr>status = demo_status t, priority = (if t = 200 then 7 else if t = 100 then 15 else if t = 600 then 9 else 5),
      pid = t div 100, flags = 0,
      wait_data = (if t = 1000 then FlagMask 0x8001 else MsgPtr (t, 0)),
      msg_queue = (if t = 200 then \<lparr>read_count = 0, write_count = 1, cib_mask = 3\<rparr>
                   else if t = 1000 then CIB_INIT 2 else CIB_INIT 0),
      msg_array = (if t = 200 then Some 2 else if t = 1000 then Some 3 else None)\<rparr>"

fun demo_links :: "node links" where
  "demo_links (RunQueue p) = (if p = 7 then Ptr (RqEntry 200) else if p = 15 then Ptr (RqEntry 100) else Null)"
| "demo_links (RqEntry t) = (if t = 200 then Ptr (RqEntry 200) else if t = 100 then Ptr (RqEntry 100) else Null)"
| "demo_links (MutexQueue m) = (if m = 1 then Ptr (RqEntry 300) else if m = 2 then Tagged else Null)"
| "demo_links (CondQueue c) = (if c = 1 then Ptr (RqEntry 400) else Null)"
| "demo_links (MboxReaders m) = (if m = 1 then Ptr (RqEntry 500) else Null)"
| "demo_links (MboxWriters m) = (if m = 2 then Ptr (RqEntry 600) else Null)"
| "demo_links (MsgWaiters t) = (if t = 200 then Ptr (RqEntry 700) else Null)"

fun demo_layout :: layout where
  "demo_layout (RunQueue p) = (if p = 7 then [200] else if p = 15 then [100] else [])"
| "demo_layout (RqEntry t) = []"
| "demo_layout (MutexQueue m) = (if m = 1 then [300] else [])"
| "demo_layout (CondQueue c) = (if c = 1 then [400] else [])"
| "demo_layout (MboxReaders m) = (if m = 1 then [500] else [])"
| "demo_layout (MboxWriters m) = (if m = 2 then [600] else [])"
| "demo_layout (MsgWaiters t) = (if t = 200 then [700] else [])"

definition demo_threads :: "int \<Rightarrow> tid option" where
  "demo_threads p = (if 1 \<le> p \<and> p \<le> 11 then Some (100 * p) else None)"

text \<open>Mailbox 1 is empty, mailbox 2 is full; both have room for two messages.\<close>

definition demo :: kernel where
  "demo =
     \<lparr>links = demo_links, tcb = demo_thread, sched_threads = demo_threads, sched_num_threads = 11,
      sched_active_thread = Some 200, sched_active_pid = 2, runqueue_bitcache = 0x8080,
      sched_context_switch_request = False,
      msgs = (\<lambda>(a, i). \<lparr>sender_pid = 0, msg_type = of_int a, content = of_int i\<rparr>),
      mboxes = (\<lambda>m. \<lparr>mbox_cib = (if m = 2 then \<lparr>read_count = 0, write_count = 2, cib_mask = 1\<rparr> else CIB_INIT 2),
                     mbox_array = 10 * m\<rparr>),
      rmutexes = (\<lambda>m. \<lparr>refcount = 0, owner = 0\<rparr>),
      msip = False, mie = True, in_isr = False, thread_flags_module = True\<rparr>"

lemma demo_simps [simp]:
  "links demo = demo_links" "tcb demo = demo_thread" "sched_threads demo = demo_threads"
  "sched_active_thread demo = Some 200" "sched_active_pid demo = 2" "sched_num_threads demo = 11"
  "runqueue_bitcache demo = 0x8080" "sched_context_switch_request demo = False"
  "msip demo = False" "mie demo = True" "in_isr demo = False" "thread_flags_module demo = True"
  "switch_pending demo = False"
  by (simp_all add: demo_def switch_pending_def)

lemma demo_thread_simps [simp]:
  "status (demo_thread t) = demo_status t" "pid (demo_thread t) = t div 100"
  "priority (demo_thread t) = (if t = 200 then 7 else if t = 100 then 15 else if t = 600 then 9 else 5)"
  "flags (demo_thread t) = 0"
  by (simp_all add: demo_thread_def)

lemma demo_live: "live demo t \<longleftrightarrow> t \<in> {100, 200, 300, 400, 500, 600, 700, 800, 900, 1000, 1100}"
proof -
  have "live demo t \<longleftrightarrow> (\<exists>p \<in> {1..11}. t = 100 * p)" by (auto simp: live_def demo_threads_def)
  also have "{1..11} = {1, 2, 3, 4, 5, 6, 7, 8, 9, 10, 11::int}" by (auto; presburger)
  finally show ?thesis by auto
qed

lemma demo_bitcache: "bit (0x8080 :: u32) p \<longleftrightarrow> p = 7 \<or> p = 15"
proof (cases "p < 32")
  case True
  then have "p \<in> set [0..<32]" by simp
  then show ?thesis by (simp add: upt_rec bit_numeral_rec) auto
next
  case False
  then show ?thesis using bit_imp_le_length [of "0x8080 :: u32" p] by auto
qed

lemma demo_layout_ok: "layout_ok demo_links demo_layout"
proof -
  have "queue_at demo_links l (demo_layout l)" for l
    by (cases l) (auto simp: slist_def clist_def)
  moreover have "l = l'" if "t \<in> set (demo_layout l)" "t \<in> set (demo_layout l')" for l l' t
    using that by (cases l; cases l') (auto split: if_splits)
  ultimately show ?thesis by (simp add: layout_ok_def)
qed

lemma demo_kinv: "kinv demo demo_layout"
  unfolding kinv_def
proof (intro conjI)
  show "layout_ok (links demo) demo_layout" using demo_layout_ok by simp
  show "threads_ok demo"
    by (auto simp: threads_ok_def demo_threads_def pid_is_valid_def kernel_consts split: if_splits)
  show "runq_ok demo demo_layout" by (auto simp: runq_ok_def demo_live)
  show "cache_ok demo demo_layout" by (simp only: cache_ok_def demo_simps demo_bitcache) simp
  show "waiters_ok demo demo_layout"
    unfolding waiters_ok_def
  proof (intro allI impI)
    fix l
    assume "\<not> is_runqueue l"
    then show "sorted (map (\<lambda>t. priority (tcb demo t)) (demo_layout l)) \<and>
        (\<forall>t \<in> set (demo_layout l). live demo t \<and> status (tcb demo t) \<in> waiting_status l)"
      by (cases l) (simp_all add: demo_live)
  qed
  show "active_ok demo demo_layout" by (simp add: active_ok_def demo_live)
  show "data_ok demo demo_layout" by (auto simp: data_ok_def demo_live demo_thread_def)
qed

lemma demo_runnable: "runnable demo t \<longleftrightarrow> t = 100 \<or> t = 200"
  by (auto simp: runnable_def demo_live)

lemma demo_prio_ok: "prio_ok demo"
  by (simp add: prio_ok_def demo_runnable)

lemma demo_context: "thread_context demo 200"
  by (simp add: thread_context_def)

lemma demo_cib: "cib_inv \<lparr>read_count = 0, write_count = n, cib_mask = m\<rparr>"
  if "m = mask k" "k \<le> 30" "unat n \<le> 2 ^ k"
  using that by (auto simp: cib_inv_def cib_size_def cib_avail_def unat_mask_Suc)

lemma demo_queues_ok: "queues_ok demo"
proof -
  have m: "(3 :: u32) = mask 2" "(1 :: u32) = mask 1" by (simp_all add: mask_eq_decr_exp)
  have c: "cib_inv \<lparr>read_count = 0, write_count = 1, cib_mask = 3\<rparr>" "cib_inv \<lparr>read_count = 0, write_count = 0, cib_mask = 1\<rparr>"
    "cib_inv \<lparr>read_count = 0, write_count = 2, cib_mask = 1\<rparr>" "cib_inv (CIB_INIT 0)" "cib_size (CIB_INIT 0) = 0"
    by (rule demo_cib [OF m(1)] demo_cib [OF m(2)]; simp)+
      (simp_all add: cib_inv_def cib_size_def CIB_INIT_def cib_avail_def)
  then have "thread_queue_ok (demo_thread t)" for t
    by (auto simp: thread_queue_ok_def demo_thread_def CIB_INIT_def)
  moreover have "cib_inv (mbox_cib (mboxes demo m))" for m
    using c by (simp add: demo_def CIB_INIT_def)
  ultimately show ?thesis by (simp add: queues_ok_def)
qed

end
