(* ===== verification/Sched.thy ===== *)
theory Sched
  imports Demo Bitarithm
begin

text \<open>
  The scheduler (\<open>core/sched.c\<close>): one circular list of runnable threads per priority and a bit
  mask of the priorities whose list is not empty. The second half of the theory shows how each
  elementary step changes the lists and keeps the invariant, which thread is chosen next, and
  that every wake-up respects the priorities.
\<close>

section \<open>The operations\<close>

text \<open>
  Outside the optional modules (statistics, stack checks, the memory protection unit), which only
  observe the switch. \<open>Inr (s, True)\<close> is the return value 1, a switch.
\<close>

definition sched_run :: "kernel \<Rightarrow> fault + (kernel \<times> bool)" where
  "sched_run s =
     (let s0 = s\<lparr>sched_context_switch_request := False\<rparr> in
      bindE (bitarithm_lsb (runqueue_bitcache s0)) (\<lambda>nextrq.
      if SCHED_PRIO_LEVELS \<le> unat nextrq then Inl OutOfBounds else
      bindE (the_node (links s0 (RunQueue (unat nextrq)))) (\<lambda>lst.
      bindE (thread_of (links s0 lst)) (\<lambda>next_thread.
        if sched_active_thread s0 = Some next_thread then Inr (s0, False)
        else
          let s1 = (case sched_active_thread s0 of
                      Some a \<Rightarrow>
                        if status (tcb s0 a) = STATUS_RUNNING
                        then upd_thread a (status_update (\<lambda>_. STATUS_PENDING)) s0 else s0
                    | None \<Rightarrow> s0);
              s2 = upd_thread next_thread (status_update (\<lambda>_. STATUS_RUNNING)) s1
          in Inr (s2\<lparr>sched_active_pid := pid (tcb s2 next_thread),
                     sched_active_thread := Some next_thread\<rparr>, True)))))"

definition sched_set_status :: "kernel \<Rightarrow> tid \<Rightarrow> thread_status_t \<Rightarrow> fault + kernel" where
  "sched_set_status s t st =
     (let prio = priority (tcb s t); was_on = on_runqueue (status (tcb s t)) in
      bindE
        (if on_runqueue st \<noteq> was_on \<and> SCHED_PRIO_LEVELS \<le> prio then Inl OutOfBounds
         else if on_runqueue st then
           (if \<not> was_on then
              bindE (clist_rpush (links s) (RunQueue prio) (RqEntry t)) (\<lambda>h.
                Inr (s\<lparr>links := h,
                       runqueue_bitcache := runqueue_bitcache s OR push_bit prio 1\<rparr>))
            else Inr s)
         else
           (if was_on then
              bindE (clist_lpop (links s) (RunQueue prio)) (\<lambda>(h, _).
                Inr (s\<lparr>links := h,
                       runqueue_bitcache :=
                         (if h (RunQueue prio) = Null
                          then runqueue_bitcache s AND NOT (push_bit prio 1)
                          else runqueue_bitcache s)\<rparr>))
            else Inr s))
        (\<lambda>s. Inr (upd_thread t (status_update (\<lambda>_. st)) s)))"

definition sched_switch :: "kernel \<Rightarrow> nat \<Rightarrow> fault + kernel" where
  "sched_switch s other_prio =
     bindE (active_thread s) (\<lambda>t.
       let current_prio = priority (tcb s t); on_rq = on_runqueue (status (tcb s t)) in
       if \<not> on_rq \<or> current_prio > other_prio then
         (if irq_is_in s then Inr (s\<lparr>sched_context_switch_request := True\<rparr>)
          else Inr (thread_yield_higher s))
       else Inr s)"

text \<open>\<open>thread_yield\<close> of \<open>core/thread.c\<close>, which \<open>cpu_switch_context_exit\<close> calls.\<close>

definition thread_yield :: "kernel \<Rightarrow> fault + kernel" where
  "thread_yield s =
     (let (s, old_state) = irq_disable s in
      bindE (case sched_active_thread s of
               None \<Rightarrow> Inr s
             | Some me \<Rightarrow>
                 if on_runqueue (status (tcb s me)) then
                   (if SCHED_PRIO_LEVELS \<le> priority (tcb s me) then Inl OutOfBounds
                    else bindE (clist_lpoprpush (links s) (RunQueue (priority (tcb s me))))
                           (\<lambda>h. Inr (s\<lparr>links := h\<rparr>)))
                 else Inr s)
        (\<lambda>s. Inr (thread_yield_higher (irq_restore old_state s))))"

definition cpu_switch_context_exit :: "kernel \<Rightarrow> fault + kernel" where
  "cpu_switch_context_exit s = (let (s, _) = irq_enable s in thread_yield s)"

definition sched_task_exit :: "kernel \<Rightarrow> fault + kernel" where
  "sched_task_exit s =
     (let (s, _) = irq_disable s in
      if \<not> (0 \<le> sched_active_pid s \<and> sched_active_pid s \<le> KERNEL_PID_LAST) then Inl OutOfBounds
      else
        let s1 = s\<lparr>sched_threads := (sched_threads s)(sched_active_pid s := None),
                   sched_num_threads := sched_num_threads s - 1\<rparr> in
        bindE (active_thread s1) (\<lambda>t.
        bindE (sched_set_status s1 t STATUS_STOPPED) (\<lambda>s2.
          cpu_switch_context_exit (s2\<lparr>sched_active_thread := None\<rparr>))))"

section \<open>Elementary steps\<close>

definition set_status :: "thread_status_t \<Rightarrow> thread_t \<Rightarrow> thread_t" where
  "set_status st th = th\<lparr>status := st\<rparr>"

lemma set_status_simps [simp]:
  "status (set_status st th) = st" "priority (set_status st th) = priority th"
  "pid (set_status st th) = pid th" "flags (set_status st th) = flags th"
  "wait_data (set_status st th) = wait_data th" "msg_queue (set_status st th) = msg_queue th"
  "msg_array (set_status st th) = msg_array th"
  by (simp_all add: set_status_def)

lemma bit_insert: "p < 32 \<Longrightarrow> bit (b OR 2 ^ p :: u32) q \<longleftrightarrow> bit b q \<or> q = p"
  by (auto simp: bit_or_iff bit_exp_iff)

lemma bit_delete: "bit (b AND NOT (2 ^ p) :: u32) q \<longleftrightarrow> bit b q \<and> q \<noteq> p"
  using bit_imp_le_length [of b q]
  by (auto simp: bit_and_iff bit_not_iff bit_exp_iff)

text \<open>A blocked thread becomes runnable: it joins the end of the run queue of its priority.\<close>

lemma sched_set_status_wake:
  assumes inv: "kinv s L" and live: "live s t"
    and off: "\<not> on_runqueue (status (tcb s t))" and on: "on_runqueue st"
    and free: "\<And>l. t \<notin> set (L l)"
    and act: "sched_active_thread s \<noteq> Some t \<or> switch_pending s"
  defines "p \<equiv> priority (tcb s t)"
  obtains s' h b where "sched_set_status s t st = Inr s'"
    and "s' = upd_thread t (set_status st) (s\<lparr>links := h, runqueue_bitcache := b\<rparr>)"
    and "kinv s' (L(RunQueue p := L (RunQueue p) @ [t]))"
    and "\<And>l. \<not> is_runqueue l \<Longrightarrow> \<not> is_entry l \<Longrightarrow> h l = links s l"
proof -
  have p: "p < SCHED_PRIO_LEVELS" using kinv_priority [OF inv live] by (simp add: p_def)
  then have p32: "p < 32" by (simp add: kernel_consts)
  obtain h where h: "clist_rpush (links s) (RunQueue p) (RqEntry t) = Inr h"
      "clist h (RunQueue p) (map RqEntry (L (RunQueue p)) @ [RqEntry t])"
      "\<And>m. m \<notin> insert (RunQueue p) (insert (RqEntry t) (set (map RqEntry (L (RunQueue p))))) \<Longrightarrow> h m = links s m"
    using clist_rpush [OF kinv_runqueue [OF inv, of p], of "RqEntry t"] free by auto
  let ?b = "runqueue_bitcache s OR push_bit p 1"
  let ?s = "upd_thread t (set_status st) (s\<lparr>links := h, runqueue_bitcache := ?b\<rparr>)"
  let ?L = "L(RunQueue p := L (RunQueue p) @ [t])"
  have "sched_set_status s t st = Inr ?s"
    using off on h(1) p unfolding sched_set_status_def p_def [symmetric]
    by (simp add: Let_def set_status_def [abs_def])
  moreover have "kinv ?s ?L"
    unfolding kinv_def
  proof (intro conjI)
    show "layout_ok (links ?s) ?L"
    proof (rule layout_update [where h = "links s"])
      show "layout_ok (links s) L" using inv by (simp add: kinv_def)
      show "queue_at (links ?s) (RunQueue p) (L (RunQueue p) @ [t])" using h by simp
      show "u \<notin> set (L l')" if "u \<in> set (L (RunQueue p) @ [t])" "l' \<noteq> RunQueue p" for u l'
        using kinv_disjoint [OF inv, of u l' "RunQueue p"] that free by auto
    qed (use h in auto)
    show "threads_ok ?s" using inv by (auto simp: kinv_def threads_ok_def)
    show "runq_ok ?s ?L"
      using kinv_in_runqueue [OF inv] live off on unfolding runq_ok_def live_def p_def by auto
    show "cache_ok ?s ?L"
      by (simp add: cache_ok_def bit_insert [OF p32] kinv_bitcache [OF inv])
    show "waiters_ok ?s ?L"
      by (rule waiters_ok_change [OF kinv_waiters_ok [OF inv]]) (use free kinv_waiter [OF inv] in auto)
    show "active_ok ?s ?L"
      unfolding active_ok_def
    proof (intro allI impI conjI)
      fix a
      assume a: "sched_active_thread ?s = Some a"
      then have a': "sched_active_thread s = Some a" by simp
      show "live ?s a" using kinv_active(1) [OF inv a'] by (simp add: live_def)
      show "sched_active_pid ?s = pid (tcb ?s a)" using kinv_active(2) [OF inv a'] by simp
      assume "on_runqueue (status (tcb ?s a)) \<and> \<not> switch_pending ?s"
      then have np: "\<not> switch_pending s" and "a \<noteq> t" and "on_runqueue (status (tcb s a))"
        using act a' by (auto simp: switch_pending_def split: if_splits)
      with kinv_active(3) [OF inv a'] \<open>a \<noteq> t\<close>
      show "hd (?L (RunQueue (priority (tcb ?s a)))) = a" by (auto simp: hd_append)
    qed
    show "data_ok ?s ?L" by (rule data_ok_change [OF kinv_data_ok [OF inv]]) (use on in auto)
  qed
  moreover have "h l = links s l" if "\<not> is_runqueue l" "\<not> is_entry l" for l
    using h(3) [of l] that by (cases l) auto
  ultimately show thesis by (intro that [of ?s ?b h]) auto
qed

text \<open>The active thread blocks: it is the head of its run queue and leaves it.\<close>

lemma sched_set_status_block:
  assumes inv: "kinv s L" and active: "sched_active_thread s = Some t"
    and on: "on_runqueue (status (tcb s t))" and off: "\<not> on_runqueue st"
    and fits: "data_fits st (wait_data (tcb s t))"
    and head: "L (RunQueue (priority (tcb s t))) = t # ts"
  defines "p \<equiv> priority (tcb s t)"
  obtains s' h b where "sched_set_status s t st = Inr s'"
    and "s' = upd_thread t (set_status st) (s\<lparr>links := h, runqueue_bitcache := b\<rparr>)"
    and "kinv s' (L(RunQueue p := ts))" and "\<And>l. t \<notin> set ((L(RunQueue p := ts)) l)"
    and "\<And>l. \<not> is_runqueue l \<Longrightarrow> \<not> is_entry l \<Longrightarrow> h l = links s l"
proof -
  have live: "live s t" using kinv_active(1) [OF inv active] .
  have ts: "L (RunQueue p) = t # ts" using head by (simp add: p_def)
  have p: "p < SCHED_PRIO_LEVELS" using kinv_priority [OF inv live] by (simp add: p_def)
  have tts: "t \<notin> set ts" using kinv_distinct [OF inv, of "RunQueue p"] ts by simp
  have other: "t \<notin> set (L l)" if "l \<noteq> RunQueue p" for l
    using kinv_disjoint [OF inv, of t l "RunQueue p"] that ts by auto
  then have otherw: "t \<notin> set (L l)" if "\<not> is_runqueue l" for l
    using that by (metis is_runqueue.simps(1))
  have "clist (links s) (RunQueue p) (RqEntry t # map RqEntry ts)"
    using kinv_runqueue [OF inv, of p] ts by simp
  then obtain h where h: "clist_lpop (links s) (RunQueue p) = Inr (h, Ptr (RqEntry t))"
      "clist h (RunQueue p) (map RqEntry ts)"
      "\<And>m. m \<notin> insert (RunQueue p) (set (map RqEntry ts)) \<Longrightarrow> h m = links s m"
    by (rule clist_lpop_Cons) blast
  let ?b = "if h (RunQueue p) = Null then runqueue_bitcache s AND NOT (push_bit p 1) else runqueue_bitcache s"
  let ?s = "upd_thread t (set_status st) (s\<lparr>links := h, runqueue_bitcache := ?b\<rparr>)"
  let ?L = "L(RunQueue p := ts)"
  have "sched_set_status s t st = Inr ?s"
    using off on h(1) p unfolding sched_set_status_def p_def [symmetric]
    by (simp add: Let_def set_status_def [abs_def])
  moreover have "kinv ?s ?L"
    unfolding kinv_def
  proof (intro conjI)
    show "layout_ok (links ?s) ?L"
    proof (rule layout_update [where h = "links s"])
      show "layout_ok (links s) L" using inv by (simp add: kinv_def)
      show "queue_at (links ?s) (RunQueue p) ts" using h by simp
      show "u \<notin> set (L l')" if "u \<in> set ts" "l' \<noteq> RunQueue p" for u l'
        using kinv_disjoint [OF inv, of u l' "RunQueue p"] that ts by auto
    qed (use h in auto)
    show "threads_ok ?s" using inv by (auto simp: kinv_def threads_ok_def)
    show "runq_ok ?s ?L"
      using kinv_in_runqueue [OF inv] live off tts ts unfolding runq_ok_def live_def p_def
      by (auto split: if_splits) (metis list.set_intros(2) set_ConsD)+
    show "cache_ok ?s ?L"
      using clist_not_Nil [OF h(2)] ts by (simp add: cache_ok_def bit_delete kinv_bitcache [OF inv])
    show "waiters_ok ?s ?L"
      by (rule waiters_ok_change [OF kinv_waiters_ok [OF inv]]) (use otherw kinv_waiter [OF inv] in auto)
    show "active_ok ?s ?L"
      using kinv_active(1,2) [OF inv active] active off unfolding active_ok_def live_def by simp
    show "data_ok ?s ?L" by (rule data_ok_change [OF kinv_data_ok [OF inv]]) (use fits in auto)
  qed
  moreover have "h l = links s l" if "\<not> is_runqueue l" "\<not> is_entry l" for l
    using h(3) [of l] that by (cases l) auto
  ultimately show thesis using tts other by (intro that [of ?s ?b h]) auto
qed

text \<open>A status change that neither adds the thread to a run queue nor removes it.\<close>

lemma sched_set_status_same:
  assumes inv: "kinv s L" and same: "on_runqueue st = on_runqueue (status (tcb s t))"
    and wait: "\<And>l. t \<in> set (L l) \<Longrightarrow> \<not> is_runqueue l \<Longrightarrow> st \<in> waiting_status l"
    and fits: "data_fits st (wait_data (tcb s t))"
  shows "sched_set_status s t st = Inr (upd_thread t (set_status st) s)"
    and "kinv (upd_thread t (set_status st) s) L"
proof -
  show "sched_set_status s t st = Inr (upd_thread t (set_status st) s)"
    using same by (simp add: sched_set_status_def Let_def set_status_def [abs_def])
  let ?s = "upd_thread t (set_status st) s"
  show "kinv ?s L"
    unfolding kinv_def
  proof (intro conjI)
    show "layout_ok (links ?s) L" using inv by (simp add: kinv_def)
    show "threads_ok ?s" using inv by (simp add: kinv_def threads_ok_def)
    show "runq_ok ?s L" using kinv_in_runqueue [OF inv] same by (auto simp: runq_ok_def)
    show "cache_ok ?s L" using kinv_bitcache [OF inv] by (simp add: cache_ok_def)
    show "waiters_ok ?s L"
    proof -
      have "(\<lambda>u. priority (tcb ?s u)) = (\<lambda>u. priority (tcb s u))" by auto
      then show ?thesis using kinv_waiters_ok [OF inv] wait unfolding waiters_ok_def by simp
    qed
    show "active_ok ?s L" using inv same by (simp add: kinv_def active_ok_def)
    show "data_ok ?s L" by (rule data_ok_change [OF kinv_data_ok [OF inv]]) (use fits in auto)
  qed
qed

text \<open>The first thread of a list of waiting threads leaves it.\<close>

lemma kinv_remove_head:
  assumes inv: "kinv s L" and wl: "\<not> is_runqueue l" and L: "L l = t # ts"
  obtains h where "list_remove_head (links s) l = Inr (h, Ptr (RqEntry t))"
    and "kinv (s\<lparr>links := h\<rparr>) (L(l := ts))" and "\<And>l'. t \<notin> set ((L(l := ts)) l')"
    and "slist h l (map RqEntry ts)" and "h = (links s)(l := links s (RqEntry t))"
proof -
  have q: "queue_at (links s) l (t # ts)" using kinv_queue_at [OF inv, of l] L by simp
  then have e: "\<not> is_entry l" by (cases l) auto
  from q have sl: "slist (links s) l (RqEntry t # map RqEntry ts)" using wl by (cases l) auto
  let ?h = "(links s)(l := links s (RqEntry t))"
  note r = list_remove_head_Cons [OF sl]
  have tts: "t \<notin> set ts" using queue_at_distinct [OF q] by simp
  have d: "u \<notin> set (L l')" if "u \<in> set (t # ts)" "l' \<noteq> l" for u l'
    using kinv_disjoint [OF inv, of u l l'] that L by auto
  have "layout_ok ?h (L(l := ts))"
  proof (rule layout_update [where h = "links s"])
    show "layout_ok (links s) L" using inv by (simp add: kinv_def)
    show "queue_at ?h l ts" using r(2) wl e by (cases l) auto
  qed (use d e in auto)
  moreover have "waiters_ok (s\<lparr>links := ?h\<rparr>) (L(l := ts))"
    using kinv_waiters_ok [OF inv] wl L unfolding waiters_ok_def by auto
  moreover have "active_ok (s\<lparr>links := ?h\<rparr>) (L(l := ts))"
  proof -
    have "l \<noteq> RunQueue p" for p using wl by auto
    then show ?thesis using inv unfolding kinv_def active_ok_def by auto
  qed
  moreover have "runq_ok (s\<lparr>links := ?h\<rparr>) (L(l := ts))" "cache_ok (s\<lparr>links := ?h\<rparr>) (L(l := ts))"
    using inv wl unfolding kinv_def runq_ok_def cache_ok_def by auto
  moreover have "data_ok (s\<lparr>links := ?h\<rparr>) (L(l := ts))"
    by (rule data_ok_change [OF kinv_data_ok [OF inv]]) (use L in auto)
  ultimately have "kinv (s\<lparr>links := ?h\<rparr>) (L(l := ts))"
    using inv by (simp add: kinv_def threads_ok_def)
  then show thesis using r tts d by (intro that [of ?h]) auto
qed

section \<open>The choice of the next thread\<close>

text \<open>The thread \<open>sched_run\<close> chooses: the head of the first run queue that is not empty.\<close>

definition sched_next :: "kernel \<Rightarrow> layout \<Rightarrow> tid" where
  "sched_next s L = hd (L (RunQueue (lowest_bit (runqueue_bitcache s))))"

lemma sched_next:
  assumes inv: "kinv s L" and run: "runnable s u"
  defines "p \<equiv> lowest_bit (runqueue_bitcache s)"
  shows "runqueue_bitcache s \<noteq> 0" and "runnable s (sched_next s L)"
    and "priority (tcb s (sched_next s L)) = p" and "p \<le> priority (tcb s u)"
    and "\<exists>ts. L (RunQueue p) = sched_next s L # ts" and "p < SCHED_PRIO_LEVELS"
proof -
  have u: "u \<in> set (L (RunQueue (priority (tcb s u))))" using kinv_runnable [OF inv] run by simp
  then have b: "bit (runqueue_bitcache s) (priority (tcb s u))"
    by (metis kinv_bitcache [OF inv] empty_iff list.set(1))
  then show nz: "runqueue_bitcache s \<noteq> 0" by auto
  from b show "p \<le> priority (tcb s u)"
    unfolding p_def using lowest_bit(2) [OF nz] not_le by blast
  have "L (RunQueue p) \<noteq> []"
    using kinv_bitcache [OF inv] lowest_bit(1) [OF nz] by (simp add: p_def)
  then show ts: "\<exists>ts. L (RunQueue p) = sched_next s L # ts"
    unfolding sched_next_def p_def by (metis list.exhaust_sel)
  then have "sched_next s L \<in> set (L (RunQueue p))" by auto
  then show r: "runnable s (sched_next s L)" and pr: "priority (tcb s (sched_next s L)) = p"
    by (simp_all add: kinv_in_runqueue [OF inv] runnable_def)
  from kinv_priority [OF inv, of "sched_next s L"] r pr show "p < SCHED_PRIO_LEVELS"
    by (simp add: runnable_def)
qed

lemma clist_first:
  assumes "clist h l (x # xs)"
  obtains n where "h l = Ptr n" and "h n = Ptr x"
  using clist_lpeek_hd [OF assms] assms
  by (cases "h l") (auto simp: clist_lpeek_def clist_def)

lemma kinv_activate:
  assumes inv: "kinv s L" and n: "L (RunQueue (priority (tcb s n))) = n # ts"
    and a: "\<And>a. old = Some a \<Longrightarrow> on_runqueue (status (tcb s a))"
  shows "kinv (upd_thread n (set_status STATUS_RUNNING)
                (case old of None \<Rightarrow> s | Some a \<Rightarrow> upd_thread a (set_status STATUS_PENDING) s)
              \<lparr>sched_active_pid := pid (tcb s n), sched_active_thread := Some n,
               sched_context_switch_request := r\<rparr>) L"
proof -
  let ?s1 = "case old of None \<Rightarrow> s | Some a \<Rightarrow> upd_thread a (set_status STATUS_PENDING) s"
  have nr: "live s n" "on_runqueue (status (tcb s n))"
    using kinv_in_runqueue [OF inv, of n "priority (tcb s n)"] n by auto
  have off: "t \<notin> set (L l)" if "on_runqueue (status (tcb s t))" "\<not> is_runqueue l" for t l
    using kinv_waiter [OF inv _ that(2)] waiting_not_on_runqueue that(1) by blast
  have inv1: "kinv ?s1 L"
    using inv a off by (auto split: option.split intro!: sched_set_status_same(2))
  have nr1: "on_runqueue (status (tcb ?s1 n))" using nr by (auto split: option.split)
  have off1: "n \<notin> set (L l)" if "\<not> is_runqueue l" for l using off nr that by blast
  have inv2: "kinv (upd_thread n (set_status STATUS_RUNNING) ?s1) L"
    by (rule sched_set_status_same(2) [OF inv1]) (use nr1 off1 in auto)
  have [simp]: "tcb ?s1 n = tcb s n \<or> pid (tcb ?s1 n) = pid (tcb s n)" "pid (tcb ?s1 n) = pid (tcb s n)"
      "priority (tcb ?s1 n) = priority (tcb s n)" "live ?s1 n"
    using nr by (auto split: option.split)
  show ?thesis
    using inv2 n unfolding kinv_def
    by (auto simp: threads_ok_def runq_ok_def cache_ok_def waiters_ok_def active_ok_def data_ok_def)
qed

text \<open>
  \<open>sched_run\<close> returns, changes nothing but the status of the two threads and the variables
  that name the active thread, keeps the invariant, and the active thread afterwards is the
  head of the first run queue that is not empty.
\<close>

lemma sched_run_next:
  assumes inv: "kinv s L" and run: "runnable s u"
  defines "n \<equiv> sched_next s L"
  obtains s' sw where "sched_run s = Inr (s', sw)" and "kinv s' L"
    and "sched_active_thread s' = Some n" and "sched_active_pid s' = pid (tcb s n)"
    and "sw \<longleftrightarrow> sched_active_thread s \<noteq> Some n" and "links s' = links s"
    and "\<And>t. runnable s' t = runnable s t" and "\<And>t. priority (tcb s' t) = priority (tcb s t)"
    and "sw \<Longrightarrow> status (tcb s' n) = STATUS_RUNNING"
    and "\<And>t. t \<noteq> n \<Longrightarrow> sched_active_thread s \<noteq> Some t \<Longrightarrow> tcb s' t = tcb s t"
    and "sched_threads s' = sched_threads s" and "\<not> sched_context_switch_request s'"
    and "msip s' = msip s" and "mie s' = mie s" and "in_isr s' = in_isr s"
proof -
  let ?p = "lowest_bit (runqueue_bitcache s)"
  note nxt = sched_next [OF inv run, folded n_def]
  from nxt(5) obtain ts where ts: "L (RunQueue ?p) = n # ts" by blast
  obtain m where m: "links s (RunQueue ?p) = Ptr m" "links s m = Ptr (RqEntry n)"
    using clist_first kinv_runqueue [OF inv, of ?p] ts by (metis list.simps(9))
  have lsb: "bitarithm_lsb (runqueue_bitcache s) = Inr (of_nat ?p)"
    by (rule bitarithm_lsb_lowest [OF nxt(1)])
  have unat: "unat (of_nat ?p :: u32) = ?p"
    using lowest_bit(3) [OF nxt(1)] by (simp add: unat_of_nat take_bit_nat_eq_self_iff)
  let ?old = "case sched_active_thread s of None \<Rightarrow> None | Some a \<Rightarrow>
                if status (tcb s a) = STATUS_RUNNING then Some a else None"
  let ?s' = "upd_thread n (set_status STATUS_RUNNING)
               (case ?old of None \<Rightarrow> s | Some a \<Rightarrow> upd_thread a (set_status STATUS_PENDING) s)
             \<lparr>sched_active_pid := pid (tcb s n), sched_active_thread := Some n,
              sched_context_switch_request := False\<rparr>"
  show thesis
  proof (cases "sched_active_thread s = Some n")
    case True
    have "sched_run s = Inr (s\<lparr>sched_context_switch_request := False\<rparr>, False)"
      using m nxt(6) lsb True by (simp add: sched_run_def Let_def unat)
    moreover have "kinv (s\<lparr>sched_context_switch_request := False\<rparr>) L"
      using inv ts True nxt(3) unfolding kinv_def
      by (auto simp: threads_ok_def runq_ok_def cache_ok_def waiters_ok_def active_ok_def data_ok_def)
    ultimately show thesis using True inv kinv_active(2) [OF inv True]
      by (intro that [of "s\<lparr>sched_context_switch_request := False\<rparr>" False]) auto
  next
    case False
    then have "sched_run s = Inr (?s', True)"
      using m nxt(6) lsb
      by (auto simp: sched_run_def Let_def unat upd_thread_def set_status_def split: option.split)
    moreover have "kinv ?s' L"
      by (rule kinv_activate [OF inv]) (use ts nxt(3) in \<open>auto split: option.splits if_splits\<close>)
    ultimately show thesis using False nxt(2)
      by (intro that [of ?s' True]) (auto simp: runnable_def split: option.split)
  qed
qed

text \<open>What \<open>sched_switch\<close> does: nothing, or one of the two requests for a switch.\<close>

lemma sched_switch_cases:
  assumes "sched_active_thread s = Some t"
  obtains (stay) "sched_switch s q = Inr s" "on_runqueue (status (tcb s t))" "priority (tcb s t) \<le> q"
  | (request) "sched_switch s q = Inr (s\<lparr>sched_context_switch_request := True\<rparr>)" "in_isr s"
  | (yield) "sched_switch s q = Inr (s\<lparr>msip := True\<rparr>)" "\<not> in_isr s"
proof (cases "on_runqueue (status (tcb s t)) \<and> priority (tcb s t) \<le> q")
  case True
  then have "sched_switch s q = Inr s" using assms by (simp add: sched_switch_def Let_def not_less)
  then show thesis using True stay by simp
next
  case False
  then have "sched_switch s q = (if in_isr s then Inr (s\<lparr>sched_context_switch_request := True\<rparr>)
                                 else Inr (s\<lparr>msip := True\<rparr>))"
    using assms
    by (simp add: sched_switch_def Let_def not_le irq_is_in_def thread_yield_higher_def)
  then show thesis using request yield by (cases "in_isr s") simp_all
qed

lemma sched_switch_prio_ok:
  assumes inv: "kinv s L" and act: "sched_active_thread s = Some t" and old: "prio_ok_but s W"
    and q: "\<forall>w \<in> W. q \<le> priority (tcb s w)"
  obtains s' where "sched_switch s q = Inr s'" and "kinv s' L" and "prio_ok s'"
    and "only_requests s s'"
proof -
  have run: "on_runqueue (status (tcb s t)) \<Longrightarrow> runnable s t"
    using kinv_active(1) [OF inv act] by (simp add: runnable_def)
  show thesis
    using act
  proof (cases rule: sched_switch_cases [where q = q])
    case stay
    have "priority (tcb s t) \<le> priority (tcb s u)" if "runnable s u" "\<not> switch_pending s" for u
      using that act old q stay(3) by (cases "u \<in> W") (auto simp: prio_ok_but_def)
    then have "prio_ok s" using act run stay by (auto simp: prio_ok_def)
    then show thesis using stay inv by (intro that) (auto simp: only_requests_def)
  next
    case request
    then have "prio_ok (s\<lparr>sched_context_switch_request := True\<rparr>)"
      by (simp add: prio_ok_def switch_pending_def)
    then show thesis using request kinv_request [OF inv] by (intro that) (auto simp: only_requests_def)
  next
    case yield
    then have "prio_ok (s\<lparr>msip := True\<rparr>)" by (simp add: prio_ok_def switch_pending_def)
    then show thesis using yield kinv_yield [OF inv] by (intro that) (auto simp: only_requests_def)
  qed
qed

section \<open>Yield and exit\<close>

lemma thread_yield_rotates:
  assumes inv: "kinv s L" and ctx: "thread_context s t"
  defines "p \<equiv> priority (tcb s t)"
  obtains h where "thread_yield s = Inr (s\<lparr>links := h, msip := True\<rparr>)"
    and "kinv (s\<lparr>links := h, msip := True\<rparr>) (L(RunQueue p := rotate1 (L (RunQueue p))))"
proof -
  note c = thread_contextD [OF ctx]
  have p: "p < SCHED_PRIO_LEVELS"
    using kinv_priority [OF inv kinv_active(1) [OF inv c(1)]] by (simp add: p_def)
  obtain ts where ts: "L (RunQueue p) = t # ts"
    using kinv_active(3) [OF inv c(1) c(2) c(6)] p_def by auto
  from kinv_runqueue [OF inv, of p] obtain h where
    h: "clist_lpoprpush (links s) (RunQueue p) = Inr h"
       "clist h (RunQueue p) (rotate1 (map RqEntry (L (RunQueue p))))"
       "\<And>m. m \<noteq> RunQueue p \<Longrightarrow> h m = links s m"
    by (rule clist_lpoprpush_rotate1) blast
  let ?s = "s\<lparr>links := h, msip := True\<rparr>" and ?L = "L(RunQueue p := rotate1 (L (RunQueue p)))"
  have "thread_yield s = Inr ?s"
    using c h(1) p
    by (simp add: thread_yield_def irq_disable_def irq_restore_def thread_yield_higher_def p_def)
  moreover have "kinv ?s ?L"
    unfolding kinv_def
  proof (intro conjI)
    show "layout_ok (links ?s) ?L"
    proof (rule layout_update [where h = "links s"])
      show "layout_ok (links s) L" using inv by (simp add: kinv_def)
      show "u \<notin> set (L l')" if "u \<in> set (rotate1 (L (RunQueue p)))" "l' \<noteq> RunQueue p" for u l'
        using kinv_disjoint [OF inv, of u l' "RunQueue p"] that by auto
    qed (use h in \<open>auto simp: rotate1_map\<close>)
    show "threads_ok ?s" using inv by (simp add: kinv_def threads_ok_def)
    show "runq_ok ?s ?L" using kinv_in_runqueue [OF inv] by (simp add: runq_ok_def)
    show "cache_ok ?s ?L" using kinv_bitcache [OF inv] by (simp add: cache_ok_def)
    show "waiters_ok ?s ?L"
      by (rule waiters_ok_change [OF kinv_waiters_ok [OF inv]]) (use kinv_waiter [OF inv] in auto)
    show "active_ok ?s ?L"
      using kinv_active(1,2) [OF inv] by (simp add: active_ok_def switch_pending_def)
    show "data_ok ?s ?L" by (rule data_ok_change [OF kinv_data_ok [OF inv]]) auto
  qed
  ultimately show thesis by (rule that)
qed

text \<open>The thread is dropped from \<open>sched_threads\<close>; it is in no list and no longer active.\<close>

lemma kinv_drop_thread:
  assumes inv: "kinv s L" and live: "live s t" and off: "\<not> on_runqueue (status (tcb s t))"
    and free: "\<And>l. t \<notin> set (L l)"
  shows "kinv (s\<lparr>sched_threads := (sched_threads s)(pid (tcb s t) := None), sched_num_threads := n,
                 sched_active_thread := None\<rparr>) L" (is "kinv ?s L")
    and "live (s\<lparr>sched_threads := (sched_threads s)(pid (tcb s t) := None), sched_num_threads := n,
                  sched_active_thread := None\<rparr>) u \<longleftrightarrow> live s u \<and> u \<noteq> t"
proof -
  have pids: "pid (tcb s u) = q" if "sched_threads s q = Some u" for u q
    using inv that by (simp add: kinv_def threads_ok_def)
  have t: "sched_threads s (pid (tcb s t)) = Some t" using live pids unfolding live_def by blast
  show live': "live ?s u \<longleftrightarrow> live s u \<and> u \<noteq> t" for u
  proof
    assume "live ?s u"
    then obtain q where "q \<noteq> pid (tcb s t)" "sched_threads s q = Some u"
      by (auto simp: live_def split: if_splits)
    then show "live s u \<and> u \<noteq> t" using pids [of q u] by (auto simp: live_def)
  next
    assume u: "live s u \<and> u \<noteq> t"
    then obtain q where q: "sched_threads s q = Some u" by (auto simp: live_def)
    with t u have "q \<noteq> pid (tcb s t)" by auto
    with q show "live ?s u" by (auto simp: live_def)
  qed
  show "kinv ?s L"
    unfolding kinv_def
  proof (intro conjI)
    show "layout_ok (links ?s) L" "cache_ok ?s L" "active_ok ?s L"
      using inv by (simp_all add: kinv_def cache_ok_def active_ok_def)
    show "threads_ok ?s" using inv by (simp add: kinv_def threads_ok_def)
    show "data_ok ?s L" by (rule data_ok_change [OF kinv_data_ok [OF inv]]) (use live' in auto)
    show "runq_ok ?s L" using kinv_in_runqueue [OF inv] live' off by (auto simp: runq_ok_def)
    show "waiters_ok ?s L"
      unfolding waiters_ok_def
    proof (intro allI impI conjI ballI)
      fix l u
      assume l: "\<not> is_runqueue l"
      then show "sorted (map (\<lambda>u. priority (tcb ?s u)) (L l))"
        using kinv_waiters_ok [OF inv] by (simp add: waiters_ok_def)
      assume u: "u \<in> set (L l)"
      then have "u \<noteq> t" using free by blast
      then show "live ?s u" using live' kinv_waiter [OF inv u l] by simp
      show "status (tcb ?s u) \<in> waiting_status l" using kinv_waiter [OF inv u l] by simp
    qed
  qed
qed

lemma sched_set_status_commute:
  "sched_set_status (s\<lparr>sched_threads := x, sched_num_threads := n\<rparr>) t st =
     bindE (sched_set_status s t st) (\<lambda>s'. Inr (s'\<lparr>sched_threads := x, sched_num_threads := n\<rparr>))"
  by (cases "clist_lpop (links s) (RunQueue (priority (tcb s t)))";
      cases "clist_rpush (links s) (RunQueue (priority (tcb s t))) (RqEntry t)")
    (simp_all add: sched_set_status_def Let_def upd_thread_def split_def)

text \<open>A change of a control block outside its status and priority commutes with a status change.\<close>

lemma sched_set_status_upd:
  assumes "\<And>th. status (f th) = status th \<and> priority (f th) = priority th"
    and "\<And>th. f (th\<lparr>status := st\<rparr>) = (f th)\<lparr>status := st\<rparr>"
  shows "sched_set_status (upd_thread u f s) t st =
    bindE (sched_set_status s t st) (\<lambda>s'. Inr (upd_thread u f s'))"
proof -
  have "status (tcb (upd_thread u f s) t) = status (tcb s t)" "priority (tcb (upd_thread u f s) t) = priority (tcb s t)"
    using assms(1) by simp_all
  moreover have "upd_thread t (status_update (\<lambda>_. st)) (upd_thread u f s) =
      upd_thread u f (upd_thread t (status_update (\<lambda>_. st)) s)" for s
    using assms(2) by (cases "u = t") (simp_all add: upd_thread_def fun_upd_twist)
  moreover have "(upd_thread u f s)\<lparr>links := h, runqueue_bitcache := b\<rparr> =
      upd_thread u f (s\<lparr>links := h, runqueue_bitcache := b\<rparr>)" for h b
    by (simp add: upd_thread_def)
  ultimately show ?thesis
    by (cases "clist_lpop (links s) (RunQueue (priority (tcb s t)))";
        cases "clist_rpush (links s) (RunQueue (priority (tcb s t))) (RqEntry t)")
      (simp_all add: sched_set_status_def Let_def split_def del: upd_thread_simps(1))
qed

text \<open>A thread that returns from its function is gone; what it leaves is a pending switch.\<close>

lemma sched_task_exit_exits:
  assumes inv: "kinv s L" and ctx: "thread_context s t"
  defines "p \<equiv> priority (tcb s t)"
  obtains s' where "sched_task_exit s = Inr s'"
    and "kinv s' (L(RunQueue p := tl (L (RunQueue p))))"
    and "sched_active_thread s' = None" and "msip s'" and "mie s'" and "in_isr s' = in_isr s"
    and "\<And>u. live s' u \<longleftrightarrow> live s u \<and> u \<noteq> t"
    and "\<And>u. u \<noteq> t \<Longrightarrow> tcb s' u = tcb s u" and "status (tcb s' t) = STATUS_STOPPED"
    and "sched_num_threads s' = sched_num_threads s - 1"
proof -
  note c = thread_contextD [OF ctx]
  let ?L = "L(RunQueue p := tl (L (RunQueue p)))"
  have live: "live s t" and pid: "sched_active_pid s = pid (tcb s t)"
    using kinv_active [OF inv c(1)] by auto
  then have valid: "pid_is_valid (pid (tcb s t))"
    using inv unfolding kinv_def threads_ok_def live_def by metis
  let ?s0 = "s\<lparr>mie := False\<rparr>"
  obtain ts where ts: "L (RunQueue p) = t # ts"
    using kinv_active(3) [OF inv c(1) c(2) c(6)] p_def by auto
  have "kinv ?s0 L" "sched_active_thread ?s0 = Some t" "on_runqueue (status (tcb ?s0 t))"
    "\<not> on_runqueue STATUS_STOPPED" "data_fits STATUS_STOPPED (wait_data (tcb ?s0 t))"
    "L (RunQueue (priority (tcb ?s0 t))) = t # tl (L (RunQueue p))"
    and pr: "priority (tcb ?s0 t) = p"
    using c ts inv by (simp_all add: p_def)
  note block = sched_set_status_block [OF this(1-6), unfolded pr]
  obtain s1 h b where s1: "sched_set_status ?s0 t STATUS_STOPPED = Inr s1"
    "s1 = upd_thread t (set_status STATUS_STOPPED) (?s0\<lparr>links := h, runqueue_bitcache := b\<rparr>)"
    "kinv s1 ?L" "\<And>l. t \<notin> set (?L l)"
    by (rule block) (rule that)
  let ?s2 = "s1\<lparr>sched_threads := (sched_threads s)(pid (tcb s t) := None),
                 sched_num_threads := sched_num_threads s - 1, sched_active_thread := None\<rparr>"
  have "live s1 t" "\<not> on_runqueue (status (tcb s1 t))" "sched_threads s1 = sched_threads s"
    "pid (tcb s1 t) = pid (tcb s t)"
    using s1(2) live by (simp_all add: live_def)
  note drop = kinv_drop_thread [where L = ?L, OF s1(3) this(1,2) s1(4), where n = "sched_num_threads s - 1",
      unfolded this(3,4)]
  have e: "sched_task_exit s = Inr (?s2\<lparr>mie := True, msip := True\<rparr>)"
    using c valid pid s1(1)
    by (simp add: sched_task_exit_def irq_disable_def irq_enable_def irq_restore_def Let_def
        sched_set_status_commute cpu_switch_context_exit_def thread_yield_def
        thread_yield_higher_def pid_is_valid_def kernel_consts s1(2) upd_thread_def)
  have k: "kinv (?s2\<lparr>mie := True, msip := True\<rparr>) ?L"
    using drop(1) by (intro kinv_yield) simp
  have l: "live ?s2 u \<longleftrightarrow> live s u \<and> u \<noteq> t" for u
    using drop(2) [of u] s1(2) by simp
  show thesis by (rule that [OF e k]) (use l in \<open>simp_all add: s1(2)\<close>)
qed

section \<open>Waking a thread\<close>

text \<open>The first thread of a list of waiting threads is taken out and made runnable.\<close>

lemma wake_head:
  assumes inv: "kinv s L" and l: "\<not> is_runqueue l" and w: "L l = w # ws"
    and act: "sched_active_thread s \<noteq> Some w \<or> switch_pending s"
  defines "L' \<equiv> L(l := ws, RunQueue (priority (tcb s w)) := L (RunQueue (priority (tcb s w))) @ [w])"
  obtains h1 s1 h b where "list_remove_head (links s) l = Inr (h1, Ptr (RqEntry w))"
    and "sched_set_status (s\<lparr>links := h1\<rparr>) w STATUS_PENDING = Inr s1"
    and "s1 = upd_thread w (set_status STATUS_PENDING) (s\<lparr>links := h, runqueue_bitcache := b\<rparr>)"
    and "kinv s1 L'" and "\<And>m. m \<noteq> l \<Longrightarrow> \<not> is_runqueue m \<Longrightarrow> \<not> is_entry m \<Longrightarrow> h m = links s m"
proof -
  obtain h1 where h1: "list_remove_head (links s) l = Inr (h1, Ptr (RqEntry w))"
    "kinv (s\<lparr>links := h1\<rparr>) (L(l := ws))" "\<And>l'. w \<notin> set ((L(l := ws)) l')"
    "slist h1 l (map RqEntry ws)" "h1 = (links s)(l := links s (RqEntry w))"
    by (rule kinv_remove_head [OF inv l w]) (rule that)
  have st: "live s w" "\<not> on_runqueue (status (tcb s w))"
    using kinv_waiter [OF inv, of w l] waiting_not_on_runqueue w l by auto
  have *: "live (s\<lparr>links := h1\<rparr>) w" "\<not> on_runqueue (status (tcb (s\<lparr>links := h1\<rparr>) w))"
    "on_runqueue STATUS_PENDING" "sched_active_thread (s\<lparr>links := h1\<rparr>) \<noteq> Some w \<or> switch_pending (s\<lparr>links := h1\<rparr>)"
    and L': "(L(l := ws))(RunQueue (priority (tcb (s\<lparr>links := h1\<rparr>) w)) :=
      (L(l := ws)) (RunQueue (priority (tcb (s\<lparr>links := h1\<rparr>) w))) @ [w]) = L'"
    using st act l by (simp_all add: L'_def)
  obtain s1 h b where s1: "sched_set_status (s\<lparr>links := h1\<rparr>) w STATUS_PENDING = Inr s1"
    "s1 = upd_thread w (set_status STATUS_PENDING) (s\<lparr>links := h1, links := h, runqueue_bitcache := b\<rparr>)"
    "kinv s1 L'" "\<And>m. \<not> is_runqueue m \<Longrightarrow> \<not> is_entry m \<Longrightarrow> h m = links (s\<lparr>links := h1\<rparr>) m"
    by (rule sched_set_status_wake [OF h1(2) *(1-3) h1(3) *(4), unfolded L']) (rule that)
  have "s1 = upd_thread w (set_status STATUS_PENDING) (s\<lparr>links := h, runqueue_bitcache := b\<rparr>)"
    by (simp add: s1(2))
  moreover have "h m = links s m" if "m \<noteq> l" "\<not> is_runqueue m" "\<not> is_entry m" for m
    using s1(4) [OF that(2,3)] that(1) by (simp add: h1(5))
  ultimately show thesis using s1(3) by (intro that [OF h1(1) s1(1)])
qed

text \<open>
  The pattern of every wake-up in the kernel: a blocked thread is made runnable, the
  interrupts are restored, and \<open>sched_switch\<close> is called with its priority.
\<close>

lemma wake_switch:
  assumes inv: "kinv s L" and prio: "prio_ok s" and live: "live s t"
    and off: "\<not> on_runqueue (status (tcb s t))" and on: "on_runqueue st"
    and free: "\<And>l. t \<notin> set (L l)"
    and act: "sched_active_thread s = Some a" "a \<noteq> t \<or> switch_pending s"
    and q: "q \<le> priority (tcb s t)"
  defines "p \<equiv> priority (tcb s t)"
  obtains s1 s2 h b' where "sched_set_status s t st = Inr s1"
    and "s1 = upd_thread t (set_status st) (s\<lparr>links := h, runqueue_bitcache := b'\<rparr>)"
    and "sched_switch (s1\<lparr>mie := b\<rparr>) q = Inr s2"
    and "kinv s1 (L(RunQueue p := L (RunQueue p) @ [t]))"
    and "kinv s2 (L(RunQueue p := L (RunQueue p) @ [t]))" and "prio_ok s2"
    and "only_requests (s1\<lparr>mie := b\<rparr>) s2"
proof -
  let ?L = "L(RunQueue p := L (RunQueue p) @ [t])"
  have "sched_active_thread s \<noteq> Some t \<or> switch_pending s" using act by auto
  note wake = sched_set_status_wake [OF inv live off on free this, folded p_def]
  obtain s1 h b' where s1: "sched_set_status s t st = Inr s1"
    "s1 = upd_thread t (set_status st) (s\<lparr>links := h, runqueue_bitcache := b'\<rparr>)" "kinv s1 ?L"
    by (rule wake) (rule that)
  have "prio_ok_but s1 {t}"
    by (rule prio_ok_but_wake [OF prio_ok_but_empty [OF prio]]) (simp_all add: s1(2))
  then have s2: "kinv (s1\<lparr>mie := b\<rparr>) ?L" "sched_active_thread (s1\<lparr>mie := b\<rparr>) = Some a"
    "prio_ok_but (s1\<lparr>mie := b\<rparr>) {t}" "\<forall>w \<in> {t}. q \<le> priority (tcb (s1\<lparr>mie := b\<rparr>) w)"
    using s1 act(1) q by simp_all
  obtain s2 where
    "sched_switch (s1\<lparr>mie := b\<rparr>) q = Inr s2" "kinv s2 ?L" "prio_ok s2"
    "only_requests (s1\<lparr>mie := b\<rparr>) s2"
    by (rule sched_switch_prio_ok [OF s2]) (rule that)
  with s1 show thesis by (intro that [of s1 b' h s2])
qed

section \<open>The contract of \<open>thread_yield\<close>\<close>

interpretation yield: kernel_call "\<lambda>s L. \<exists>t. thread_context s t" "\<lambda>s. noval (thread_yield s)"
proof unfold_locales
  fix s L
  assume inv: "kinv s L" and ctx: "\<exists>t. thread_context s t"
  then obtain t where t: "thread_context s t" by blast
  obtain h where h: "thread_yield s = Inr (s\<lparr>links := h, msip := True\<rparr>)"
    "kinv (s\<lparr>links := h, msip := True\<rparr>) (L(RunQueue (priority (tcb s t)) := rotate1 (L (RunQueue (priority (tcb s t))))))"
    by (rule thread_yield_rotates [OF inv t]) (rule that)
  have "call_frame s (s\<lparr>links := h, msip := True\<rparr>)" by (rule call_frameI) simp_all
  then show "\<exists>s' r L'. noval (thread_yield s) = Inr (s', r) \<and> kinv s' L' \<and> prio_ok s' \<and> call_frame s s'"
    using h by (auto simp: prio_ok_def switch_pending_def)
qed

section \<open>Properties\<close>

text \<open>
  C4: As soon as some thread is runnable, \<open>sched_run\<close> returns; the active thread afterwards is the
  head of the run queue of the most urgent priority that has a runnable thread, it is running,
  the set of runnable threads is unchanged, and the invariant of the kernel is kept.
\<close>

theorem sched_run_most_urgent:
  assumes "kinv s L" and "runnable s u"
  shows "\<exists>s' sw n ts. sched_run s = Inr (s', sw) \<and> kinv s' L \<and>
    sched_active_thread s' = Some n \<and> sched_active_pid s' = pid (tcb s n) \<and>
    L (RunQueue (priority (tcb s n))) = n # ts \<and>
    (\<forall>v. runnable s v \<longrightarrow> priority (tcb s n) \<le> priority (tcb s v)) \<and>
    (\<forall>v. runnable s' v = runnable s v) \<and> runnable s' n \<and>
    (sw \<longleftrightarrow> sched_active_thread s \<noteq> Some n) \<and> (sw \<longrightarrow> status (tcb s' n) = STATUS_RUNNING)"
proof -
  let ?n = "sched_next s L"
  obtain s' sw where s': "sched_run s = Inr (s', sw)" "kinv s' L" "sched_active_thread s' = Some ?n"
    "sched_active_pid s' = pid (tcb s ?n)" "sw \<longleftrightarrow> sched_active_thread s \<noteq> Some ?n"
    "\<And>t. runnable s' t = runnable s t" "sw \<Longrightarrow> status (tcb s' ?n) = STATUS_RUNNING"
    by (rule sched_run_next [OF assms]) (rule that)
  obtain ts where "L (RunQueue (priority (tcb s ?n))) = ?n # ts"
    using sched_next(3,5) [OF assms] by metis
  moreover have "priority (tcb s ?n) \<le> priority (tcb s v)" if "runnable s v" for v
    using sched_next(3,4) [OF assms(1) that] by simp
  ultimately show ?thesis using s' sched_next(2) [OF assms] by blast
qed

theorem sched_run_most_urgent_witness:
  "kinv demo demo_layout \<and> runnable demo 100 \<and>
   (\<exists>s' sw n ts. sched_run demo = Inr (s', sw) \<and> kinv s' demo_layout \<and>
    sched_active_thread s' = Some n \<and> sched_active_pid s' = pid (tcb demo n) \<and>
    demo_layout (RunQueue (priority (tcb demo n))) = n # ts \<and>
    (\<forall>v. runnable demo v \<longrightarrow> priority (tcb demo n) \<le> priority (tcb demo v)) \<and>
    (\<forall>v. runnable s' v = runnable demo v) \<and> runnable s' n \<and>
    (sw \<longleftrightarrow> sched_active_thread demo \<noteq> Some n) \<and> (sw \<longrightarrow> status (tcb s' n) = STATUS_RUNNING))"
proof -
  have r: "runnable demo 100" by (simp add: demo_runnable)
  show ?thesis using sched_run_most_urgent [OF demo_kinv r] demo_kinv r by blast
qed

text \<open>
  \<open>thread_yield\<close> moves the caller behind the other threads of its priority, changes no other
  list and no control block, and requests the switch.
\<close>

theorem thread_yield_round_robin:
  assumes "kinv s L" and "thread_context s t"
  shows "\<exists>s' ts. thread_yield s = Inr s' \<and> L (RunQueue (priority (tcb s t))) = t # ts \<and>
    kinv s' (L(RunQueue (priority (tcb s t)) := ts @ [t])) \<and> tcb s' = tcb s \<and> switch_pending s' \<and> mie s'"
proof -
  note c = thread_contextD [OF assms(2)]
  obtain ts where ts: "L (RunQueue (priority (tcb s t))) = t # ts"
    using kinv_active(3) [OF assms(1) c(1,2,6)] by blast
  obtain h where "thread_yield s = Inr (s\<lparr>links := h, msip := True\<rparr>)"
    "kinv (s\<lparr>links := h, msip := True\<rparr>)
       (L(RunQueue (priority (tcb s t)) := rotate1 (L (RunQueue (priority (tcb s t))))))"
    by (rule thread_yield_rotates [OF assms]) (rule that)
  then show ?thesis using ts c(5) by (simp add: switch_pending_def)
qed

theorem thread_yield_round_robin_witness:
  "\<exists>s' ts. thread_yield demo = Inr s' \<and> demo_layout (RunQueue (priority (tcb demo 200))) = 200 # ts \<and>
    kinv s' (demo_layout(RunQueue (priority (tcb demo 200)) := ts @ [200])) \<and> tcb s' = tcb demo \<and>
    switch_pending s' \<and> mie s'"
  using thread_yield_round_robin [OF demo_kinv demo_context] .

text \<open>
  C30: When the function of a thread returns, \<open>sched_task_exit\<close> removes the thread: it no longer
  exists, the other threads are as before, there is no active thread and a switch is pending.
\<close>

theorem sched_task_exit_removes:
  assumes "kinv s L" and "thread_context s t"
  shows "\<exists>s' L'. sched_task_exit s = Inr s' \<and> kinv s' L' \<and> sched_active_thread s' = None \<and>
    switch_pending s' \<and> mie s' \<and> (\<forall>u. live s' u \<longleftrightarrow> live s u \<and> u \<noteq> t) \<and> (\<forall>l. t \<notin> set (L' l)) \<and>
    (\<forall>u. u \<noteq> t \<longrightarrow> tcb s' u = tcb s u) \<and> sched_num_threads s' = sched_num_threads s - 1"
proof -
  let ?L = "L(RunQueue (priority (tcb s t)) := tl (L (RunQueue (priority (tcb s t)))))"
  obtain s' where s': "sched_task_exit s = Inr s'" "kinv s' ?L" "sched_active_thread s' = None" "msip s'" "mie s'"
    "\<And>u. live s' u \<longleftrightarrow> live s u \<and> u \<noteq> t" "\<And>u. u \<noteq> t \<Longrightarrow> tcb s' u = tcb s u"
    "sched_num_threads s' = sched_num_threads s - 1"
    by (rule sched_task_exit_exits [OF assms]) (rule that)
  have "t \<notin> set (?L l)" for l
    using kinv_waiter [OF s'(2), of t l] kinv_in_runqueue [OF s'(2), of t] s'(6) by (cases l) auto
  then show ?thesis using s' by (intro exI [of _ s'] exI [of _ ?L]) (auto simp: switch_pending_def)
qed

theorem sched_task_exit_removes_witness:
  "\<exists>s' L'. sched_task_exit demo = Inr s' \<and> kinv s' L' \<and> sched_active_thread s' = None \<and>
    switch_pending s' \<and> mie s' \<and> (\<forall>u. live s' u \<longleftrightarrow> live demo u \<and> u \<noteq> 200) \<and> (\<forall>l. 200 \<notin> set (L' l)) \<and>
    (\<forall>u. u \<noteq> 200 \<longrightarrow> tcb s' u = tcb demo u) \<and> sched_num_threads s' = sched_num_threads demo - 1"
  using sched_task_exit_removes [OF demo_kinv demo_context] .

end
