(* ===== verification/Thread.thy ===== *)
theory Thread
  imports Sched
begin

text \<open>
  Threads (\<open>core/thread.c\<close>): look-up, sleep and wake-up, insertion into a list of waiting
  threads by priority, and creation. Then \<open>kernel_init\<close> of \<open>core/kernel_init.c\<close>, which creates
  the idle thread and the main thread and starts the scheduler.
\<close>

section \<open>The operations\<close>

definition EINVAL :: int where "EINVAL = 22"
definition EOVERFLOW :: int where "EOVERFLOW = 75"
definition STATUS_NOT_FOUND :: int where "STATUS_NOT_FOUND = -1"

text \<open>The number of a status in the enumeration.\<close>

fun status_code :: "thread_status_t \<Rightarrow> int" where
  "status_code STATUS_STOPPED = 0"
| "status_code STATUS_SLEEPING = 1"
| "status_code STATUS_MUTEX_BLOCKED = 2"
| "status_code STATUS_RECEIVE_BLOCKED = 3"
| "status_code STATUS_SEND_BLOCKED = 4"
| "status_code STATUS_REPLY_BLOCKED = 5"
| "status_code STATUS_FLAG_BLOCKED_ANY = 6"
| "status_code STATUS_FLAG_BLOCKED_ALL = 7"
| "status_code STATUS_MBOX_BLOCKED = 8"
| "status_code STATUS_COND_BLOCKED = 9"
| "status_code STATUS_RUNNING = 10"
| "status_code STATUS_PENDING = 11"

definition thread_get :: "kernel \<Rightarrow> int \<Rightarrow> tid option" where
  "thread_get s p = (if pid_is_valid p then sched_threads s p else None)"

definition thread_getstatus :: "kernel \<Rightarrow> int \<Rightarrow> int" where
  "thread_getstatus s p =
     (case thread_get s p of Some t \<Rightarrow> status_code (status (tcb s t)) | None \<Rightarrow> STATUS_NOT_FOUND)"

definition thread_sleep :: "kernel \<Rightarrow> fault + kernel" where
  "thread_sleep s =
     (if irq_is_in s then Inr s
      else
        let (s, state) = irq_disable s in
        bindE (active_thread s) (\<lambda>t.
        bindE (sched_set_status s t STATUS_SLEEPING) (\<lambda>s.
          Inr (thread_yield_higher (irq_restore state s)))))"

definition thread_wakeup :: "kernel \<Rightarrow> int \<Rightarrow> fault + (kernel \<times> int)" where
  "thread_wakeup s p =
     (let (s, old_state) = irq_disable s in
      case thread_get s p of
        None \<Rightarrow> Inr (irq_restore old_state s, STATUS_NOT_FOUND)
      | Some thread \<Rightarrow>
          if status (tcb s thread) = STATUS_SLEEPING then
            bindE (sched_set_status s thread STATUS_RUNNING) (\<lambda>s.
            let s = irq_restore old_state s in
            bindE (sched_switch s (priority (tcb s thread))) (\<lambda>s. Inr (s, 1)))
          else Inr (irq_restore old_state s, STATUS_NOT_FOUND))"

text \<open>
  The loop of \<open>thread_add_to_list\<close> stops at the node after which the new one goes: the list
  ends there or its next thread is less urgent.
\<close>

partial_function (option) add_to_list_from :: "kernel \<Rightarrow> nat \<Rightarrow> node \<Rightarrow> (fault + node) option" where
  "add_to_list_from s my_prio list =
     (if links s list = Null then Some (Inr list)
      else case thread_of (links s list) of
             Inl e \<Rightarrow> Some (Inl e)
           | Inr list_entry \<Rightarrow>
               if my_prio < priority (tcb s list_entry) then Some (Inr list)
               else add_to_list_from s my_prio (RqEntry list_entry))"

definition thread_add_to_list :: "kernel \<Rightarrow> node \<Rightarrow> tid \<Rightarrow> fault + kernel" where
  "thread_add_to_list s list thread =
     (if on_runqueue (status (tcb s thread)) then Inl AssertFail
      else case add_to_list_from s (priority (tcb s thread)) list of
             None \<Rightarrow> Inl NoReturn
           | Some (Inl e) \<Rightarrow> Inl e
           | Some (Inr list) \<Rightarrow>
               let h1 = (links s)(RqEntry thread := links s list);
                   h2 = h1(list := Ptr (RqEntry thread))
               in Inr (s\<lparr>links := h2\<rparr>))"

text \<open>
  Creation. Sizes and alignments are those of the compiler, so they are arguments. The stack
  itself (its markers and the first frame) is not part of the kernel state.
\<close>

record abi_t =
  align_of_ptr :: int
  align_of_thread :: int
  sizeof_thread :: int

definition thread_create_at :: "abi_t \<Rightarrow> int \<Rightarrow> int \<Rightarrow> tid" where
  "thread_create_at abi stack stacksize =
     (let misalignment = stack mod align_of_ptr abi;
          (stack, stacksize) =
            (if misalignment \<noteq> 0
             then (stack + (align_of_ptr abi - misalignment),
                   stacksize - (align_of_ptr abi - misalignment))
             else (stack, stacksize));
          stacksize = stacksize - sizeof_thread abi;
          stacksize = stacksize - stacksize mod align_of_thread abi
      in stack + stacksize)"

record create_flags =
  CREATE_SLEEPING :: bool
  CREATE_WOUT_YIELD :: bool

text \<open>The first free process identifier, \<open>KERNEL_PID_UNDEF\<close> if there is none.\<close>

definition free_pid :: "kernel \<Rightarrow> int" where
  "free_pid s =
     (case find (\<lambda>i. sched_threads s i = None) [KERNEL_PID_FIRST..KERNEL_PID_LAST] of
        None \<Rightarrow> KERNEL_PID_UNDEF | Some i \<Rightarrow> i)"

definition thread_init :: "int \<Rightarrow> nat \<Rightarrow> cib_t \<Rightarrow> thread_t \<Rightarrow> thread_t" where
  "thread_init p prio q th =
     th\<lparr>pid := p, priority := prio, status := STATUS_STOPPED, wait_data := NoData,
        msg_queue := q, msg_array := None\<rparr>"

definition thread_new :: "tid \<Rightarrow> int \<Rightarrow> nat \<Rightarrow> cib_t \<Rightarrow> kernel \<Rightarrow> kernel" where
  "thread_new thread p prio q s =
     (let s = s\<lparr>sched_threads := (sched_threads s)(p \<mapsto> thread)\<rparr>;
          s = upd_thread thread (thread_init p prio q) s
      in s\<lparr>links := (links s)(RqEntry thread := Null, MsgWaiters thread := Null),
           sched_num_threads := sched_num_threads s + 1\<rparr>)"

definition thread_create_with_fp ::
  "abi_t \<Rightarrow> kernel \<Rightarrow> int \<Rightarrow> int \<Rightarrow> u8 \<Rightarrow> create_flags \<Rightarrow> fault + (kernel \<times> int)" where
  "thread_create_with_fp abi s stack stacksize prio cflags =
     (if SCHED_PRIO_LEVELS \<le> unat prio then Inr (s, - EINVAL)
      else
        let thread = thread_create_at abi stack stacksize;
            (s, state) = irq_disable s;
            p = free_pid s in
        if p = KERNEL_PID_UNDEF then Inr (irq_restore state s, - EOVERFLOW)
        else
          bindE (cib_init 0) (\<lambda>q.
          let s = thread_new thread p (unat prio) q s in
          if CREATE_SLEEPING cflags then
            bindE (sched_set_status s thread STATUS_SLEEPING) (\<lambda>s. Inr (irq_restore state s, p))
          else
            bindE (sched_set_status s thread STATUS_PENDING) (\<lambda>s.
              if \<not> CREATE_WOUT_YIELD cflags then
                bindE (sched_switch (irq_restore state s) (unat prio)) (\<lambda>s. Inr (s, p))
              else Inr (irq_restore state s, p))))"

definition thread_create ::
  "abi_t \<Rightarrow> kernel \<Rightarrow> int \<Rightarrow> int \<Rightarrow> u8 \<Rightarrow> create_flags \<Rightarrow> fault + (kernel \<times> int)" where
  "thread_create abi s stack stacksize prio cflags =
     thread_create_with_fp abi s stack stacksize prio cflags"

definition kernel_init ::
  "abi_t \<Rightarrow> int \<Rightarrow> int \<Rightarrow> int \<Rightarrow> int \<Rightarrow> kernel \<Rightarrow> fault + kernel" where
  "kernel_init abi idle_stack idle_size main_stack main_size s =
     (let (s, _) = irq_disable s; cf = \<lparr>CREATE_SLEEPING = False, CREATE_WOUT_YIELD = True\<rparr> in
      bindE (thread_create abi s idle_stack idle_size (of_nat THREAD_PRIORITY_IDLE) cf) (\<lambda>(s, _).
      bindE (thread_create abi s main_stack main_size (of_nat THREAD_PRIORITY_MAIN) cf) (\<lambda>(s, _).
        cpu_switch_context_exit s)))"

section \<open>Lists of waiting threads are sorted by priority\<close>

text \<open>The thread goes behind every thread that is at least as urgent.\<close>

definition insert_waiter :: "kernel \<Rightarrow> tid \<Rightarrow> tid list \<Rightarrow> tid list" where
  "insert_waiter s t ts =
     takeWhile (\<lambda>u. priority (tcb s u) \<le> priority (tcb s t)) ts @ t #
     dropWhile (\<lambda>u. priority (tcb s u) \<le> priority (tcb s t)) ts"

lemma set_insert_waiter [simp]: "set (insert_waiter s t ts) = insert t (set ts)"
proof -
  have "set ts = set (takeWhile P ts) \<union> set (dropWhile P ts)" for P
    by (metis set_append takeWhile_dropWhile_id)
  then show ?thesis unfolding insert_waiter_def by auto
qed

lemma insert_waiter_cong:
  "(\<And>u. priority (tcb s' u) = priority (tcb s u)) \<Longrightarrow> insert_waiter s' t ts = insert_waiter s t ts"
  by (simp add: insert_waiter_def)

lemma insert_waiter_sorted:
  "sorted (map (\<lambda>u. priority (tcb s u)) ts) \<Longrightarrow> sorted (map (\<lambda>u. priority (tcb s u)) (insert_waiter s t ts))"
proof (induction ts)
  case Nil
  then show ?case by (simp add: insert_waiter_def)
next
  case (Cons u ts)
  have "insert_waiter s t (u # ts) =
      (if priority (tcb s u) \<le> priority (tcb s t) then u # insert_waiter s t ts else t # u # ts)"
    by (simp add: insert_waiter_def)
  with Cons show ?case by (auto simp: less_imp_le intro: order_trans)
qed

lemma add_to_list_from_stop:
  assumes "chain (links s) (links s l) (map RqEntry ts) Null"
  shows "add_to_list_from s q l =
           Some (Inr (last (l # map RqEntry (takeWhile (\<lambda>u. priority (tcb s u) \<le> q) ts))))"
  using assms
proof (induction ts arbitrary: l)
  case Nil
  then show ?case by (subst add_to_list_from.simps) simp
next
  case (Cons u ts)
  then have "add_to_list_from s q (RqEntry u) =
      Some (Inr (last (RqEntry u # map RqEntry (takeWhile (\<lambda>u. priority (tcb s u) \<le> q) ts))))"
    by simp
  with Cons.prems show ?case by (subst add_to_list_from.simps) auto
qed

lemma thread_add_to_list_inserts:
  assumes sl: "slist (links s) l (map RqEntry ts)" and new: "RqEntry t \<notin> set (l # map RqEntry ts)"
    and off: "\<not> on_runqueue (status (tcb s t))"
  obtains h where "thread_add_to_list s l t = Inr (s\<lparr>links := h\<rparr>)"
    and "slist h l (map RqEntry (insert_waiter s t ts))"
    and "\<And>m. m \<noteq> l \<Longrightarrow> m \<notin> RqEntry ` insert t (set ts) \<Longrightarrow> h m = links s m"
proof -
  let ?P = "\<lambda>u. priority (tcb s u) \<le> priority (tcb s t)"
  let ?as = "map RqEntry (takeWhile ?P ts)" and ?bs = "map RqEntry (dropWhile ?P ts)"
  let ?h = "list_add (links s) (last (l # ?as)) (RqEntry t)"
  have ab: "map RqEntry ts = ?as @ ?bs" by (metis map_append takeWhile_dropWhile_id)
  have "thread_add_to_list s l t = Inr (s\<lparr>links := ?h\<rparr>)"
    using sl off add_to_list_from_stop [of s l ts "priority (tcb s t)"]
    by (simp add: thread_add_to_list_def slist_def list_add_def Let_def)
  moreover have "slist ?h l (map RqEntry (insert_waiter s t ts))"
    using list_add_slist [of "links s" l ?as ?bs "RqEntry t"] sl new ab
    by (simp add: insert_waiter_def)
  moreover have "?h m = links s m" if "m \<noteq> l" "m \<notin> RqEntry ` insert t (set ts)" for m
  proof -
    have "last (l # ?as) \<in> insert l (RqEntry ` set ts)"
      using last_in_set [of ?as] set_takeWhileD [of _ ?P ts] by (cases "?as = []") auto
    then show ?thesis using that by (auto simp: list_add_def Let_def)
  qed
  ultimately show thesis by (rule that)
qed

text \<open>A blocked thread that is in no list joins a list of waiting threads.\<close>

lemma kinv_add_waiter:
  assumes inv: "kinv s L" and wl: "\<not> is_runqueue l" "\<not> is_entry l" and tag: "links s l \<noteq> Tagged"
    and t: "live s t" "status (tcb s t) \<in> waiting_status l" and free: "\<And>l. t \<notin> set (L l)"
    and reader: "\<forall>m. l = MboxReaders m \<longrightarrow> is_msg (wait_data (tcb s t))"
  obtains h where "thread_add_to_list s l t = Inr (s\<lparr>links := h\<rparr>)"
    and "kinv (s\<lparr>links := h\<rparr>) (L(l := insert_waiter s t (L l)))" and "h l \<noteq> Null" and "h l \<noteq> Tagged"
    and "\<And>m. m \<noteq> l \<Longrightarrow> \<not> is_entry m \<Longrightarrow> h m = links s m"
proof -
  have sl: "slist (links s) l (map RqEntry (L l))"
    using queue_at_wait [of l "links s"] wl tag kinv_queue_at [OF inv] by blast
  have off: "\<not> on_runqueue (status (tcb s t))" using waiting_not_on_runqueue t(2) by blast
  have "RqEntry t \<notin> set (l # map RqEntry (L l))" using free wl(2) by auto
  from thread_add_to_list_inserts [OF sl this off] obtain h where
    h: "thread_add_to_list s l t = Inr (s\<lparr>links := h\<rparr>)"
       "slist h l (map RqEntry (insert_waiter s t (L l)))"
       "\<And>m. m \<noteq> l \<Longrightarrow> m \<notin> RqEntry ` insert t (set (L l)) \<Longrightarrow> h m = links s m"
    by blast
  let ?s = "s\<lparr>links := h\<rparr>" and ?L = "L(l := insert_waiter s t (L l))"
  have nrq: "l \<noteq> RunQueue p" "RunQueue p \<noteq> l" for p using wl by auto
  have "insert_waiter s t (L l) \<noteq> []" by (simp add: insert_waiter_def)
  then have hl: "h l \<noteq> Null \<and> h l \<noteq> Tagged" using h(2)
    by (cases "insert_waiter s t (L l)") (auto simp: slist_def)
  have "kinv ?s ?L"
    unfolding kinv_def
  proof (intro conjI)
    show "layout_ok (links ?s) ?L"
    proof (rule layout_update [where h = "links s"])
      show "layout_ok (links s) L" using inv by (simp add: kinv_def)
      show "queue_at (links ?s) l (insert_waiter s t (L l))"
        using h(2) hl queue_at_wait [OF wl] by simp
      show "u \<notin> set (L l')" if "u \<in> set (insert_waiter s t (L l))" "l' \<noteq> l" for u l'
        using kinv_disjoint [OF inv, of u l' l] that free by auto
    qed (use h wl in auto)
    show "threads_ok ?s" "active_ok ?s ?L" "cache_ok ?s ?L" "runq_ok ?s ?L"
      using inv nrq by (simp_all add: kinv_def threads_ok_def active_ok_def cache_ok_def runq_ok_def)
    show "waiters_ok ?s ?L"
      using kinv_waiters_ok [OF inv] t insert_waiter_sorted [of s "L l" t] by (auto simp: waiters_ok_def)
    show "data_ok ?s ?L"
      using kinv_data_ok [OF inv] reader by (auto simp: data_ok_def)
  qed
  moreover have "h m = links s m" if "m \<noteq> l" "\<not> is_entry m" for m
    using h(3) [of m] that by (cases m) auto
  ultimately show thesis using h(1) hl by (intro that [of h]) auto
qed

text \<open>The active thread, head of its run queue, blocks and joins a list of waiting threads.\<close>

lemma block_on_list:
  assumes inv: "kinv s L" and act: "sched_active_thread s = Some t"
    and on: "on_runqueue (status (tcb s t))" and head: "L (RunQueue (priority (tcb s t))) = t # ts"
    and l: "\<not> is_runqueue l" "\<not> is_entry l" "links s l \<noteq> Tagged" and st: "st \<in> waiting_status l"
    and fits: "data_fits st (wait_data (tcb s t))"
    and reader: "\<forall>m. l = MboxReaders m \<longrightarrow> is_msg (wait_data (tcb s t))"
  defines "L' \<equiv> L(RunQueue (priority (tcb s t)) := ts, l := insert_waiter s t (L l))"
  obtains s1 s2 h b where "sched_set_status s t st = Inr s1" and "thread_add_to_list s1 l t = Inr s2"
    and "s2 = upd_thread t (set_status st) (s\<lparr>links := h, runqueue_bitcache := b\<rparr>)" and "kinv s2 L'"
    and "\<And>m. m \<noteq> l \<Longrightarrow> \<not> is_runqueue m \<Longrightarrow> \<not> is_entry m \<Longrightarrow> h m = links s m"
proof -
  let ?L = "L(RunQueue (priority (tcb s t)) := ts)"
  have off: "\<not> on_runqueue st" by (rule waiting_not_on_runqueue [OF st])
  obtain s1 h b where s1: "sched_set_status s t st = Inr s1"
    "s1 = upd_thread t (set_status st) (s\<lparr>links := h, runqueue_bitcache := b\<rparr>)"
    "kinv s1 ?L" "\<And>l. t \<notin> set (?L l)"
    "\<And>l. \<not> is_runqueue l \<Longrightarrow> \<not> is_entry l \<Longrightarrow> h l = links s l"
    by (rule sched_set_status_block [OF inv act on off fits head]) (rule that)
  have reader': "\<forall>m. l = MboxReaders m \<longrightarrow> is_msg (wait_data (tcb s1 t))"
    using reader by (simp add: s1(2))
  have 2: "links s1 l \<noteq> Tagged" "live s1 t" "status (tcb s1 t) \<in> waiting_status l"
    using s1(5) [OF l(1,2)] l(3) st kinv_active(1) [OF inv act] by (simp_all add: s1(2))
  have ins: "insert_waiter s1 t (?L l) = insert_waiter s t (L l)"
    using l(1) by (simp, intro insert_waiter_cong) (simp add: s1(2))
  obtain h' where h': "thread_add_to_list s1 l t = Inr (s1\<lparr>links := h'\<rparr>)" "kinv (s1\<lparr>links := h'\<rparr>) L'"
    "\<And>m. m \<noteq> l \<Longrightarrow> \<not> is_entry m \<Longrightarrow> h' m = links s1 m"
    by (rule kinv_add_waiter [where L = ?L, OF s1(3) l(1,2) 2 s1(4) reader', unfolded ins, folded L'_def]) (rule that)
  have "s1\<lparr>links := h'\<rparr> = upd_thread t (set_status st) (s\<lparr>links := h', runqueue_bitcache := b\<rparr>)"
    by (simp add: s1(2) upd_thread_def)
  moreover have "h' m = links s m" if "m \<noteq> l" "\<not> is_runqueue m" "\<not> is_entry m" for m
    using h'(3) [OF that(1,3)] s1(5) [OF that(2,3)] by (simp add: s1(2))
  ultimately show thesis by (rule that [OF s1(1) h'(1) _ h'(2)])
qed

section \<open>Sleep and wake-up\<close>

lemma thread_get_irq [simp]: "thread_get (s\<lparr>mie := b\<rparr>) p = thread_get s p"
  by (simp add: thread_get_def)

lemma thread_get_live: "thread_get s p = Some t \<Longrightarrow> live s t"
  by (auto simp: thread_get_def live_def split: if_splits)

text \<open>The active thread blocks while interrupts are off.\<close>

lemma block_active:
  assumes inv: "kinv s L" and ctx: "thread_context s t" and off: "\<not> on_runqueue st"
    and fits: "data_fits st (wait_data (tcb s t))"
  defines "L' \<equiv> L(RunQueue (priority (tcb s t)) := tl (L (RunQueue (priority (tcb s t)))))"
  obtains s1 h b where "sched_set_status (s\<lparr>mie := False\<rparr>) t st = Inr s1"
    and "s1 = upd_thread t (set_status st) (s\<lparr>mie := False, links := h, runqueue_bitcache := b\<rparr>)"
    and "kinv s1 L'" and "\<And>l. t \<notin> set (L' l)" and "live s1 t"
    and "\<And>l. \<not> is_runqueue l \<Longrightarrow> \<not> is_entry l \<Longrightarrow> h l = links s l"
proof -
  let ?s = "s\<lparr>mie := False\<rparr>"
  note c = thread_contextD [OF ctx]
  obtain ts where ts: "L (RunQueue (priority (tcb s t))) = t # ts"
    using kinv_active(3) [OF inv c(1) c(2) c(6)] by auto
  have "kinv ?s L" "sched_active_thread ?s = Some t" "on_runqueue (status (tcb ?s t))"
    "data_fits st (wait_data (tcb ?s t))" "L (RunQueue (priority (tcb ?s t))) = t # ts"
    and pr: "priority (tcb ?s t) = priority (tcb s t)"
    and L': "L(RunQueue (priority (tcb s t)) := ts) = L'"
    using inv c ts fits by (simp_all add: L'_def)
  note block = sched_set_status_block [OF this(1-3) off this(4,5), unfolded pr L']
  obtain s1 h b where s1: "sched_set_status ?s t st = Inr s1"
    "s1 = upd_thread t (set_status st) (?s\<lparr>links := h, runqueue_bitcache := b\<rparr>)"
    "kinv s1 L'" "\<And>l. t \<notin> set (L' l)" "\<And>l. \<not> is_runqueue l \<Longrightarrow> \<not> is_entry l \<Longrightarrow> h l = links ?s l"
    by (rule block) (rule that)
  have "live s1 t" using kinv_active(1) [OF inv c(1)] by (simp add: s1(2))
  moreover have "h l = links s l" if "\<not> is_runqueue l" "\<not> is_entry l" for l
    using s1(5) [OF that] by simp
  ultimately show thesis by (rule that [OF s1(1-4)])
qed

lemma thread_sleep_sleeps:
  assumes inv: "kinv s L" and ctx: "thread_context s t"
  obtains s' where "thread_sleep s = Inr s'"
    and "kinv s' (L(RunQueue (priority (tcb s t)) := tl (L (RunQueue (priority (tcb s t))))))"
    and "status (tcb s' t) = STATUS_SLEEPING" and "msip s'" and "mie s'" and "\<And>u. u \<noteq> t \<Longrightarrow> tcb s' u = tcb s u"
    and "sched_active_thread s' = Some t" and "in_isr s' = in_isr s" and "sched_threads s' = sched_threads s \<and> same_queues s s'"
proof -
  note c = thread_contextD [OF ctx]
  obtain s1 h b where
    s1: "sched_set_status (s\<lparr>mie := False\<rparr>) t STATUS_SLEEPING = Inr s1"
    "s1 = upd_thread t (set_status STATUS_SLEEPING) (s\<lparr>mie := False, links := h, runqueue_bitcache := b\<rparr>)"
    "kinv s1 (L(RunQueue (priority (tcb s t)) := tl (L (RunQueue (priority (tcb s t))))))"
    by (rule block_active [OF inv ctx, of STATUS_SLEEPING], simp, simp) (rule that)
  have "thread_sleep s = Inr (s1\<lparr>mie := True, msip := True\<rparr>)"
    using c s1(1)
    by (simp add: thread_sleep_def irq_is_in_def irq_disable_def thread_yield_higher_def)
  moreover have "kinv (s1\<lparr>mie := True, msip := True\<rparr>)
      (L(RunQueue (priority (tcb s t)) := tl (L (RunQueue (priority (tcb s t))))))"
    by (rule kinv_yield) (simp add: s1(3))
  ultimately show thesis by (rule that) (simp_all add: s1(2) c)
qed

lemma thread_wakeup_wakes:
  assumes inv: "kinv s L" and prio: "prio_ok s" and act: "sched_active_thread s = Some a"
    and t: "thread_get s p = Some t" "status (tcb s t) = STATUS_SLEEPING" and at: "a \<noteq> t \<or> switch_pending s"
  defines "q \<equiv> priority (tcb s t)"
  obtains s' where "thread_wakeup s p = Inr (s', 1)" and "status (tcb s' t) = STATUS_RUNNING"
    and "kinv s' (L(RunQueue q := L (RunQueue q) @ [t]))" and "prio_ok s'"
    and "\<And>u. u \<noteq> t \<Longrightarrow> tcb s' u = tcb s u" and "mie s' = mie s" and "in_isr s' = in_isr s"
    and "sched_active_thread s' = Some a" and "sched_threads s' = sched_threads s \<and> same_queues s s'"
proof -
  let ?s = "s\<lparr>mie := False\<rparr>"
  have live: "live s t" by (rule thread_get_live [OF t(1)])
  have free: "t \<notin> set (L l)" for l
    using kinv_waiter [OF inv, of t l] kinv_in_runqueue [OF inv, of t] t(2) by (cases l) auto
  have *: "kinv ?s L" "prio_ok ?s" "live ?s t" "\<not> on_runqueue (status (tcb ?s t))"
    "on_runqueue STATUS_RUNNING" "sched_active_thread ?s = Some a" "a \<noteq> t \<or> switch_pending ?s"
    "q \<le> priority (tcb ?s t)" "priority (tcb ?s t) = q"
    using inv prio live t(2) act at by (simp_all add: q_def)
  obtain s1 s2 h b' where w: "sched_set_status ?s t STATUS_RUNNING = Inr s1"
    "s1 = upd_thread t (set_status STATUS_RUNNING) (?s\<lparr>links := h, runqueue_bitcache := b'\<rparr>)"
    "sched_switch (s1\<lparr>mie := mie s\<rparr>) q = Inr s2"
    "kinv s2 (L(RunQueue q := L (RunQueue q) @ [t]))" "prio_ok s2" "only_requests (s1\<lparr>mie := mie s\<rparr>) s2"
    by (rule wake_switch [OF *(1-5) free *(6-8), of "mie s", unfolded *(9)]) (rule that)
  have "thread_wakeup s p = Inr (s2, 1)"
    using t w(1,3)
    by (simp add: thread_wakeup_def irq_disable_def Let_def) (simp add: w(2) q_def)
  moreover have "tcb s2 = tcb s1" "mie s2 = mie s" "in_isr s2 = in_isr s" "sched_active_thread s2 = Some a"
    "sched_threads s2 = sched_threads s \<and> same_queues s s2"
    using w(6) act by (auto simp: only_requests_def w(2))
  ultimately show thesis using w(4,5) by (intro that [of s2]) (simp_all add: w(2))
qed

lemma thread_wakeup_not_sleeping:
  assumes "thread_get s p = None \<or> (\<exists>t. thread_get s p = Some t \<and> status (tcb s t) \<noteq> STATUS_SLEEPING)"
  shows "thread_wakeup s p = Inr (s, STATUS_NOT_FOUND)"
  using assms by (auto simp: thread_wakeup_def irq_disable_def thread_get_def)

section \<open>Creation\<close>

lemma thread_new_simps [simp]:
  "tcb (thread_new t p pr q s) = (tcb s)(t := thread_init p pr q (tcb s t))"
  "links (thread_new t p pr q s) = (links s)(RqEntry t := Null, MsgWaiters t := Null)"
  "sched_threads (thread_new t p pr q s) = (sched_threads s)(p \<mapsto> t)"
  "sched_num_threads (thread_new t p pr q s) = sched_num_threads s + 1"
  "sched_active_thread (thread_new t p pr q s) = sched_active_thread s"
  "sched_active_pid (thread_new t p pr q s) = sched_active_pid s"
  "runqueue_bitcache (thread_new t p pr q s) = runqueue_bitcache s"
  "mie (thread_new t p pr q s) = mie s" "msip (thread_new t p pr q s) = msip s"
  "in_isr (thread_new t p pr q s) = in_isr s"
  "switch_pending (thread_new t p pr q s) = switch_pending s"
  by (simp_all add: thread_new_def Let_def switch_pending_def)

lemma thread_init_simps [simp]:
  "status (thread_init p pr q th) = STATUS_STOPPED" "priority (thread_init p pr q th) = pr"
  "pid (thread_init p pr q th) = p" "flags (thread_init p pr q th) = flags th"
  "wait_data (thread_init p pr q th) = NoData" "msg_queue (thread_init p pr q th) = q"
  "msg_array (thread_init p pr q th) = None"
  by (simp_all add: thread_init_def)

lemma kinv_dead: "kinv s L \<Longrightarrow> \<not> live s t \<Longrightarrow> t \<notin> set (L l)"
  using kinv_waiter [of s L t l] kinv_in_runqueue [of s L t] by (cases l) auto

lemma layout_ok_entry:
  assumes lay: "layout_ok h L" and free: "\<And>l. t \<notin> set (L l)"
  shows "layout_ok (h(RqEntry t := v)) L"
proof -
  have "queue_at (h(RqEntry t := v)) l (L l)" for l
  proof (cases "is_entry l")
    case True
    then obtain u where "l = RqEntry u" by (cases l) auto
    moreover have "queue_at h l (L l)" using lay by (simp add: layout_ok_def)
    ultimately show ?thesis by simp
  next
    case False
    show ?thesis
      by (rule queue_at_cong [where h = h]) (use lay free False in \<open>auto simp: layout_ok_def\<close>)
  qed
  with lay show ?thesis by (simp add: layout_ok_def)
qed

lemma kinv_new_thread:
  assumes inv: "kinv s L" and dead: "\<not> live s t" and p: "sched_threads s p = None" "pid_is_valid p"
    and pr: "pr < SCHED_PRIO_LEVELS"
  shows "kinv (thread_new t p pr q s) (L(MsgWaiters t := []))" (is "kinv ?s ?L")
    and "live (thread_new t p pr q s) u \<longleftrightarrow> live s u \<or> u = t"
proof -
  show live': "live ?s u \<longleftrightarrow> live s u \<or> u = t" for u
  proof
    assume "live ?s u"
    then show "live s u \<or> u = t" by (auto simp: live_def split: if_splits)
  next
    assume "live s u \<or> u = t"
    then show "live ?s u"
    proof
      assume "live s u"
      then obtain r where "sched_threads s r = Some u" by (auto simp: live_def)
      moreover from this have "r \<noteq> p" using p by auto
      ultimately show "live ?s u" by (auto simp: live_def)
    qed (auto simp: live_def)
  qed
  have free: "t \<notin> set (L l)" for l by (rule kinv_dead [OF inv dead])
  have act: "sched_active_thread s \<noteq> Some t" using kinv_active(1) [OF inv] dead by blast
  show "kinv ?s ?L"
    unfolding kinv_def
  proof (intro conjI)
    show "layout_ok (links ?s) ?L"
    proof (rule layout_update [where h = "(links s)(RqEntry t := Null)"])
      show "layout_ok ((links s)(RqEntry t := Null)) L"
        using inv free by (intro layout_ok_entry) (simp_all add: kinv_def)
    qed (simp_all add: slist_def)
    show "threads_ok ?s"
      using inv p pr dead by (auto simp: kinv_def threads_ok_def live_def)
    show "runq_ok ?s ?L"
      using kinv_in_runqueue [OF inv] live' dead free by (auto simp: runq_ok_def)
    show "cache_ok ?s ?L" using kinv_bitcache [OF inv] by (simp add: cache_ok_def)
    show "waiters_ok ?s ?L"
      by (rule waiters_ok_change [OF kinv_waiters_ok [OF inv]])
        (use live' free kinv_waiter [OF inv] in auto)
    show "active_ok ?s ?L"
      using kinv_active [OF inv] act live' inv unfolding active_ok_def kinv_def by simp
    show "data_ok ?s ?L"
      using kinv_data_ok [OF inv] live' free by (auto simp: data_ok_def)
  qed
qed

lemma free_pid_free:
  assumes "free_pid s \<noteq> KERNEL_PID_UNDEF"
  shows "sched_threads s (free_pid s) = None" and "pid_is_valid (free_pid s)"
    and "\<And>p. pid_is_valid p \<Longrightarrow> sched_threads s p = None \<Longrightarrow> free_pid s \<le> p"
proof -
  let ?ps = "[KERNEL_PID_FIRST..KERNEL_PID_LAST]"
  obtain i where f: "find (\<lambda>i. sched_threads s i = None) ?ps = Some i" "free_pid s = i"
    using assms by (auto simp: free_pid_def split: option.splits)
  from f(1) obtain k where k: "k < length ?ps" "sched_threads s (?ps ! k) = None" "i = ?ps ! k"
      "\<forall>j<k. \<not> sched_threads s (?ps ! j) = None"
    unfolding find_Some_iff by blast
  then have i: "i = KERNEL_PID_FIRST + int k" by (simp add: nth_upto)
  show "sched_threads s (free_pid s) = None" using k f by simp
  show "pid_is_valid (free_pid s)" using k f by (simp add: pid_is_valid_def nth_upto)
  show "free_pid s \<le> p" if "pid_is_valid p" "sched_threads s p = None" for p
  proof (rule ccontr)
    assume "\<not> free_pid s \<le> p"
    then have "nat (p - KERNEL_PID_FIRST) < k" using i f that by (auto simp: pid_is_valid_def)
    moreover have "?ps ! nat (p - KERNEL_PID_FIRST) = p"
      using that by (auto simp: pid_is_valid_def nth_upto)
    ultimately show False using k(4) that by metis
  qed
qed


lemma thread_create_errors:
  "SCHED_PRIO_LEVELS \<le> unat prio \<Longrightarrow> thread_create_with_fp abi s stack sz prio cf = Inr (s, - EINVAL)"
  "unat prio < SCHED_PRIO_LEVELS \<Longrightarrow> free_pid s = KERNEL_PID_UNDEF \<Longrightarrow>
     thread_create_with_fp abi s stack sz prio cf = Inr (s, - EOVERFLOW)"
  by (simp_all add: thread_create_with_fp_def irq_disable_def free_pid_def Let_def)

lemma cib_init_0 [simp]: "cib_init 0 = Inr (CIB_INIT 0)"
  by (simp add: cib_init_def)

lemma free_pid_irq [simp]: "free_pid (s\<lparr>mie := b\<rparr>) = free_pid s"
  by (simp add: free_pid_def)

lemma cib_inv_0 [simp]: "cib_inv (CIB_INIT 0)" "cib_size (CIB_INIT 0) = 0"
  by (simp_all add: cib_inv_def cib_size_def CIB_INIT_def cib_avail_def)

lemma queues_ok_new_thread:
  assumes "queues_ok s" and "\<And>u. live (thread_new t p pr (CIB_INIT 0) s) u \<longleftrightarrow> live s u \<or> u = t"
  shows "queues_ok (thread_new t p pr (CIB_INIT 0) s)"
proof -
  have "mboxes (thread_new t p pr (CIB_INIT 0) s) = mboxes s" by (simp add: thread_new_def Let_def)
  then show ?thesis using assms by (auto simp: queues_ok_def thread_queue_ok_def)
qed

lemma prio_ok_new_thread:
  assumes "kinv s L" and "\<not> live s t" and "sched_threads s p = None" "pid_is_valid p"
    and "pr < SCHED_PRIO_LEVELS" and "prio_ok s"
  shows "prio_ok (thread_new t p pr q s)"
proof -
  have "runnable (thread_new t p pr q s) u = runnable s u" for u
    using kinv_new_thread(2) [OF assms(1-5)] assms(2) by (auto simp: runnable_def)
  moreover have "priority (tcb (thread_new t p pr q s) u) = priority (tcb s u)" if "runnable s u" for u
    using that assms(2) by (auto simp: runnable_def)
  ultimately show ?thesis by (intro prio_ok_cong [OF assms(6)]) simp_all
qed

text \<open>
  With a free process identifier, a valid priority and a control block that no thread uses, the
  new thread exists afterwards under the smallest free identifier, at the end of its run queue.
\<close>

lemma thread_create_creates:
  assumes inv: "kinv s L" and prio: "prio_ok s" and act: "sched_active_thread s = Some a"
    and pr: "unat pr < SCHED_PRIO_LEVELS" and p: "free_pid s \<noteq> KERNEL_PID_UNDEF"
    and t: "t = thread_create_at abi stack sz" "\<not> live s t"
    and cf: "\<not> CREATE_SLEEPING cf" "\<not> CREATE_WOUT_YIELD cf"
  obtains s' where "thread_create_with_fp abi s stack sz pr cf = Inr (s', free_pid s)"
    and "kinv s' (L(MsgWaiters t := [], RunQueue (unat pr) := L (RunQueue (unat pr)) @ [t]))"
    and "prio_ok s'" and "thread_get s' (free_pid s) = Some t" and "status (tcb s' t) = STATUS_PENDING"
    and "priority (tcb s' t) = unat pr" and "mie s' = mie s"
    and "in_isr s' = in_isr s" and "sched_active_thread s' = Some a"
    and "\<And>u. u \<noteq> t \<Longrightarrow> tcb s' u = tcb s u" and "\<And>u. live s' u \<longleftrightarrow> live s u \<or> u = t"
    and "queues_ok s \<Longrightarrow> queues_ok s'"
proof -
  let ?s = "s\<lparr>mie := False\<rparr>"
  let ?n = "thread_new t (free_pid s) (unat pr) (CIB_INIT 0) ?s"
  note fp = free_pid_free [OF p]
  have s0: "kinv ?s L" "\<not> live ?s t" "sched_threads ?s (free_pid s) = None" "pid_is_valid (free_pid s)"
    using inv t(2) fp by simp_all
  note new = kinv_new_thread [OF s0 pr, of "CIB_INIT 0"]
  have q: "queues_ok s \<Longrightarrow> queues_ok ?n" by (rule queues_ok_new_thread) (use new(2) in simp_all)
  have "a \<noteq> t" using kinv_active(1) [OF inv act] t(2) by blast
  have free: "t \<notin> set ((L(MsgWaiters t := [])) l)" for l
    using kinv_dead [OF inv t(2)] by simp
  have *: "kinv ?n (L(MsgWaiters t := []))" "prio_ok ?n" "live ?n t" "\<not> on_runqueue (status (tcb ?n t))"
    "on_runqueue STATUS_PENDING" "sched_active_thread ?n = Some a" "a \<noteq> t \<or> switch_pending ?n"
    "unat pr \<le> priority (tcb ?n t)" "priority (tcb ?n t) = unat pr"
    using new prio_ok_new_thread [OF s0 pr] prio act \<open>a \<noteq> t\<close> by simp_all
  obtain s1 s2 h b' where w: "sched_set_status ?n t STATUS_PENDING = Inr s1"
    "s1 = upd_thread t (set_status STATUS_PENDING) (?n\<lparr>links := h, runqueue_bitcache := b'\<rparr>)"
    "sched_switch (s1\<lparr>mie := mie s\<rparr>) (unat pr) = Inr s2"
    "kinv s2 (L(MsgWaiters t := [], RunQueue (unat pr) := (L(MsgWaiters t := [])) (RunQueue (unat pr)) @ [t]))"
    "prio_ok s2" "only_requests (s1\<lparr>mie := mie s\<rparr>) s2"
    by (rule wake_switch [OF *(1-5) free *(6-8), of "mie s", unfolded *(9)]) (rule that)
  have "thread_create_with_fp abi s stack sz pr cf = Inr (s2, free_pid s)"
    using pr p cf t(1) w(1,3) by (simp add: thread_create_with_fp_def irq_disable_def Let_def)
  moreover have "tcb s2 = tcb s1" "mie s2 = mie s" "sched_threads s2 = sched_threads ?n"
    "in_isr s2 = in_isr s" "sched_active_thread s2 = Some a" "queues_ok s2 = queues_ok ?n"
    using w(6) act by (auto simp: only_requests_def w(2))
  moreover have "live s2 u \<longleftrightarrow> live s u \<or> u = t" for u
    using new(2) [of u] calculation(4) by (simp add: live_def)
  ultimately show thesis
    using w(4,5) fp(2) q by (intro that [of s2]) (simp_all add: w(2) thread_get_def)
qed

lemma thread_create_sleeping:
  assumes inv: "kinv s L" and prio: "prio_ok s"
    and pr: "unat pr < SCHED_PRIO_LEVELS" and p: "free_pid s \<noteq> KERNEL_PID_UNDEF"
    and t: "t = thread_create_at abi stack sz" "\<not> live s t" and cf: "CREATE_SLEEPING cf"
  defines "s' \<equiv> upd_thread t (set_status STATUS_SLEEPING)
                (thread_new t (free_pid s) (unat pr) (CIB_INIT 0) s)"
  shows "thread_create_with_fp abi s stack sz pr cf = Inr (s', free_pid s)"
    and "kinv s' (L(MsgWaiters t := []))" and "prio_ok s'"
proof -
  note fp = free_pid_free [OF p]
  let ?n = "thread_new t (free_pid s) (unat pr) (CIB_INIT 0) s"
  note new = kinv_new_thread [OF inv t(2) fp(1,2) pr, of "CIB_INIT 0"]
  have free: "t \<notin> set ((L(MsgWaiters t := [])) l)" for l using kinv_dead [OF inv t(2)] by simp
  have *: "on_runqueue STATUS_SLEEPING = on_runqueue (status (tcb ?n t))" by simp
  note same = sched_set_status_same [OF new(1) *]
  show "kinv s' (L(MsgWaiters t := []))" unfolding s'_def by (rule same(2)) (use free in \<open>blast, simp\<close>)
  have "sched_set_status ?n t STATUS_SLEEPING = Inr s'" unfolding s'_def by (rule same(1)) (use free in \<open>blast, simp\<close>)
  then have e: "sched_set_status (?n\<lparr>mie := False\<rparr>) t STATUS_SLEEPING = Inr (s'\<lparr>mie := False\<rparr>)"
    by (simp add: sched_set_status_def s'_def upd_thread_def set_status_def)
  have "thread_new t (free_pid s) (unat pr) (CIB_INIT 0) (s\<lparr>mie := False\<rparr>) = ?n\<lparr>mie := False\<rparr>"
    by (simp add: thread_new_def Let_def upd_thread_def)
  then show "thread_create_with_fp abi s stack sz pr cf = Inr (s', free_pid s)"
    using pr p cf t(1) e
    by (simp add: thread_create_with_fp_def irq_disable_def Let_def)
      (simp add: s'_def thread_new_def Let_def upd_thread_def)
  show "prio_ok s'"
    by (rule prio_ok_cong [OF prio_ok_new_thread [OF inv t(2) fp(1,2) pr prio, of "CIB_INIT 0"]])
      (auto simp: s'_def runnable_def)
qed

lemma thread_create_wout_yield:
  assumes inv: "kinv s L" and pr: "unat pr < SCHED_PRIO_LEVELS" and p: "free_pid s \<noteq> KERNEL_PID_UNDEF"
    and t: "t = thread_create_at abi stack sz" "\<not> live s t"
    and cf: "\<not> CREATE_SLEEPING cf" "CREATE_WOUT_YIELD cf"
  obtains s' where "thread_create_with_fp abi s stack sz pr cf = Inr (s', free_pid s)"
    and "kinv s' (L(MsgWaiters t := [], RunQueue (unat pr) := L (RunQueue (unat pr)) @ [t]))"
    and "sched_threads s' = (sched_threads s)(free_pid s \<mapsto> t)" and "status (tcb s' t) = STATUS_PENDING"
    and "priority (tcb s' t) = unat pr" and "pid (tcb s' t) = free_pid s" and "mie s' = mie s"
    and "msip s' = msip s" and "in_isr s' = in_isr s" and "sched_active_thread s' = sched_active_thread s"
    and "\<And>u. u \<noteq> t \<Longrightarrow> tcb s' u = tcb s u" and "\<And>u. live s' u \<longleftrightarrow> live s u \<or> u = t"
    and "sched_num_threads s' = sched_num_threads s + 1" and "queues_ok s \<Longrightarrow> queues_ok s'"
proof -
  let ?s = "s\<lparr>mie := False\<rparr>"
  let ?n = "thread_new t (free_pid s) (unat pr) (CIB_INIT 0) ?s"
  note fp = free_pid_free [OF p]
  have s0: "kinv ?s L" "\<not> live ?s t" "sched_threads ?s (free_pid s) = None" "pid_is_valid (free_pid s)"
    using inv t(2) fp by simp_all
  note new = kinv_new_thread [OF s0 pr, of "CIB_INIT 0"]
  have q: "queues_ok s \<Longrightarrow> queues_ok ?n" by (rule queues_ok_new_thread) (use new(2) in simp_all)
  have free: "t \<notin> set ((L(MsgWaiters t := [])) l)" for l using kinv_dead [OF inv t(2)] by simp
  have "sched_active_thread s \<noteq> Some t" using kinv_active(1) [OF inv] t(2) by blast
  then have *: "kinv ?n (L(MsgWaiters t := []))" "live ?n t" "\<not> on_runqueue (status (tcb ?n t))"
    "on_runqueue STATUS_PENDING" "sched_active_thread ?n \<noteq> Some t \<or> switch_pending ?n"
    "priority (tcb ?n t) = unat pr"
    using new by simp_all
  obtain s1 h b' where w: "sched_set_status ?n t STATUS_PENDING = Inr s1"
    "s1 = upd_thread t (set_status STATUS_PENDING) (?n\<lparr>links := h, runqueue_bitcache := b'\<rparr>)"
    "kinv s1 (L(MsgWaiters t := [], RunQueue (unat pr) := (L(MsgWaiters t := [])) (RunQueue (unat pr)) @ [t]))"
    by (rule sched_set_status_wake [OF *(1-4) free *(5), unfolded *(6)]) (rule that)
  have "thread_create_with_fp abi s stack sz pr cf = Inr (s1\<lparr>mie := mie s\<rparr>, free_pid s)"
    using pr p cf t(1) w(1) by (simp add: thread_create_with_fp_def irq_disable_def Let_def)
  moreover have "live s1 u \<longleftrightarrow> live s u \<or> u = t" for u using new(2) [of u] by (simp add: w(2))
  ultimately show thesis
    using w(3) q by (intro that [of "s1\<lparr>mie := mie s\<rparr>"]) (simp_all add: w(2) set_status_def)
qed

text \<open>After reset: no thread, empty lists, no switch requested.\<close>

definition boot_state :: "kernel \<Rightarrow> bool" where
  "boot_state s \<longleftrightarrow>
     (\<forall>n. links s n = Null) \<and> (\<forall>p. sched_threads s p = None) \<and> sched_num_threads s = 0 \<and>
     sched_active_thread s = None \<and> runqueue_bitcache s = 0 \<and>
     \<not> sched_context_switch_request s \<and> \<not> msip s \<and> \<not> in_isr s"

lemma boot_kinv: "boot_state s \<Longrightarrow> kinv s (\<lambda>l. [])"
proof -
  assume b: "boot_state s"
  have "queue_at (links s) l []" for l
    using b by (cases l) (auto simp: boot_state_def clist_Nil slist_Nil)
  then show ?thesis using b by (auto simp: kinv_defs boot_state_def live_def)
qed

lemma kernel_init_boots:
  assumes boot: "boot_state s"
    and t: "idle = thread_create_at abi istack isz" "mn = thread_create_at abi mstack msz" "idle \<noteq> mn"
  obtains s' where "kernel_init abi istack isz mstack msz s = Inr s'"
    and "kinv s' ((\<lambda>l. [])(RunQueue THREAD_PRIORITY_IDLE := [idle], RunQueue THREAD_PRIORITY_MAIN := [mn]))"
    and "sched_active_thread s' = None" and "msip s'" and "mie s'" and "\<not> in_isr s'"
    and "runnable s' idle" and "runnable s' mn"
    and "sched_threads s' = (\<lambda>p. None)(1 \<mapsto> idle, 2 \<mapsto> mn)" and "sched_num_threads s' = 2"
    and "priority (tcb s' idle) = THREAD_PRIORITY_IDLE" and "priority (tcb s' mn) = THREAD_PRIORITY_MAIN"
    and "queues_ok s \<Longrightarrow> queues_ok s'"
proof -
  let ?cf = "\<lparr>CREATE_SLEEPING = False, CREATE_WOUT_YIELD = True\<rparr>"
  let ?s = "s\<lparr>mie := False\<rparr>"
  have th: "sched_threads s = (\<lambda>p. None)" using boot by (auto simp: boot_state_def)
  have f1: "free_pid ?s = 1" by (simp add: free_pid_def kernel_consts th upto_rec1)
  have k: "kinv ?s (\<lambda>l. [])" using boot_kinv [OF boot] by simp
  have u: "unat (of_nat THREAD_PRIORITY_IDLE :: u8) = THREAD_PRIORITY_IDLE"
    "unat (of_nat THREAD_PRIORITY_MAIN :: u8) = THREAD_PRIORITY_MAIN"
    "unat (of_nat THREAD_PRIORITY_IDLE :: u8) < SCHED_PRIO_LEVELS"
    "unat (of_nat THREAD_PRIORITY_MAIN :: u8) < SCHED_PRIO_LEVELS"
    by (simp_all add: kernel_consts)
  have "free_pid ?s \<noteq> KERNEL_PID_UNDEF" "\<not> live ?s idle"
    using f1 by (simp_all add: kernel_consts live_def th)
  note c1 = thread_create_wout_yield [OF k u(3) this(1) t(1) this(2), of ?cf, unfolded f1 u(1)]
  obtain s1 where s1: "thread_create_with_fp abi ?s istack isz (of_nat THREAD_PRIORITY_IDLE) ?cf = Inr (s1, 1)"
    "kinv s1 ((\<lambda>l. [])(MsgWaiters idle := [], RunQueue THREAD_PRIORITY_IDLE := [] @ [idle]))"
    "sched_threads s1 = (sched_threads ?s)(1 \<mapsto> idle)" "status (tcb s1 idle) = STATUS_PENDING"
    "priority (tcb s1 idle) = THREAD_PRIORITY_IDLE" "sched_active_thread s1 = sched_active_thread ?s"
    "in_isr s1 = in_isr ?s" "sched_num_threads s1 = sched_num_threads ?s + 1" "queues_ok ?s \<Longrightarrow> queues_ok s1"
    by (rule c1, simp, simp) (rule that)
  have f2: "free_pid s1 = 2" by (simp add: free_pid_def kernel_consts th upto_rec1 s1(3))
  have "free_pid s1 \<noteq> KERNEL_PID_UNDEF" "\<not> live s1 mn"
    using f2 t(3) by (simp_all add: kernel_consts live_def th s1(3))
  note c2 = thread_create_wout_yield [OF s1(2) u(4) this(1) t(2) this(2), of ?cf, unfolded f2 u(2)]
  obtain s2 where s2: "thread_create_with_fp abi s1 mstack msz (of_nat THREAD_PRIORITY_MAIN) ?cf = Inr (s2, 2)"
    "kinv s2 ((\<lambda>l. [])(MsgWaiters idle := [], RunQueue THREAD_PRIORITY_IDLE := [] @ [idle],
       MsgWaiters mn := [], RunQueue THREAD_PRIORITY_MAIN :=
         ((\<lambda>l. [])(MsgWaiters idle := [], RunQueue THREAD_PRIORITY_IDLE := [] @ [idle])) (RunQueue THREAD_PRIORITY_MAIN) @ [mn]))"
    "sched_threads s2 = (sched_threads s1)(2 \<mapsto> mn)" "status (tcb s2 mn) = STATUS_PENDING"
    "priority (tcb s2 mn) = THREAD_PRIORITY_MAIN" "sched_active_thread s2 = sched_active_thread s1"
    "in_isr s2 = in_isr s1" "\<And>u. u \<noteq> mn \<Longrightarrow> tcb s2 u = tcb s1 u"
    "sched_num_threads s2 = sched_num_threads s1 + 1" "queues_ok s1 \<Longrightarrow> queues_ok s2"
    by (rule c2, simp, simp) (rule that)
  have L: "(\<lambda>l. [])(MsgWaiters idle := [], RunQueue THREAD_PRIORITY_IDLE := [] @ [idle],
       MsgWaiters mn := [], RunQueue THREAD_PRIORITY_MAIN :=
         ((\<lambda>l. [])(MsgWaiters idle := [], RunQueue THREAD_PRIORITY_IDLE := [] @ [idle])) (RunQueue THREAD_PRIORITY_MAIN) @ [mn])
     = (\<lambda>l. [])(RunQueue THREAD_PRIORITY_IDLE := [idle], RunQueue THREAD_PRIORITY_MAIN := [mn])"
    by (auto simp: kernel_consts)
  have act: "sched_active_thread s2 = None" "\<not> in_isr s2" "sched_num_threads s2 = 2"
    using boot s1 s2 by (simp_all add: boot_state_def)
  have "kernel_init abi istack isz mstack msz s = Inr (s2\<lparr>mie := True, msip := True\<rparr>)"
    using s1(1) s2(1) act
    by (simp add: kernel_init_def irq_disable_def thread_create_def cpu_switch_context_exit_def
        irq_enable_def thread_yield_def thread_yield_higher_def)
  moreover have "kinv (s2\<lparr>mie := True, msip := True\<rparr>)
      ((\<lambda>l. [])(RunQueue THREAD_PRIORITY_IDLE := [idle], RunQueue THREAD_PRIORITY_MAIN := [mn]))"
    using kinv_yield s2(2) unfolding L by simp
  moreover have "live s2 idle" "live s2 mn"
    unfolding live_def s2(3) s1(3) by (rule exI [of _ 1], simp) (rule exI [of _ 2], simp)
  moreover have "tcb s2 idle = tcb s1 idle" using s2(8) t(3) by blast
  ultimately show thesis
    by (intro that [of "s2\<lparr>mie := True, msip := True\<rparr>"])
      (simp_all add: th runnable_def act s1(3-5,9) s2(3-5,10))
qed

section \<open>The calls keep their contract\<close>

interpretation sleep: kernel_call "\<lambda>s L. in_isr s \<or> (\<exists>t. thread_context s t)" "\<lambda>s. noval (thread_sleep s)"
proof unfold_locales
  fix s L
  assume inv: "kinv s L" and prio: "prio_ok s" and ctx: "in_isr s \<or> (\<exists>t. thread_context s t)"
  show "\<exists>s' r L'. noval (thread_sleep s) = Inr (s', r) \<and> kinv s' L' \<and> prio_ok s' \<and> call_frame s s'"
  proof (cases "in_isr s")
    case True
    then show ?thesis using inv prio by (auto simp: thread_sleep_def irq_is_in_def)
  next
    case False
    with ctx obtain t where t: "thread_context s t" by blast
    obtain s' where s': "thread_sleep s = Inr s'"
      "kinv s' (L(RunQueue (priority (tcb s t)) := tl (L (RunQueue (priority (tcb s t))))))"
      "status (tcb s' t) = STATUS_SLEEPING" "msip s'" "mie s'" "\<And>u. u \<noteq> t \<Longrightarrow> tcb s' u = tcb s u"
      "sched_active_thread s' = Some t" "in_isr s' = in_isr s" "sched_threads s' = sched_threads s \<and> same_queues s s'"
      by (rule thread_sleep_sleeps [OF inv t]) (rule that)
    have "call_frame s s'" by (rule call_frameI) (use s' thread_contextD [OF t] in auto)
    then show ?thesis using s' by (auto intro!: exI [of _ s'] simp: prio_ok_def switch_pending_def)
  qed
qed

interpretation wakeup: kernel_call "\<lambda>s L. sched_active_thread s \<noteq> None" "\<lambda>s. thread_wakeup s p" for p
proof unfold_locales
  fix s L
  assume inv: "kinv s L" and prio: "prio_ok s" and "sched_active_thread s \<noteq> None"
  then obtain a where a: "sched_active_thread s = Some a" by blast
  show "\<exists>s' r L'. thread_wakeup s p = Inr (s', r) \<and> kinv s' L' \<and> prio_ok s' \<and> call_frame s s'"
  proof (cases "\<exists>t. thread_get s p = Some t \<and> status (tcb s t) = STATUS_SLEEPING")
    case True
    then obtain t where t: "thread_get s p = Some t" "status (tcb s t) = STATUS_SLEEPING" by blast
    then have at: "a \<noteq> t \<or> switch_pending s" using prio_ok_blocked [OF prio, of t] a by auto
    obtain s' where s': "thread_wakeup s p = Inr (s', 1)" "status (tcb s' t) = STATUS_RUNNING"
      "kinv s' (L(RunQueue (priority (tcb s t)) := L (RunQueue (priority (tcb s t))) @ [t]))" "prio_ok s'"
      "\<And>u. u \<noteq> t \<Longrightarrow> tcb s' u = tcb s u" "mie s' = mie s" "in_isr s' = in_isr s"
      "sched_active_thread s' = Some a" "sched_threads s' = sched_threads s \<and> same_queues s s'"
      by (rule thread_wakeup_wakes [OF inv prio a t at]) (rule that)
    have "on_runqueue (status (tcb s' u))" if "on_runqueue (status (tcb s u))" for u
      using that s'(2,5) by (cases "u = t") auto
    then have "call_frame s s'" using s' a by (intro call_frameI) auto
    then show ?thesis using s' by blast
  next
    case False
    then have "thread_wakeup s p = Inr (s, STATUS_NOT_FOUND)"
      by (intro thread_wakeup_not_sleeping) (cases "thread_get s p"; auto)
    then show ?thesis using inv prio by auto
  qed
qed

interpretation create: kernel_call
  "\<lambda>s L. sched_active_thread s \<noteq> None \<and> \<not> live s (thread_create_at abi stack sz)"
  "\<lambda>s. thread_create abi s stack sz pr \<lparr>CREATE_SLEEPING = sleeping, CREATE_WOUT_YIELD = False\<rparr>"
  for abi stack sz pr sleeping
proof unfold_locales
  fix s L
  let ?t = "thread_create_at abi stack sz"
  let ?cf = "\<lparr>CREATE_SLEEPING = sleeping, CREATE_WOUT_YIELD = False\<rparr>"
  assume inv: "kinv s L" and prio: "prio_ok s" and ctx: "sched_active_thread s \<noteq> None \<and> \<not> live s ?t"
  then obtain a where a: "sched_active_thread s = Some a" "\<not> live s ?t" by blast
  show "\<exists>s' r L'. thread_create abi s stack sz pr ?cf = Inr (s', r) \<and> kinv s' L' \<and> prio_ok s' \<and> call_frame s s'"
  proof (cases "unat pr < SCHED_PRIO_LEVELS \<and> free_pid s \<noteq> KERNEL_PID_UNDEF")
    case False
    then have "\<exists>r. thread_create abi s stack sz pr ?cf = Inr (s, r)"
      using thread_create_errors(1) [of pr abi s stack sz ?cf]
        thread_create_errors(2) [of pr s abi stack sz ?cf]
      by (cases "unat pr < SCHED_PRIO_LEVELS") (simp_all add: thread_create_def)
    then show ?thesis using inv prio by auto
  next
    case pr: True
    note new = kinv_new_thread(2) [OF inv a(2) free_pid_free(1,2), of "unat pr" "CIB_INIT 0"]
    show ?thesis
    proof (cases sleeping)
      case True
      note c = thread_create_sleeping [OF inv prio _ _ refl a(2), of pr ?cf]
      have "call_frame s (upd_thread ?t (set_status STATUS_SLEEPING)
          (thread_new ?t (free_pid s) (unat pr) (CIB_INIT 0) s))"
        using new pr a by (auto simp: call_frame_def runnable_def intro!: queues_ok_new_thread)
      then show ?thesis using c pr True unfolding thread_create_def by auto
    next
      case False
      then have p: "unat pr < SCHED_PRIO_LEVELS" "free_pid s \<noteq> KERNEL_PID_UNDEF"
        "\<not> CREATE_SLEEPING ?cf" "\<not> CREATE_WOUT_YIELD ?cf"
        using pr by simp_all
      obtain s' where s': "thread_create_with_fp abi s stack sz pr ?cf = Inr (s', free_pid s)"
        "kinv s' (L(MsgWaiters ?t := [], RunQueue (unat pr) := L (RunQueue (unat pr)) @ [?t]))"
        "prio_ok s'" "mie s' = mie s" "in_isr s' = in_isr s" "sched_active_thread s' = Some a"
        "\<And>u. u \<noteq> ?t \<Longrightarrow> tcb s' u = tcb s u" "\<And>u. live s' u \<longleftrightarrow> live s u \<or> u = ?t"
        "queues_ok s \<Longrightarrow> queues_ok s'"
        by (rule thread_create_creates [OF inv prio a(1) p(1,2) refl a(2) p(3,4)]) (rule that)
      have "tcb s' u = tcb s u" if "live s u" for u using s'(7) [of u] that a(2) by blast
      then have "call_frame s s'" using s'(4-6,8,9) a(1) by (simp add: call_frame_def runnable_def)
      then show ?thesis using s' unfolding thread_create_def by blast
    qed
  qed
qed

section \<open>Properties\<close>

text \<open>
  \<open>thread_add_to_list\<close> returns and puts a blocked thread into a list of waiting threads sorted by
  priority so that the list stays sorted: behind the threads that are at least as urgent (first
  come, first served among equals), before the less urgent ones; no other node changes.
\<close>

theorem thread_add_to_list_by_priority:
  assumes "slist (links s) l (map RqEntry ts)" and "sorted (map (\<lambda>u. priority (tcb s u)) ts)"
    and "t \<notin> set ts" and "l \<noteq> RqEntry t" and "\<not> on_runqueue (status (tcb s t))"
  shows "\<exists>h as bs. thread_add_to_list s l t = Inr (s\<lparr>links := h\<rparr>) \<and> ts = as @ bs \<and>
    slist h l (map RqEntry (as @ t # bs)) \<and>
    (\<forall>u \<in> set as. priority (tcb s u) \<le> priority (tcb s t)) \<and>
    (\<forall>u \<in> set bs. priority (tcb s t) < priority (tcb s u)) \<and>
    (\<forall>m. m \<noteq> l \<longrightarrow> m \<notin> RqEntry ` insert t (set ts) \<longrightarrow> h m = links s m)"
proof -
  let ?P = "\<lambda>u. priority (tcb s u) \<le> priority (tcb s t)"
  have "RqEntry t \<notin> set (l # map RqEntry ts)" using assms(3,4) by auto
  then obtain h where h: "thread_add_to_list s l t = Inr (s\<lparr>links := h\<rparr>)"
    "slist h l (map RqEntry (insert_waiter s t ts))"
    "\<And>m. m \<noteq> l \<Longrightarrow> m \<notin> RqEntry ` insert t (set ts) \<Longrightarrow> h m = links s m"
    by (rule thread_add_to_list_inserts [OF assms(1) _ assms(5)]) (rule that)
  have "\<forall>u \<in> set (dropWhile ?P ts). priority (tcb s t) < priority (tcb s u)"
    using assms(2)
  proof (induction ts)
    case (Cons u ts)
    then show ?case by (auto simp: not_le intro: less_le_trans)
  qed simp
  moreover have "\<forall>u \<in> set (takeWhile ?P ts). ?P u" using set_takeWhileD [of _ ?P ts] by blast
  moreover have "ts = takeWhile ?P ts @ dropWhile ?P ts" by simp
  ultimately show ?thesis using h unfolding insert_waiter_def by blast
qed

theorem thread_add_to_list_by_priority_witness:
  "\<exists>h as bs. thread_add_to_list demo (MutexQueue 1) 900 = Inr (demo\<lparr>links := h\<rparr>) \<and> [300] = as @ bs \<and>
    slist h (MutexQueue 1) (map RqEntry (as @ 900 # bs)) \<and>
    (\<forall>u \<in> set as. priority (tcb demo u) \<le> priority (tcb demo 900)) \<and>
    (\<forall>u \<in> set bs. priority (tcb demo 900) < priority (tcb demo u)) \<and>
    (\<forall>m. m \<noteq> MutexQueue 1 \<longrightarrow> m \<notin> RqEntry ` insert 900 (set [300]) \<longrightarrow> h m = links demo m)"
proof (rule thread_add_to_list_by_priority)
  show "slist (links demo) (MutexQueue 1) (map RqEntry [300])" by (simp add: slist_def)
qed simp_all



text \<open>
  C17: From the state after reset \<open>kernel_init\<close> returns with the invariant established, exactly the idle
  and the main thread, both runnable, and a pending switch; the scheduler then runs the main thread.
\<close>

theorem kernel_init_starts_main:
  assumes "boot_state s" and "idle = thread_create_at abi istack isz"
    and "mn = thread_create_at abi mstack msz" and "idle \<noteq> mn"
  shows "\<exists>s' L. kernel_init abi istack isz mstack msz s = Inr s' \<and> kinv s' L \<and> switch_pending s' \<and> mie s' \<and>
    (\<forall>u. runnable s' u \<longleftrightarrow> u = idle \<or> u = mn) \<and>
    priority (tcb s' idle) = THREAD_PRIORITY_IDLE \<and> priority (tcb s' mn) = THREAD_PRIORITY_MAIN \<and>
    (\<exists>s''. sched_run s' = Inr (s'', True) \<and> sched_active_thread s'' = Some mn \<and> sched_active_pid s'' = 2)"
proof -
  let ?L = "(\<lambda>l. [])(RunQueue THREAD_PRIORITY_IDLE := [idle], RunQueue THREAD_PRIORITY_MAIN := [mn])"
  obtain s' where s': "kernel_init abi istack isz mstack msz s = Inr s'" "kinv s' ?L"
    "sched_active_thread s' = None" "msip s'" "mie s'" "runnable s' idle" "runnable s' mn"
    "sched_threads s' = (\<lambda>p. None)(1 \<mapsto> idle, 2 \<mapsto> mn)"
    "priority (tcb s' idle) = THREAD_PRIORITY_IDLE" "priority (tcb s' mn) = THREAD_PRIORITY_MAIN"
    by (rule kernel_init_boots [OF assms]) (rule that)
  have "live s' u \<Longrightarrow> u = idle \<or> u = mn" for u
    by (auto simp: live_def s'(8) split: if_splits)
  then have run: "runnable s' u \<longleftrightarrow> u = idle \<or> u = mn" for u
    using s'(6,7) by (auto simp: runnable_def)
  have "sched_next s' ?L = mn"
    using run [of "sched_next s' ?L"] sched_next(2,3,4) [OF s'(2,7)] s'(9,10) by (auto simp: kernel_consts)
  moreover obtain s'' sw where s'': "sched_run s' = Inr (s'', sw)"
    "sched_active_thread s'' = Some (sched_next s' ?L)" "sched_active_pid s'' = pid (tcb s' (sched_next s' ?L))"
    "sw \<longleftrightarrow> sched_active_thread s' \<noteq> Some (sched_next s' ?L)"
    by (rule sched_run_next [OF s'(2,7)]) (rule that)
  moreover have "pid (tcb s' mn) = 2"
    using s'(2,8) by (auto simp: kinv_def threads_ok_def split: if_splits)
  ultimately have "\<exists>s''. sched_run s' = Inr (s'', True) \<and> sched_active_thread s'' = Some mn \<and> sched_active_pid s'' = 2"
    using s'(3) by auto
  then show ?thesis using s'(1,2,4,5,9,10) run unfolding switch_pending_def by blast
qed

definition reset_state :: kernel where
  "reset_state = demo\<lparr>links := \<lambda>n. Null, sched_threads := \<lambda>p. None, sched_num_threads := 0,
     sched_active_thread := None, runqueue_bitcache := 0\<rparr>"

theorem kernel_init_starts_main_witness:
  "\<exists>s' L. kernel_init \<lparr>align_of_ptr = 8, align_of_thread = 8, sizeof_thread = 80\<rparr> 1000 256 2000 1024 reset_state = Inr s' \<and>
    kinv s' L \<and> switch_pending s' \<and> mie s' \<and> (\<forall>u. runnable s' u \<longleftrightarrow> u = 1176 \<or> u = 2944) \<and>
    priority (tcb s' 1176) = THREAD_PRIORITY_IDLE \<and> priority (tcb s' 2944) = THREAD_PRIORITY_MAIN \<and>
    (\<exists>s''. sched_run s' = Inr (s'', True) \<and> sched_active_thread s'' = Some 2944 \<and> sched_active_pid s'' = 2)"
  by (rule kernel_init_starts_main) (simp_all add: boot_state_def reset_state_def thread_create_at_def)

end
