(* ===== verification/Mutex.thy ===== *)
theory Mutex
  imports Thread
begin

text \<open>
  Mutexes (\<open>core/mutex.c\<close>, \<open>core/include/mutex.h\<close>) and recursive mutexes (\<open>core/rmutex.c\<close>).

  A mutex is one list node: \<open>NULL\<close> when it is free, \<open>MUTEX_LOCKED\<close> (\<open>Tagged\<close>) when it is
  locked and nobody waits, otherwise the first waiting thread. The abstract mutex is free or
  held with a list of waiting threads; the second half shows that the operations implement it.
\<close>

section \<open>The operations\<close>

definition mutex_init :: "kernel \<Rightarrow> int \<Rightarrow> kernel" where
  "mutex_init s mutex = s\<lparr>links := (links s)(MutexQueue mutex := Null)\<rparr>"

definition u_mutex_lock :: "kernel \<Rightarrow> int \<Rightarrow> bool \<Rightarrow> fault + (kernel \<times> int outcome)" where
  "u_mutex_lock s mutex blocking =
     (let (s, irqstate) = irq_disable s; queue = MutexQueue mutex in
      if links s queue = Null then
        Inr (irq_restore irqstate (s\<lparr>links := (links s)(queue := Tagged)\<rparr>), Done 1)
      else if blocking then
        bindE (active_thread s) (\<lambda>me.
        bindE (sched_set_status s me STATUS_MUTEX_BLOCKED) (\<lambda>s.
        bindE (if links s queue = Tagged
               then Inr (s\<lparr>links := (links s)(queue := Ptr (RqEntry me), RqEntry me := Null)\<rparr>)
               else thread_add_to_list s queue me) (\<lambda>s.
          Inr (thread_yield_higher (irq_restore irqstate s), Blocked))))
      else Inr (irq_restore irqstate s, Done 0))"

definition mutex_trylock :: "kernel \<Rightarrow> int \<Rightarrow> fault + (kernel \<times> int outcome)" where
  "mutex_trylock s mutex = u_mutex_lock s mutex False"

definition mutex_lock :: "kernel \<Rightarrow> int \<Rightarrow> fault + (kernel \<times> int outcome)" where
  "mutex_lock s mutex = u_mutex_lock s mutex True"

text \<open>The mutex passes to the first waiting thread; without one it stays marked as locked.\<close>

definition mutex_pass_on :: "kernel \<Rightarrow> int \<Rightarrow> fault + (kernel \<times> tid)" where
  "mutex_pass_on s mutex =
     (let queue = MutexQueue mutex in
      bindE (list_remove_head (links s) queue) (\<lambda>(h, next).
      bindE (thread_of next) (\<lambda>process.
      bindE (sched_set_status (s\<lparr>links := h\<rparr>) process STATUS_PENDING) (\<lambda>s.
        Inr (if links s queue = Null then s\<lparr>links := (links s)(queue := Tagged)\<rparr> else s, process)))))"

definition mutex_unlock :: "kernel \<Rightarrow> int \<Rightarrow> fault + kernel" where
  "mutex_unlock s mutex =
     (let (s, irqstate) = irq_disable s; queue = MutexQueue mutex in
      if links s queue = Null then Inr (irq_restore irqstate s)
      else if links s queue = Tagged then
        Inr (irq_restore irqstate (s\<lparr>links := (links s)(queue := Null)\<rparr>))
      else
        bindE (mutex_pass_on s mutex) (\<lambda>(s, process).
          let process_priority = priority (tcb s process) in
          sched_switch (irq_restore irqstate s) process_priority))"

definition mutex_unlock_and_sleep :: "kernel \<Rightarrow> int \<Rightarrow> fault + kernel" where
  "mutex_unlock_and_sleep s mutex =
     (let (s, irqstate) = irq_disable s; queue = MutexQueue mutex in
      bindE (if links s queue \<noteq> Null then
               (if links s queue = Tagged then Inr (s\<lparr>links := (links s)(queue := Null)\<rparr>)
                else bindE (mutex_pass_on s mutex) (\<lambda>(s, process). Inr s))
             else Inr s) (\<lambda>s.
      bindE (active_thread s) (\<lambda>me.
      bindE (sched_set_status s me STATUS_SLEEPING) (\<lambda>s.
        Inr (thread_yield_higher (irq_restore irqstate s))))))"

definition rmutex_init :: "kernel \<Rightarrow> int \<Rightarrow> kernel" where
  "rmutex_init s m =
     (mutex_init s m)\<lparr>rmutexes := (rmutexes s)(m := \<lparr>refcount = 0, owner = KERNEL_PID_UNDEF\<rparr>)\<rparr>"

text \<open>
  The recursive mutex at address \<open>m\<close> contains the mutex at the same address. \<open>rmutex_take\<close> is
  what \<open>_lock\<close> does once the caller holds the mutex, which may be after it was blocked.
\<close>

definition rmutex_take :: "kernel \<Rightarrow> int \<Rightarrow> kernel" where
  "rmutex_take s m =
     (let r = rmutexes s m in
      s\<lparr>rmutexes := (rmutexes s)(m := r\<lparr>owner := sched_active_pid s, refcount := refcount r + 1\<rparr>)\<rparr>)"

definition u_lock :: "kernel \<Rightarrow> int \<Rightarrow> bool \<Rightarrow> fault + (kernel \<times> int outcome)" where
  "u_lock s m trylock =
     bindE (mutex_trylock s m) (\<lambda>(s, r).
       if r = Done 0 \<and> owner (rmutexes s m) \<noteq> sched_active_pid s then
         (if trylock then Inr (s, Done 0)
          else bindE (mutex_lock s m) (\<lambda>(s, r).
                 case r of Blocked \<Rightarrow> Inr (s, Blocked) | Done _ \<Rightarrow> Inr (rmutex_take s m, Done 1)))
       else Inr (rmutex_take s m, Done 1))"

definition rmutex_lock :: "kernel \<Rightarrow> int \<Rightarrow> fault + (kernel \<times> int outcome)" where
  "rmutex_lock s m = u_lock s m False"

definition rmutex_trylock :: "kernel \<Rightarrow> int \<Rightarrow> fault + (kernel \<times> int outcome)" where
  "rmutex_trylock s m = u_lock s m True"

definition rmutex_unlock :: "kernel \<Rightarrow> int \<Rightarrow> fault + kernel" where
  "rmutex_unlock s m =
     bindE (assertE (owner (rmutexes s m) = sched_active_pid s) ()) (\<lambda>_.
     bindE (assertE (0 < refcount (rmutexes s m)) ()) (\<lambda>_.
       let r = rmutexes s m;
           s = s\<lparr>rmutexes := (rmutexes s)(m := r\<lparr>refcount := refcount r - 1\<rparr>)\<rparr> in
       if refcount (rmutexes s m) = 0
       then mutex_unlock (s\<lparr>rmutexes := (rmutexes s)(m := (rmutexes s m)\<lparr>owner := KERNEL_PID_UNDEF\<rparr>)\<rparr>) m
       else Inr s))"

section \<open>The abstract mutex\<close>

datatype mutex_spec = Free | Held "tid list"

definition mutex_abs :: "kernel \<Rightarrow> layout \<Rightarrow> int \<Rightarrow> mutex_spec" where
  "mutex_abs s L m = (if links s (MutexQueue m) = Null then Free else Held (L (MutexQueue m)))"

lemma mutex_abs_simps [simp]:
  "mutex_abs (s\<lparr>mie := b\<rparr>) L m = mutex_abs s L m"
  "mutex_abs (s\<lparr>msip := b\<rparr>) L m = mutex_abs s L m"
  "mutex_abs (s\<lparr>sched_context_switch_request := b\<rparr>) L m = mutex_abs s L m"
  by (simp_all add: mutex_abs_def)

lemma mutex_abs_requests: "only_requests s s' \<Longrightarrow> mutex_abs s' L m = mutex_abs s L m"
  by (auto simp: only_requests_def)

lemma kinv_mutex:
  assumes "kinv s L"
  shows "links s (MutexQueue m) = Tagged \<Longrightarrow> L (MutexQueue m) = []"
    and "links s (MutexQueue m) = Null \<Longrightarrow> L (MutexQueue m) = []"
    and "links s (MutexQueue m) = Ptr n \<Longrightarrow> \<exists>t ts. n = RqEntry t \<and> L (MutexQueue m) = t # ts"
  using kinv_queue_at [OF assms, of "MutexQueue m"]
  by (cases "L (MutexQueue m)"; auto simp: slist_def)+

text \<open>Marking a mutex nobody waits for changes no list.\<close>

lemma kinv_mutex_mark:
  assumes inv: "kinv s L" and e: "L (MutexQueue m) = []" and v: "v = Null \<or> v = Tagged"
  shows "kinv (s\<lparr>links := (links s)(MutexQueue m := v)\<rparr>) L"
proof -
  let ?h = "(links s)(MutexQueue m := v)"
  have "layout_ok ?h (L(MutexQueue m := []))"
    by (rule layout_update [where h = "links s"]) (use inv v in \<open>auto simp: kinv_def slist_def\<close>)
  moreover have "L(MutexQueue m := []) = L" using e by auto
  ultimately show ?thesis
    using inv unfolding kinv_def
    by (simp add: threads_ok_def runq_ok_def cache_ok_def waiters_ok_def active_ok_def data_ok_def)
qed

text \<open>The mutex passes to the first, most urgent, waiting thread.\<close>

lemma mutex_pass_on_passes:
  assumes inv: "kinv s L" and w: "L (MutexQueue m) = w # ws" "links s (MutexQueue m) \<noteq> Null"
    and act: "sched_active_thread s \<noteq> Some w \<or> switch_pending s"
  defines "L' \<equiv> L(MutexQueue m := ws, RunQueue (priority (tcb s w)) := L (RunQueue (priority (tcb s w))) @ [w])"
  obtains h b where
    "mutex_pass_on s m = Inr (upd_thread w (set_status STATUS_PENDING) (s\<lparr>links := h, runqueue_bitcache := b\<rparr>), w)"
    and "kinv (upd_thread w (set_status STATUS_PENDING) (s\<lparr>links := h, runqueue_bitcache := b\<rparr>)) L'"
    and "h (MutexQueue m) \<noteq> Null" and "\<And>m'. m' \<noteq> m \<Longrightarrow> h (MutexQueue m') = links s (MutexQueue m')"
proof -
  have nrq: "\<not> is_runqueue (MutexQueue m)" by simp
  obtain h1 s1 h2 b where s1: "list_remove_head (links s) (MutexQueue m) = Inr (h1, Ptr (RqEntry w))"
    "sched_set_status (s\<lparr>links := h1\<rparr>) w STATUS_PENDING = Inr s1"
    "s1 = upd_thread w (set_status STATUS_PENDING) (s\<lparr>links := h2, runqueue_bitcache := b\<rparr>)"
    "kinv s1 L'" "\<And>l. l \<noteq> MutexQueue m \<Longrightarrow> \<not> is_runqueue l \<Longrightarrow> \<not> is_entry l \<Longrightarrow> h2 l = links s l"
    by (rule wake_head [OF inv nrq w(1) act, folded L'_def]) (rule that)
  let ?h = "if h2 (MutexQueue m) = Null then h2(MutexQueue m := Tagged) else h2"
  let ?s = "upd_thread w (set_status STATUS_PENDING) (s\<lparr>links := ?h, runqueue_bitcache := b\<rparr>)"
  have e: "mutex_pass_on s m = Inr (?s, w)"
    using s1(1,2) by (simp add: mutex_pass_on_def Let_def) (simp add: s1(3) upd_thread_def)
  have "kinv ?s L'"
  proof (cases "h2 (MutexQueue m) = Null")
    case True
    then have "links s1 (MutexQueue m) = Null" by (simp add: s1(3))
    then have "kinv (s1\<lparr>links := (links s1)(MutexQueue m := Tagged)\<rparr>) L'"
      using kinv_mutex(2) [OF s1(4)] by (intro kinv_mutex_mark [OF s1(4)]) auto
    moreover have "s1\<lparr>links := (links s1)(MutexQueue m := Tagged)\<rparr> = ?s"
      using True by (simp add: s1(3) upd_thread_def)
    ultimately show ?thesis by (simp only:)
  next
    case False
    then show ?thesis using s1(4) by (simp add: s1(3))
  qed
  moreover have "?h (MutexQueue m') = links s (MutexQueue m')" if "m' \<noteq> m" for m'
    using s1(5) [of "MutexQueue m'"] that by simp
  ultimately show thesis by (intro that [OF e]) (auto split: if_splits)
qed

lemma mutex_unlock_hands_over:
  assumes inv: "kinv s L" and prio: "prio_ok s" and act: "sched_active_thread s = Some a"
    and w: "mutex_abs s L m = Held (w # ws)"
  defines "L' \<equiv> L(MutexQueue m := ws, RunQueue (priority (tcb s w)) := L (RunQueue (priority (tcb s w))) @ [w])"
  obtains s' where "mutex_unlock s m = Inr s'" and "kinv s' L'" and "prio_ok s'"
    and "mutex_abs s' L' m = Held ws" and "\<And>m'. m' \<noteq> m \<Longrightarrow> mutex_abs s' L' m' = mutex_abs s L m'"
    and "status (tcb s' w) = STATUS_PENDING" and "\<And>u. u \<noteq> w \<Longrightarrow> tcb s' u = tcb s u"
    and "mie s' = mie s" and "in_isr s' = in_isr s" and "sched_active_thread s' = Some a"
    and "sched_threads s' = sched_threads s \<and> same_queues s s'" and "msip s \<Longrightarrow> msip s'"
    and "\<And>u. priority (tcb s' u) = priority (tcb s u)"
proof -
  let ?s = "s\<lparr>mie := False\<rparr>"
  from w have w1: "L (MutexQueue m) = w # ws" and w2: "links ?s (MutexQueue m) \<noteq> Null"
    by (auto simp: mutex_abs_def split: if_splits)
  then obtain n where n: "links s (MutexQueue m) = Ptr n"
    using kinv_mutex(1) [OF inv, of m] by (cases "links s (MutexQueue m)") auto
  have "status (tcb s w) = STATUS_MUTEX_BLOCKED"
    using kinv_waiter [OF inv, of w "MutexQueue m"] w1 by auto
  then have a: "sched_active_thread ?s \<noteq> Some w \<or> switch_pending ?s"
    using prio_ok_blocked [OF prio, of w] by simp
  have inv': "kinv ?s L" using inv by simp
  have L': "L(MutexQueue m := ws, RunQueue (priority (tcb ?s w)) := L (RunQueue (priority (tcb ?s w))) @ [w]) = L'"
    by (simp add: L'_def)
  obtain h b where p:
    "mutex_pass_on ?s m = Inr (upd_thread w (set_status STATUS_PENDING) (?s\<lparr>links := h, runqueue_bitcache := b\<rparr>), w)"
    "kinv (upd_thread w (set_status STATUS_PENDING) (?s\<lparr>links := h, runqueue_bitcache := b\<rparr>)) L'"
    "h (MutexQueue m) \<noteq> Null" "\<And>m'. m' \<noteq> m \<Longrightarrow> h (MutexQueue m') = links ?s (MutexQueue m')"
    by (rule mutex_pass_on_passes [OF inv' w1 w2 a, unfolded L']) (rule that)
  define s1 where "s1 = upd_thread w (set_status STATUS_PENDING) (?s\<lparr>links := h, runqueue_bitcache := b\<rparr>)\<lparr>mie := mie s\<rparr>"
  have "prio_ok_but s1 {w}"
    unfolding s1_def
    by (rule prio_ok_but_wake [OF prio_ok_but_empty [OF prio]]) simp_all
  moreover have "kinv s1 L'" using p(2) by (simp add: s1_def)
  moreover have "sched_active_thread s1 = Some a" "\<forall>u \<in> {w}. priority (tcb s w) \<le> priority (tcb s1 u)"
    using act by (simp_all add: s1_def)
  ultimately obtain s2 where s2: "sched_switch s1 (priority (tcb s w)) = Inr s2" "kinv s2 L'" "prio_ok s2" "only_requests s1 s2"
    by (metis sched_switch_prio_ok)
  have e: "mutex_unlock s m = Inr s2"
    using p(1) s2(1) n
    by (simp add: mutex_unlock_def irq_disable_def Let_def) (simp add: s1_def)
  have "mutex_abs s1 L' m = Held ws" "\<And>m'. m' \<noteq> m \<Longrightarrow> mutex_abs s1 L' m' = mutex_abs s L m'"
    using p(3,4) by (simp_all add: mutex_abs_def s1_def L'_def)
  then show thesis
    using s2(4) act by (intro that [OF e s2(2,3)])
      (auto simp: mutex_abs_requests [OF s2(4)], auto simp: only_requests_def s1_def)
qed

lemma kernel_mie_same [simp]: "s\<lparr>mie := mie s\<rparr> = s"
  by simp

lemma mutex_unlock_free:
  "mutex_abs s L m = Free \<Longrightarrow> mutex_unlock s m = Inr s"
  by (simp add: mutex_abs_def mutex_unlock_def irq_disable_def split: if_splits)

lemma mutex_unlock_last:
  assumes inv: "kinv s L" and "mutex_abs s L m = Held []"
  defines "s' \<equiv> s\<lparr>links := (links s)(MutexQueue m := Null)\<rparr>"
  shows "mutex_unlock s m = Inr s'" and "kinv s' L" and "mutex_abs s' L m = Free"
    and "\<And>m'. m' \<noteq> m \<Longrightarrow> mutex_abs s' L m' = mutex_abs s L m'"
proof -
  have e: "L (MutexQueue m) = []" and n: "links s (MutexQueue m) \<noteq> Null"
    using assms(2) by (auto simp: mutex_abs_def split: if_splits)
  then have "links s (MutexQueue m) = Tagged"
    using kinv_mutex(3) [OF inv, of m] by (cases "links s (MutexQueue m)") auto
  then show "mutex_unlock s m = Inr s'" by (simp add: mutex_unlock_def irq_disable_def s'_def)
  show "kinv s' L" unfolding s'_def by (rule kinv_mutex_mark [OF inv e]) simp
qed (simp_all add: mutex_abs_def s'_def)

lemma mutex_lock_free:
  assumes inv: "kinv s L" and free: "mutex_abs s L m = Free"
  defines "s' \<equiv> s\<lparr>links := (links s)(MutexQueue m := Tagged)\<rparr>"
  shows "u_mutex_lock s m blocking = Inr (s', Done 1)" and "kinv s' L" and "mutex_abs s' L m = Held []"
    and "\<And>m'. m' \<noteq> m \<Longrightarrow> mutex_abs s' L m' = mutex_abs s L m'"
proof -
  have n: "links s (MutexQueue m) = Null"
    using free by (auto simp: mutex_abs_def split: if_splits)
  then show "u_mutex_lock s m blocking = Inr (s', Done 1)"
    by (simp add: u_mutex_lock_def irq_disable_def s'_def)
  have e: "L (MutexQueue m) = []" by (rule kinv_mutex(2) [OF inv n])
  then show "kinv s' L" unfolding s'_def by (rule kinv_mutex_mark [OF inv]) simp
  show "mutex_abs s' L m = Held []" using e by (simp add: mutex_abs_def s'_def)
qed (simp add: mutex_abs_def s'_def)

lemma mutex_trylock_held:
  "mutex_abs s L m = Held ws \<Longrightarrow> u_mutex_lock s m False = Inr (s, Done 0)"
  by (simp add: mutex_abs_def u_mutex_lock_def irq_disable_def split: if_splits)

text \<open>The first thread that waits for a locked mutex replaces the mark.\<close>

lemma kinv_first_waiter:
  assumes inv: "kinv s L" and tag: "links s (MutexQueue m) = Tagged" and live: "live s t"
    and st: "status (tcb s t) = STATUS_MUTEX_BLOCKED" and free: "\<And>l. t \<notin> set (L l)"
  shows "kinv (s\<lparr>links := (links s)(MutexQueue m := Ptr (RqEntry t), RqEntry t := Null)\<rparr>)
           (L(MutexQueue m := [t]))" (is "kinv ?s ?L")
  unfolding kinv_def
proof (intro conjI)
  show "layout_ok (links ?s) ?L"
    by (rule layout_update [where h = "links s"]) (use inv free in \<open>auto simp: kinv_def slist_def\<close>)
  show "threads_ok ?s" "active_ok ?s ?L" "cache_ok ?s ?L" "runq_ok ?s ?L"
    using inv by (simp_all add: kinv_def threads_ok_def active_ok_def cache_ok_def runq_ok_def)
  show "waiters_ok ?s ?L"
    using kinv_waiters_ok [OF inv] live st by (auto simp: waiters_ok_def)
  show "data_ok ?s ?L" using kinv_data_ok [OF inv] by (simp add: data_ok_def)
qed

lemma kinv_mutex_waiter:
  assumes inv: "kinv s L" and nn: "links s (MutexQueue m) \<noteq> Null" and live: "live s t"
    and st: "status (tcb s t) = STATUS_MUTEX_BLOCKED" and free: "\<And>l. t \<notin> set (L l)"
  obtains h where "(if links s (MutexQueue m) = Tagged
      then Inr (s\<lparr>links := (links s)(MutexQueue m := Ptr (RqEntry t), RqEntry t := Null)\<rparr>)
      else thread_add_to_list s (MutexQueue m) t) = Inr (s\<lparr>links := h\<rparr>)"
    and "kinv (s\<lparr>links := h\<rparr>) (L(MutexQueue m := insert_waiter s t (L (MutexQueue m))))"
    and "h (MutexQueue m) \<noteq> Null" and "\<And>m'. m' \<noteq> m \<Longrightarrow> h (MutexQueue m') = links s (MutexQueue m')"
proof (cases "links s (MutexQueue m) = Tagged")
  case True
  then have "L (MutexQueue m) = []" using kinv_mutex(1) [OF inv, of m] by simp
  then have "L(MutexQueue m := insert_waiter s t (L (MutexQueue m))) = L(MutexQueue m := [t])"
    by (simp add: insert_waiter_def)
  then show thesis
    using True kinv_first_waiter [OF inv True live st free]
    by (intro that [of "(links s)(MutexQueue m := Ptr (RqEntry t), RqEntry t := Null)"]) simp_all
next
  case False
  have st': "status (tcb s t) \<in> waiting_status (MutexQueue m)" using st by simp
  obtain h where "thread_add_to_list s (MutexQueue m) t = Inr (s\<lparr>links := h\<rparr>)"
    "kinv (s\<lparr>links := h\<rparr>) (L(MutexQueue m := insert_waiter s t (L (MutexQueue m))))"
    "h (MutexQueue m) \<noteq> Null" "\<And>m'. m' \<noteq> MutexQueue m \<Longrightarrow> \<not> is_entry m' \<Longrightarrow> h m' = links s m'"
    by (rule kinv_add_waiter [OF inv _ _ False live st' free], simp, simp, simp) (rule that)
  then show thesis using False by (intro that [of h]) simp_all
qed

lemma mutex_lock_waits:
  assumes inv: "kinv s L" and ctx: "thread_context s t" and held: "mutex_abs s L m = Held ws"
  defines "L' \<equiv> L(RunQueue (priority (tcb s t)) := tl (L (RunQueue (priority (tcb s t)))),
                 MutexQueue m := insert_waiter s t ws)"
  obtains s' where "u_mutex_lock s m True = Inr (s', Blocked)" and "kinv s' L'"
    and "mutex_abs s' L' m = Held (insert_waiter s t ws)"
    and "\<And>m'. m' \<noteq> m \<Longrightarrow> mutex_abs s' L' m' = mutex_abs s L m'"
    and "status (tcb s' t) = STATUS_MUTEX_BLOCKED" and "\<And>u. u \<noteq> t \<Longrightarrow> tcb s' u = tcb s u"
    and "msip s'" and "mie s'" and "in_isr s' = in_isr s" and "sched_active_thread s' = Some t"
    and "sched_threads s' = sched_threads s \<and> same_queues s s'"
proof -
  note c = thread_contextD [OF ctx]
  let ?L1 = "L(RunQueue (priority (tcb s t)) := tl (L (RunQueue (priority (tcb s t)))))"
  have ws: "L (MutexQueue m) = ws" and nn: "links s (MutexQueue m) \<noteq> Null"
    using held by (auto simp: mutex_abs_def split: if_splits)
  obtain s1 h b where s1: "sched_set_status (s\<lparr>mie := False\<rparr>) t STATUS_MUTEX_BLOCKED = Inr s1"
    "s1 = upd_thread t (set_status STATUS_MUTEX_BLOCKED) (s\<lparr>mie := False, links := h, runqueue_bitcache := b\<rparr>)"
    "kinv s1 ?L1" "\<And>l. t \<notin> set (?L1 l)" "live s1 t"
    "\<And>l. \<not> is_runqueue l \<Longrightarrow> \<not> is_entry l \<Longrightarrow> h l = links s l"
    by (rule block_active [OF inv ctx, of STATUS_MUTEX_BLOCKED], simp, simp) (rule that)
  have st: "status (tcb s1 t) = STATUS_MUTEX_BLOCKED" "insert_waiter s1 t ws = insert_waiter s t ws"
    by (simp add: s1(2), rule insert_waiter_cong) (simp add: s1(2))
  have nn1: "links s1 (MutexQueue m) \<noteq> Null" using s1(6) nn by (simp add: s1(2))
  have L': "?L1(MutexQueue m := insert_waiter s1 t (?L1 (MutexQueue m))) = L'"
    by (simp add: ws st(2) L'_def)
  obtain h' where h': "(if links s1 (MutexQueue m) = Tagged
      then Inr (s1\<lparr>links := (links s1)(MutexQueue m := Ptr (RqEntry t), RqEntry t := Null)\<rparr>)
      else thread_add_to_list s1 (MutexQueue m) t) = Inr (s1\<lparr>links := h'\<rparr>)" "kinv (s1\<lparr>links := h'\<rparr>) L'"
    "h' (MutexQueue m) \<noteq> Null" "\<And>m'. m' \<noteq> m \<Longrightarrow> h' (MutexQueue m') = links s1 (MutexQueue m')"
    by (rule kinv_mutex_waiter [where L = ?L1, OF s1(3) nn1 s1(5) st(1) s1(4), unfolded L']) (rule that)
  let ?s = "s1\<lparr>links := h', mie := True, msip := True\<rparr>"
  have e: "u_mutex_lock s m True = Inr (?s, Blocked)"
    using c nn s1(1) h'(1)
    by (simp add: u_mutex_lock_def irq_disable_def thread_yield_higher_def Let_def)
  have k: "kinv ?s L'" using h'(2) by (intro kinv_yield) simp
  have "mutex_abs ?s L' m = Held (insert_waiter s t ws)"
    "\<And>m'. m' \<noteq> m \<Longrightarrow> mutex_abs ?s L' m' = mutex_abs s L m'"
    using h'(3,4) s1(6) by (simp_all add: mutex_abs_def L'_def) (simp_all add: s1(2))
  then show thesis by (rule that [OF e k]) (simp_all add: s1(2) c)
qed

text \<open>What an unlock does to the abstract mutex, and the thread that gets it.\<close>

fun spec_unlock :: "mutex_spec \<Rightarrow> mutex_spec" where
  "spec_unlock Free = Free"
| "spec_unlock (Held []) = Free"
| "spec_unlock (Held (w # ws)) = Held ws"

fun spec_heir :: "mutex_spec \<Rightarrow> tid option" where
  "spec_heir (Held (w # ws)) = Some w"
| "spec_heir _ = None"

lemma mutex_heir_blocked:
  "kinv s L \<Longrightarrow> spec_heir (mutex_abs s L m) = Some w \<Longrightarrow> live s w \<and> status (tcb s w) = STATUS_MUTEX_BLOCKED"
  using kinv_waiter [of s L w "MutexQueue m"]
  by (cases "mutex_abs s L m" rule: spec_heir.cases) (auto simp: mutex_abs_def split: if_splits)

text \<open>The first half of \<open>mutex_unlock_and_sleep\<close>: the caller stays the head of its run queue.\<close>

lemma mutex_release:
  assumes inv: "kinv s L" and act: "sched_active_thread s = Some t"
    and on: "on_runqueue (status (tcb s t))" and head: "L (RunQueue (priority (tcb s t))) = t # ts"
  obtains s1 L1 ts1 where
    "(if links s (MutexQueue m) \<noteq> Null then
        (if links s (MutexQueue m) = Tagged then Inr (s\<lparr>links := (links s)(MutexQueue m := Null)\<rparr>)
         else bindE (mutex_pass_on s m) (\<lambda>(s, process). Inr s))
      else Inr s) = Inr s1"
    and "kinv s1 L1" and "L1 (RunQueue (priority (tcb s t))) = t # ts1" and "tcb s1 t = tcb s t"
    and "mutex_abs s1 L1 m = spec_unlock (mutex_abs s L m)"
    and "\<And>w. spec_heir (mutex_abs s L m) = Some w \<Longrightarrow> status (tcb s1 w) = STATUS_PENDING"
    and "sched_active_thread s1 = Some t" and "in_isr s1 = in_isr s" and "sched_threads s1 = sched_threads s \<and> same_queues s s1"
    and "\<And>u. on_runqueue (status (tcb s u)) \<Longrightarrow> on_runqueue (status (tcb s1 u))"
proof (cases "links s (MutexQueue m)")
  case Null
  then show thesis using inv head act by (intro that [of s L]) (simp_all add: mutex_abs_def)
next
  case Tagged
  note e = kinv_mutex(1) [OF inv Tagged]
  have "kinv (s\<lparr>links := (links s)(MutexQueue m := Null)\<rparr>) L" by (rule kinv_mutex_mark [OF inv e]) simp
  then show thesis using Tagged e head act
    by (intro that [of "s\<lparr>links := (links s)(MutexQueue m := Null)\<rparr>" L]) (simp_all add: mutex_abs_def)
next
  case (Ptr n)
  then obtain w ws where w: "L (MutexQueue m) = w # ws" using kinv_mutex(3) [OF inv] by blast
  have "status (tcb s w) = STATUS_MUTEX_BLOCKED" using kinv_waiter [OF inv, of w "MutexQueue m"] w by auto
  then have wt: "w \<noteq> t" using on by auto
  have nn: "links s (MutexQueue m) \<noteq> Null" "sched_active_thread s \<noteq> Some w \<or> switch_pending s"
    using Ptr act wt by simp_all
  let ?L = "L(MutexQueue m := ws, RunQueue (priority (tcb s w)) := L (RunQueue (priority (tcb s w))) @ [w])"
  obtain h b where p:
    "mutex_pass_on s m = Inr (upd_thread w (set_status STATUS_PENDING) (s\<lparr>links := h, runqueue_bitcache := b\<rparr>), w)"
    "kinv (upd_thread w (set_status STATUS_PENDING) (s\<lparr>links := h, runqueue_bitcache := b\<rparr>)) ?L"
    "h (MutexQueue m) \<noteq> Null"
    by (rule mutex_pass_on_passes [OF inv w nn]) (rule that)
  have hd: "?L (RunQueue (priority (tcb s t))) = t # (if priority (tcb s w) = priority (tcb s t) then ts @ [w] else ts)"
    using head by (cases "priority (tcb s w) = priority (tcb s t)") simp_all
  show thesis
    using p(1,3) Ptr w wt act by (intro that [OF _ p(2) hd]) (auto simp: mutex_abs_def)
qed

lemma mutex_unlock_and_sleep_sleeps:
  assumes inv: "kinv s L" and ctx: "thread_context s t"
  obtains s' L' where "mutex_unlock_and_sleep s m = Inr s'" and "kinv s' L'"
    and "mutex_abs s' L' m = spec_unlock (mutex_abs s L m)"
    and "\<And>w. spec_heir (mutex_abs s L m) = Some w \<Longrightarrow> status (tcb s' w) = STATUS_PENDING"
    and "status (tcb s' t) = STATUS_SLEEPING" and "msip s'" and "mie s'" and "in_isr s' = in_isr s"
    and "call_frame s s'"
proof -
  note c = thread_contextD [OF ctx]
  let ?s = "s\<lparr>mie := False\<rparr>"
  obtain ts where ts: "L (RunQueue (priority (tcb s t))) = t # ts"
    using kinv_active(3) [OF inv c(1) c(2) c(6)] by auto
  have 0: "kinv ?s L" "sched_active_thread ?s = Some t" "on_runqueue (status (tcb ?s t))"
    "L (RunQueue (priority (tcb ?s t))) = t # ts"
    using inv c ts by simp_all
  obtain s1 L1 ts1 where s1:
    "(if links ?s (MutexQueue m) \<noteq> Null then
        (if links ?s (MutexQueue m) = Tagged then Inr (?s\<lparr>links := (links ?s)(MutexQueue m := Null)\<rparr>)
         else bindE (mutex_pass_on ?s m) (\<lambda>(s, process). Inr s))
      else Inr ?s) = Inr s1"
    "kinv s1 L1" "L1 (RunQueue (priority (tcb ?s t))) = t # ts1" "tcb s1 t = tcb ?s t"
    "mutex_abs s1 L1 m = spec_unlock (mutex_abs ?s L m)"
    "\<And>w. spec_heir (mutex_abs ?s L m) = Some w \<Longrightarrow> status (tcb s1 w) = STATUS_PENDING"
    "sched_active_thread s1 = Some t" "in_isr s1 = in_isr ?s" "sched_threads s1 = sched_threads ?s \<and> same_queues ?s s1"
    "\<And>u. on_runqueue (status (tcb ?s u)) \<Longrightarrow> on_runqueue (status (tcb s1 u))"
    by (rule mutex_release [OF 0]) (rule that)
  have 1: "on_runqueue (status (tcb s1 t))" "\<not> on_runqueue STATUS_SLEEPING"
    "data_fits STATUS_SLEEPING (wait_data (tcb s1 t))" "L1 (RunQueue (priority (tcb s1 t))) = t # ts1" "priority (tcb s1 t) = priority (tcb s t)"
    using c s1 by simp_all
  obtain s2 h b where s2: "sched_set_status s1 t STATUS_SLEEPING = Inr s2"
    "s2 = upd_thread t (set_status STATUS_SLEEPING) (s1\<lparr>links := h, runqueue_bitcache := b\<rparr>)"
    "kinv s2 (L1(RunQueue (priority (tcb s t)) := ts1))"
    "\<And>l. \<not> is_runqueue l \<Longrightarrow> \<not> is_entry l \<Longrightarrow> h l = links s1 l"
    by (rule sched_set_status_block [OF s1(2,7) 1(1-4), unfolded 1(5)]) (rule that)
  let ?s' = "s2\<lparr>mie := True, msip := True\<rparr>"
  have e: "mutex_unlock_and_sleep s m = Inr ?s'"
    using c s1(1,7) s2(1) unfolding mutex_unlock_and_sleep_def
    by (simp only: irq_disable_def Let_def split_conv) (simp add: thread_yield_higher_def)
  have k: "kinv ?s' (L1(RunQueue (priority (tcb s t)) := ts1))" using s2(3) by (intro kinv_yield) simp
  have "mutex_abs ?s' (L1(RunQueue (priority (tcb s t)) := ts1)) m = mutex_abs s1 L1 m"
    using s2(4) [of "MutexQueue m"] by (simp add: mutex_abs_def s2(2))
  moreover have "w \<noteq> t" if "spec_heir (mutex_abs s L m) = Some w" for w
    using mutex_heir_blocked [OF inv that] c by auto
  moreover have "call_frame s ?s'" using c s1(7-10) by (intro call_frameI) (simp_all add: s2(2))
  ultimately show thesis
    using s1(5,6,8) by (intro that [OF e k]) (simp_all add: s2(2))
qed

section \<open>The calls keep their contract\<close>

lemma mutex_unlock_refines:
  assumes inv: "kinv s L" and prio: "prio_ok s" and act: "sched_active_thread s \<noteq> None"
  obtains s' L' where "mutex_unlock s m = Inr s'" and "kinv s' L'" and "prio_ok s'" and "call_frame s s'"
    and "mutex_abs s' L' m = spec_unlock (mutex_abs s L m)"
    and "\<And>m'. m' \<noteq> m \<Longrightarrow> mutex_abs s' L' m' = mutex_abs s L m'"
    and "\<And>w. spec_heir (mutex_abs s L m) = Some w \<Longrightarrow> status (tcb s' w) = STATUS_PENDING"
    and "\<And>p. \<exists>ws. L' (RunQueue p) = L (RunQueue p) @ ws"
    and "\<And>l. \<not> is_runqueue l \<Longrightarrow> l \<noteq> MutexQueue m \<Longrightarrow> L' l = L l"
    and "\<And>u. spec_heir (mutex_abs s L m) \<noteq> Some u \<Longrightarrow> tcb s' u = tcb s u"
    and "\<And>u. priority (tcb s' u) = priority (tcb s u)" and "sched_threads s' = sched_threads s \<and> same_queues s s'"
proof (cases "mutex_abs s L m" rule: spec_unlock.cases)
  case 1
  then show thesis using mutex_unlock_free [OF 1] inv prio by (intro that [of s L]) simp_all
next
  case 2
  let ?s = "s\<lparr>links := (links s)(MutexQueue m := Null)\<rparr>"
  note u = mutex_unlock_last [OF inv 2]
  have "call_frame s ?s" "prio_ok ?s"
    using prio by (auto simp: call_frame_def intro: prio_ok_cong)
  then show thesis using u 2 by (intro that [of ?s L]) simp_all
next
  case (3 w ws)
  obtain a where a: "sched_active_thread s = Some a" using act by blast
  let ?L = "L(MutexQueue m := ws, RunQueue (priority (tcb s w)) := L (RunQueue (priority (tcb s w))) @ [w])"
  obtain s' where s': "mutex_unlock s m = Inr s'" "kinv s' ?L" "prio_ok s'"
    "mutex_abs s' ?L m = Held ws" "\<And>m'. m' \<noteq> m \<Longrightarrow> mutex_abs s' ?L m' = mutex_abs s L m'"
    "status (tcb s' w) = STATUS_PENDING" "\<And>u. u \<noteq> w \<Longrightarrow> tcb s' u = tcb s u"
    "mie s' = mie s" "in_isr s' = in_isr s" "sched_active_thread s' = Some a"
    "sched_threads s' = sched_threads s \<and> same_queues s s'" "\<And>u. priority (tcb s' u) = priority (tcb s u)"
    by (rule mutex_unlock_hands_over [OF inv prio a 3]) (rule that)
  have "on_runqueue (status (tcb s' u))" if "on_runqueue (status (tcb s u))" for u
    using that s'(6,7) by (cases "u = w") auto
  then have "call_frame s s'" using s'(8-11) a by (intro call_frameI) simp_all
  then show thesis using s' 3 by (intro that [of s' ?L]) simp_all
qed

lemma mutex_lock_refines:
  assumes inv: "kinv s L" and prio: "prio_ok s" and ctx: "\<not> blocking \<or> thread_context s t"
  obtains s' L' r where "u_mutex_lock s m blocking = Inr (s', r)" and "kinv s' L'" and "prio_ok s'" and "call_frame s s'"
    and "\<And>m'. m' \<noteq> m \<Longrightarrow> mutex_abs s' L' m' = mutex_abs s L m'"
    and "mutex_abs s L m = Free \<Longrightarrow> r = Done 1 \<and> mutex_abs s' L' m = Held []"
    and "\<And>ws. mutex_abs s L m = Held ws \<Longrightarrow>
           if blocking then r = Blocked \<and> mutex_abs s' L' m = Held (insert_waiter s t ws) \<and>
             status (tcb s' t) = STATUS_MUTEX_BLOCKED \<and> switch_pending s'
           else r = Done 0 \<and> s' = s \<and> L' = L"
proof (cases "mutex_abs s L m")
  case Free
  let ?s = "s\<lparr>links := (links s)(MutexQueue m := Tagged)\<rparr>"
  have "call_frame s ?s" "prio_ok ?s"
    using prio by (auto simp: call_frame_def intro: prio_ok_cong)
  then show thesis using mutex_lock_free [OF inv Free] Free by (intro that [of ?s "Done 1" L]) simp_all
next
  case (Held ws)
  show thesis
  proof (cases blocking)
    case False
    then show thesis using mutex_trylock_held [OF Held] Held inv prio by (intro that [of s "Done 0" L]) simp_all
  next
    case True
    with ctx have t: "thread_context s t" by simp
    let ?L = "L(RunQueue (priority (tcb s t)) := tl (L (RunQueue (priority (tcb s t)))), MutexQueue m := insert_waiter s t ws)"
    obtain s' where s': "u_mutex_lock s m True = Inr (s', Blocked)" "kinv s' ?L"
      "mutex_abs s' ?L m = Held (insert_waiter s t ws)"
      "\<And>m'. m' \<noteq> m \<Longrightarrow> mutex_abs s' ?L m' = mutex_abs s L m'"
      "status (tcb s' t) = STATUS_MUTEX_BLOCKED" "\<And>u. u \<noteq> t \<Longrightarrow> tcb s' u = tcb s u"
      "msip s'" "mie s'" "in_isr s' = in_isr s" "sched_active_thread s' = Some t"
      "sched_threads s' = sched_threads s \<and> same_queues s s'"
      by (rule mutex_lock_waits [OF inv t Held]) (rule that)
    have "call_frame s s'" using s'(6-11) thread_contextD [OF t] by (intro call_frameI) auto
    moreover have "switch_pending s'" using s'(7) by (simp add: switch_pending_def)
    ultimately show thesis
      using s' Held True prio_ok_pending by (intro that [of s' Blocked ?L]) simp_all
  qed
qed

interpretation lock: kernel_call "\<lambda>s L. \<exists>t. thread_context s t" "\<lambda>s. mutex_lock s m" for m
proof unfold_locales
  fix s L
  assume inv: "kinv s L" and prio: "prio_ok s" and ctx: "\<exists>t. thread_context s t"
  then obtain t where "\<not> True \<or> thread_context s t" by blast
  then obtain s' L' r where "u_mutex_lock s m True = Inr (s', r)" "kinv s' L'" "prio_ok s'" "call_frame s s'"
    by (rule mutex_lock_refines [OF inv prio]) (rule that)
  then show "\<exists>s' r L'. mutex_lock s m = Inr (s', r) \<and> kinv s' L' \<and> prio_ok s' \<and> call_frame s s'"
    unfolding mutex_lock_def by blast
qed

interpretation trylock: kernel_call "\<lambda>s L. True" "\<lambda>s. mutex_trylock s m" for m
proof unfold_locales
  fix s L
  assume inv: "kinv s L" and prio: "prio_ok s"
  have nb: "\<not> False \<or> thread_context s t" for t by simp
  obtain s' L' r where "u_mutex_lock s m False = Inr (s', r)" "kinv s' L'" "prio_ok s'" "call_frame s s'"
    by (rule mutex_lock_refines [OF inv prio nb]) (rule that)
  then show "\<exists>s' r L'. mutex_trylock s m = Inr (s', r) \<and> kinv s' L' \<and> prio_ok s' \<and> call_frame s s'"
    unfolding mutex_trylock_def by blast
qed

interpretation unlock: kernel_call "\<lambda>s L. sched_active_thread s \<noteq> None" "\<lambda>s. noval (mutex_unlock s m)" for m
proof unfold_locales
  fix s L
  assume inv: "kinv s L" and prio: "prio_ok s" and a: "sched_active_thread s \<noteq> None"
  obtain s' L' where "mutex_unlock s m = Inr s'" "kinv s' L'" "prio_ok s'" "call_frame s s'"
    by (rule mutex_unlock_refines [OF inv prio a]) (rule that)
  then show "\<exists>s' r L'. noval (mutex_unlock s m) = Inr (s', r) \<and> kinv s' L' \<and> prio_ok s' \<and> call_frame s s'"
    by auto
qed

interpretation unlock_and_sleep: kernel_call "\<lambda>s L. \<exists>t. thread_context s t"
  "\<lambda>s. noval (mutex_unlock_and_sleep s m)" for m
proof unfold_locales
  fix s L
  assume inv: "kinv s L" and "\<exists>t. thread_context s t"
  then obtain t where t: "thread_context s t" by blast
  obtain s' L' where "mutex_unlock_and_sleep s m = Inr s'" "kinv s' L'" "msip s'" "call_frame s s'"
    by (rule mutex_unlock_and_sleep_sleeps [OF inv t]) (rule that)
  then show "\<exists>s' r L'. noval (mutex_unlock_and_sleep s m) = Inr (s', r) \<and> kinv s' L' \<and> prio_ok s' \<and> call_frame s s'"
    by (auto simp: prio_ok_def switch_pending_def)
qed

section \<open>Recursive mutexes\<close>

lemma rmutexes_simps [simp]:
  "kinv (s\<lparr>rmutexes := r\<rparr>) L = kinv s L"
  "prio_ok (s\<lparr>rmutexes := r\<rparr>) = prio_ok s"
  "mutex_abs (s\<lparr>rmutexes := r\<rparr>) L m = mutex_abs s L m"
  "call_frame s' (s\<lparr>rmutexes := r\<rparr>) = call_frame s' s"
  "call_frame (s'\<lparr>rmutexes := r\<rparr>) s = call_frame s' s"
  by (rule iffI; erule kinv_cong; simp)
    (simp_all add: prio_ok_def mutex_abs_def call_frame_def runnable_def)

lemma rmutex_take_simps [simp]:
  "kinv (rmutex_take s m) L = kinv s L" "prio_ok (rmutex_take s m) = prio_ok s"
  "mutex_abs (rmutex_take s m) L m' = mutex_abs s L m'" "call_frame s' (rmutex_take s m) = call_frame s' s"
  by (simp_all add: rmutex_take_def Let_def)

text \<open>What \<open>_lock\<close> does in each of the three situations its comment lists.\<close>

lemma rmutex_lock_free:
  assumes inv: "kinv s L" and free: "mutex_abs s L m = Free"
  shows "u_lock s m tr = Inr (rmutex_take (s\<lparr>links := (links s)(MutexQueue m := Tagged)\<rparr>) m, Done 1)"
  using mutex_lock_free(1) [OF inv free, of False] by (simp add: u_lock_def mutex_trylock_def)

lemma rmutex_relock:
  assumes "mutex_abs s L m = Held ws" and "owner (rmutexes s m) = sched_active_pid s"
  shows "u_lock s m tr = Inr (rmutex_take s m, Done 1)"
  using mutex_trylock_held [OF assms(1)] assms(2) by (simp add: u_lock_def mutex_trylock_def)

lemma rmutex_held:
  assumes "mutex_abs s L m = Held ws" and "owner (rmutexes s m) \<noteq> sched_active_pid s"
  shows "u_lock s m True = Inr (s, Done 0)"
    and "u_lock s m False = bindE (mutex_lock s m) (\<lambda>(s, r).
           case r of Blocked \<Rightarrow> Inr (s, Blocked) | Done _ \<Rightarrow> Inr (rmutex_take s m, Done 1))"
  using mutex_trylock_held [OF assms(1)] assms(2) by (simp_all add: u_lock_def mutex_trylock_def)

interpretation minit: kernel_call "\<lambda>s L. L (MutexQueue m) = []" "\<lambda>s. Inr (mutex_init s m, ())" for m
proof unfold_locales
  fix s L
  assume 1: "kinv s L" "prio_ok s" "L (MutexQueue m) = []"
  have "call_frame s (mutex_init s m)" by (rule call_frameI) (simp_all add: mutex_init_def)
  moreover have "prio_ok (mutex_init s m)" by (rule prio_ok_cong [OF 1(2)]) (simp_all add: mutex_init_def)
  ultimately show "\<exists>s' r L'. Inr (mutex_init s m, ()) = Inr (s', r) \<and> kinv s' L' \<and> prio_ok s' \<and> call_frame s s'"
    using kinv_mutex_mark [OF 1(1,3), of Null] by (auto simp: mutex_init_def)
qed

interpretation rtake: kernel_call "\<lambda>s L. True" "\<lambda>s. Inr (rmutex_take s m, ())" for m
proof unfold_locales
  fix s L
  assume 1: "kinv s L" "prio_ok s"
  have "call_frame s (rmutex_take s m)" by (rule call_frameI) (simp_all add: rmutex_take_def Let_def)
  moreover have "kinv (rmutex_take s m) L" by (rule kinv_cong [OF 1(1)]) (simp_all add: rmutex_take_def Let_def)
  moreover have "prio_ok (rmutex_take s m)"
    by (rule prio_ok_cong [OF 1(2)]) (simp_all add: rmutex_take_def Let_def runnable_def)
  ultimately show "\<exists>s' r L'. Inr (rmutex_take s m, ()) = Inr (s', r) \<and> kinv s' L' \<and> prio_ok s' \<and> call_frame s s'"
    by auto
qed

interpretation rlock: kernel_call "\<lambda>s L. tr \<or> (\<exists>t. thread_context s t)" "\<lambda>s. u_lock s m tr" for m tr
proof unfold_locales
  fix s L
  assume inv: "kinv s L" and prio: "prio_ok s" and ctx: "tr \<or> (\<exists>t. thread_context s t)"
  show "\<exists>s' r L'. u_lock s m tr = Inr (s', r) \<and> kinv s' L' \<and> prio_ok s' \<and> call_frame s s'"
  proof (cases "mutex_abs s L m")
    case Free
    note l = mutex_lock_free(2) [OF inv Free]
    have "prio_ok (s\<lparr>links := (links s)(MutexQueue m := Tagged)\<rparr>)"
      "call_frame s (s\<lparr>links := (links s)(MutexQueue m := Tagged)\<rparr>)"
      using prio by (auto simp: call_frame_def intro: prio_ok_cong)
    then show ?thesis using rmutex_lock_free [OF inv Free] l
      by (simp, intro exI [of _ "Done 1"] exI [of _ L]) simp
  next
    case (Held ws)
    show ?thesis
    proof (cases "owner (rmutexes s m) = sched_active_pid s")
      case True
      then show ?thesis using rmutex_relock [OF Held True] inv prio by auto
    next
      case False
      note h = rmutex_held [OF Held False]
      show ?thesis
      proof (cases tr)
        case True
        then show ?thesis using h inv prio by auto
      next
        case False
        with ctx have "\<exists>t. thread_context s t" by simp
        from lock.safe [OF inv prio this, of m] obtain s' r L' where
          "mutex_lock s m = Inr (s', r)" "kinv s' L'" "prio_ok s'" "call_frame s s'"
          by blast
        then show ?thesis using h False
          by (cases r) auto
      qed
    qed
  qed
qed

interpretation runlock: kernel_call
  "\<lambda>s L. sched_active_thread s \<noteq> None \<and> owner (rmutexes s m) = sched_active_pid s \<and> 0 < refcount (rmutexes s m)"
  "\<lambda>s. noval (rmutex_unlock s m)" for m
proof unfold_locales
  fix s :: kernel and L
  let ?r = "rmutexes s m"
  let ?s1 = "s\<lparr>rmutexes := (rmutexes s)(m := ?r\<lparr>refcount := refcount ?r - 1\<rparr>)\<rparr>"
  let ?s2 = "?s1\<lparr>rmutexes := (rmutexes ?s1)(m := (rmutexes ?s1 m)\<lparr>owner := KERNEL_PID_UNDEF\<rparr>)\<rparr>"
  assume inv: "kinv s L" and prio: "prio_ok s" and ctx: "sched_active_thread s \<noteq> None \<and>
    owner ?r = sched_active_pid s \<and> 0 < refcount ?r"
  show "\<exists>s' r L'. noval (rmutex_unlock s m) = Inr (s', r) \<and> kinv s' L' \<and> prio_ok s' \<and> call_frame s s'"
  proof (cases "refcount ?r - 1 = 0")
    case True
    have "kinv ?s2 L" "prio_ok ?s2" "sched_active_thread ?s2 \<noteq> None" using inv prio ctx by simp_all
    from unlock.safe [OF this, of m] obtain s' r L' where
      "noval (mutex_unlock ?s2 m) = Inr (s', r)" "kinv s' L'" "prio_ok s'" "call_frame ?s2 s'" by blast
    then show ?thesis using ctx True by (simp add: rmutex_unlock_def Let_def) blast
  next
    case False
    then show ?thesis using ctx inv prio by (auto simp: rmutex_unlock_def Let_def)
  qed
qed

text \<open>The state after the active thread locked the recursive mutex \<open>k\<close> times.\<close>

definition rmutex_nested :: "kernel \<Rightarrow> int \<Rightarrow> nat \<Rightarrow> kernel" where
  "rmutex_nested s m k =
     s\<lparr>links := (links s)(MutexQueue m := Tagged),
       rmutexes := (rmutexes s)(m := \<lparr>refcount = of_nat k, owner = sched_active_pid s\<rparr>)\<rparr>"

definition rlock_step :: "int \<Rightarrow> kernel \<Rightarrow> fault + kernel" where
  "rlock_step m s = bindE (rmutex_lock s m) (\<lambda>(s, r). Inr s)"

lemma rmutex_nested_abs: "L (MutexQueue m) = [] \<Longrightarrow> mutex_abs (rmutex_nested s m k) L m = Held []"
  by (simp add: mutex_abs_def rmutex_nested_def)

lemma rlock_nested: "rlock_step m (rmutex_nested s m k) = Inr (rmutex_nested s m (Suc k))"
  by (simp add: rlock_step_def rmutex_lock_def u_lock_def mutex_trylock_def u_mutex_lock_def irq_disable_def
      rmutex_take_def rmutex_nested_def Let_def add.commute)

lemma iter_rlock_nested: "iterE n (rlock_step m) (rmutex_nested s m k) = Inr (rmutex_nested s m (k + n))"
  by (induction n arbitrary: k) (simp_all add: rlock_nested)

lemma runlock_nested:
  assumes "k < 2 ^ 16 - 1" and "0 < k"
  shows "rmutex_unlock (rmutex_nested s m (Suc k)) m = Inr (rmutex_nested s m k)"
proof -
  have *: "(of_nat k + 1 :: u16) = of_nat (Suc k)" by simp
  have 1: "(of_nat (Suc k) :: u16) \<noteq> 0" "(of_nat k :: u16) \<noteq> 0"
    using assms by (simp_all only: word_of_nat_eq_0_iff) (auto dest: dvd_imp_le)
  then show ?thesis
    by (simp only: rmutex_unlock_def rmutex_nested_def Let_def word_gt_0)
      (simp add: * del: of_nat_Suc, simp)
qed

lemma iter_runlock_nested:
  "n < 2 ^ 16 - 1 \<Longrightarrow> iterE n (\<lambda>s. rmutex_unlock s m) (rmutex_nested s m (Suc n)) = Inr (rmutex_nested s m 1)"
  by (induction n) (simp_all add: runlock_nested)

section \<open>Properties\<close>

text \<open>
  C12: \<open>mutex_lock\<close> refines the abstract mutex: a free mutex is taken at once; for a held mutex the
  caller is blocked, is put into the waiting list behind the threads at least as urgent, and a
  switch is pending. Other mutexes are unchanged and the call keeps the invariant.
\<close>

theorem mutex_lock_spec:
  assumes "kinv s L" and "prio_ok s" and "thread_context s t"
  shows "\<exists>s' L' r. mutex_lock s m = Inr (s', r) \<and> kinv s' L' \<and> prio_ok s' \<and>
    (\<forall>m'. m' \<noteq> m \<longrightarrow> mutex_abs s' L' m' = mutex_abs s L m') \<and>
    (case mutex_abs s L m of
       Free \<Rightarrow> r = Done 1 \<and> mutex_abs s' L' m = Held [] \<and> tcb s' = tcb s
     | Held ws \<Rightarrow> r = Blocked \<and> mutex_abs s' L' m = Held (insert_waiter s t ws) \<and>
         status (tcb s' t) = STATUS_MUTEX_BLOCKED \<and> switch_pending s')"
proof (cases "mutex_abs s L m")
  case Free
  let ?s = "s\<lparr>links := (links s)(MutexQueue m := Tagged)\<rparr>"
  have "prio_ok ?s" using assms(2) by (auto intro: prio_ok_cong)
  then show ?thesis
    using mutex_lock_free [OF assms(1) Free] Free
    by (intro exI [of _ ?s] exI [of _ L] exI [of _ "Done 1"]) (simp add: mutex_lock_def)
next
  case (Held ws)
  have "\<not> True \<or> thread_context s t" using assms(3) by simp
  then obtain s' L' r where s': "u_mutex_lock s m True = Inr (s', r)" "kinv s' L'" "prio_ok s'"
    "\<And>m'. m' \<noteq> m \<Longrightarrow> mutex_abs s' L' m' = mutex_abs s L m'"
    "\<And>ws. mutex_abs s L m = Held ws \<Longrightarrow>
       if True then r = Blocked \<and> mutex_abs s' L' m = Held (insert_waiter s t ws) \<and>
         status (tcb s' t) = STATUS_MUTEX_BLOCKED \<and> switch_pending s'
       else r = Done 0 \<and> s' = s \<and> L' = L"
    by (rule mutex_lock_refines [OF assms(1,2)]) (rule that)
  then show ?thesis using Held unfolding mutex_lock_def by auto
qed

theorem mutex_lock_spec_witness:
  "\<exists>s' L' r. mutex_lock demo 1 = Inr (s', r) \<and> kinv s' L' \<and> prio_ok s' \<and>
    (\<forall>m'. m' \<noteq> 1 \<longrightarrow> mutex_abs s' L' m' = mutex_abs demo demo_layout m') \<and>
    r = Blocked \<and> mutex_abs s' L' 1 = Held [300, 200] \<and>
    status (tcb s' 200) = STATUS_MUTEX_BLOCKED \<and> switch_pending s'"
proof -
  have "mutex_abs demo demo_layout 1 = Held [300]" by (simp add: mutex_abs_def)
  moreover have "insert_waiter demo 200 [300] = [300, 200]" by (simp add: insert_waiter_def)
  ultimately show ?thesis
    using mutex_lock_spec [OF demo_kinv demo_prio_ok demo_context, of 1] by simp
qed

text \<open>
  C6: \<open>mutex_unlock\<close> refines the abstract mutex: without a waiting thread the mutex becomes free,
  otherwise it passes to the first waiting thread, which is the most urgent one and becomes
  runnable; afterwards the priorities are respected or a switch is pending.
\<close>

theorem mutex_unlock_spec:
  assumes "kinv s L" and "prio_ok s" and "sched_active_thread s \<noteq> None"
  shows "\<exists>s' L'. mutex_unlock s m = Inr s' \<and> kinv s' L' \<and> prio_ok s' \<and>
    mutex_abs s' L' m = spec_unlock (mutex_abs s L m) \<and>
    (\<forall>m'. m' \<noteq> m \<longrightarrow> mutex_abs s' L' m' = mutex_abs s L m') \<and>
    (\<forall>w ws. mutex_abs s L m = Held (w # ws) \<longrightarrow> runnable s' w \<and> \<not> runnable s w \<and>
       (\<forall>u \<in> set ws. priority (tcb s w) \<le> priority (tcb s u)))"
proof -
  obtain s' L' where s': "mutex_unlock s m = Inr s'" "kinv s' L'" "prio_ok s'" "call_frame s s'"
    "mutex_abs s' L' m = spec_unlock (mutex_abs s L m)"
    "\<And>m'. m' \<noteq> m \<Longrightarrow> mutex_abs s' L' m' = mutex_abs s L m'"
    "\<And>w. spec_heir (mutex_abs s L m) = Some w \<Longrightarrow> status (tcb s' w) = STATUS_PENDING"
    by (rule mutex_unlock_refines [OF assms]) (rule that)
  have "runnable s' w \<and> \<not> runnable s w \<and> (\<forall>u \<in> set ws. priority (tcb s w) \<le> priority (tcb s u))"
    if h: "mutex_abs s L m = Held (w # ws)" for w ws
  proof -
    have w: "live s w" "status (tcb s w) = STATUS_MUTEX_BLOCKED"
      using mutex_heir_blocked [OF assms(1), of m w] h by simp_all
    have "L (MutexQueue m) = w # ws" using h by (auto simp: mutex_abs_def split: if_splits)
    then have "sorted (map (\<lambda>u. priority (tcb s u)) (w # ws))"
      using kinv_waiters_ok [OF assms(1)] by (metis waiters_ok_def is_runqueue.simps(4))
    then show ?thesis
      using s'(4,7) h w by (auto simp: runnable_def call_frame_def)
  qed
  then show ?thesis using s' by blast
qed

theorem mutex_unlock_spec_witness:
  "\<exists>s' L'. mutex_unlock demo 1 = Inr s' \<and> kinv s' L' \<and> prio_ok s' \<and>
    mutex_abs s' L' 1 = Held [] \<and> runnable s' 300 \<and> \<not> runnable demo 300"
proof -
  have "mutex_abs demo demo_layout 1 = Held [300]" by (simp add: mutex_abs_def)
  then show ?thesis
    using mutex_unlock_spec [OF demo_kinv demo_prio_ok, of 1] by auto
qed

text \<open>
  A recursive mutex that is free can be locked \<open>n\<close> times by the same thread without blocking;
  exactly the \<open>n\<close>-th unlock releases it. This holds up to \<open>n = 65535\<close>, the range of the counter.
\<close>

theorem rmutex_nesting:
  assumes "kinv s L" and "mutex_abs s L m = Free" and "refcount (rmutexes s m) = 0"
    and "0 < n" and "n < 2 ^ 16"
  shows "\<exists>s1 s2 s3. iterE n (rlock_step m) s = Inr s1 \<and> owner (rmutexes s1 m) = sched_active_pid s \<and>
    unat (refcount (rmutexes s1 m)) = n \<and> mutex_abs s1 L m = Held [] \<and>
    iterE (n - 1) (\<lambda>s. rmutex_unlock s m) s1 = Inr s2 \<and> mutex_abs s2 L m = Held [] \<and>
    rmutex_unlock s2 m = Inr s3 \<and> mutex_abs s3 L m = Free \<and> owner (rmutexes s3 m) = KERNEL_PID_UNDEF"
proof -
  obtain k where n: "n = Suc k" using assms(4) by (cases n) auto
  have e: "L (MutexQueue m) = []"
    using kinv_mutex(2) [OF assms(1)] assms(2) by (auto simp: mutex_abs_def split: if_splits)
  have 1: "rlock_step m s = Inr (rmutex_nested s m 1)"
    using rmutex_lock_free [OF assms(1,2), of False] assms(3)
    by (cases "rmutexes s m") (simp add: rlock_step_def rmutex_lock_def rmutex_take_def rmutex_nested_def Let_def)
  have "iterE n (rlock_step m) s = Inr (rmutex_nested s m n)"
    using 1 iter_rlock_nested [of k m s 1] by (simp add: n)
  moreover have "unat (of_nat n :: u16) = n"
    using assms(5) by (simp add: unat_of_nat take_bit_nat_eq_self_iff)
  moreover have "iterE (n - 1) (\<lambda>s. rmutex_unlock s m) (rmutex_nested s m n) = Inr (rmutex_nested s m 1)"
    using iter_runlock_nested [of k m s] assms(5) n by simp
  moreover have "\<exists>s3. rmutex_unlock (rmutex_nested s m 1) m = Inr s3 \<and> mutex_abs s3 L m = Free \<and>
      owner (rmutexes s3 m) = KERNEL_PID_UNDEF"
    by (simp add: rmutex_unlock_def rmutex_nested_def Let_def mutex_unlock_def irq_disable_def mutex_abs_def)
  ultimately show ?thesis
    using rmutex_nested_abs [of L m, OF e] by (auto simp: rmutex_nested_def)
qed

theorem rmutex_nesting_witness:
  "\<exists>s1 s2 s3. iterE 3 (rlock_step 3) demo = Inr s1 \<and> owner (rmutexes s1 3) = 2 \<and>
    unat (refcount (rmutexes s1 3)) = 3 \<and> mutex_abs s1 demo_layout 3 = Held [] \<and>
    iterE 2 (\<lambda>s. rmutex_unlock s 3) s1 = Inr s2 \<and> mutex_abs s2 demo_layout 3 = Held [] \<and>
    rmutex_unlock s2 3 = Inr s3 \<and> mutex_abs s3 demo_layout 3 = Free \<and> owner (rmutexes s3 3) = KERNEL_PID_UNDEF"
proof -
  have "mutex_abs demo demo_layout 3 = Free" "refcount (rmutexes demo 3) = 0"
    by (simp_all add: mutex_abs_def demo_def)
  then show ?thesis using rmutex_nesting [OF demo_kinv, of 3 3] by simp
qed

end
