(* ===== verification/Cond.thy ===== *)
theory Cond
  imports Mutex
begin

text \<open>
  Condition variables (\<open>core/cond.c\<close>). \<open>cond_wait\<close> releases the mutex, blocks and, once the caller
  runs again, takes the mutex again; the last part is \<open>cond_wait_resume\<close>.
\<close>

section \<open>The operations\<close>

definition cond_init :: "kernel \<Rightarrow> int \<Rightarrow> kernel" where
  "cond_init s cond = s\<lparr>links := (links s)(CondQueue cond := Null)\<rparr>"

definition cond_wait :: "kernel \<Rightarrow> int \<Rightarrow> int \<Rightarrow> fault + (kernel \<times> unit outcome)" where
  "cond_wait s cond mutex =
     (let (s, irqstate) = irq_disable s in
      bindE (active_thread s) (\<lambda>me.
      bindE (mutex_unlock s mutex) (\<lambda>s.
      bindE (sched_set_status s me STATUS_COND_BLOCKED) (\<lambda>s.
      bindE (thread_add_to_list s (CondQueue cond) me) (\<lambda>s.
        Inr (thread_yield_higher (irq_restore irqstate s), Blocked))))))"

definition cond_wait_resume :: "kernel \<Rightarrow> int \<Rightarrow> fault + (kernel \<times> int outcome)" where
  "cond_wait_resume s mutex = mutex_lock s mutex"

partial_function (option) cond_signal_loop ::
  "kernel \<Rightarrow> int \<Rightarrow> bool \<Rightarrow> nat \<Rightarrow> (fault + (kernel \<times> nat)) option" where
  "cond_signal_loop s cond broadcast min_prio =
     (case list_remove_head (links s) (CondQueue cond) of
        Inl e \<Rightarrow> Some (Inl e)
      | Inr hn \<Rightarrow>
          (let s = s\<lparr>links := fst hn\<rparr> in
           if snd hn = Null then Some (Inr (s, min_prio))
           else case bindE (thread_of (snd hn)) (\<lambda>process.
                       bindE (sched_set_status s process STATUS_PENDING) (\<lambda>s. Inr (s, process))) of
                  Inl e \<Rightarrow> Some (Inl e)
                | Inr sp \<Rightarrow>
                    (let s = fst sp;
                         process_priority = priority (tcb s (snd sp));
                         min_prio = (if process_priority < min_prio then process_priority else min_prio)
                     in if \<not> broadcast then Some (Inr (s, min_prio))
                        else cond_signal_loop s cond broadcast min_prio)))"

definition u_cond_signal :: "kernel \<Rightarrow> int \<Rightarrow> bool \<Rightarrow> fault + kernel" where
  "u_cond_signal s cond broadcast =
     (let (s, irqstate) = irq_disable s in
      case cond_signal_loop s cond broadcast (THREAD_PRIORITY_MIN + 1) of
        None \<Rightarrow> Inl NoReturn
      | Some (Inl e) \<Rightarrow> Inl e
      | Some (Inr (s, min_prio)) \<Rightarrow>
          let s = irq_restore irqstate s in
          if min_prio \<le> THREAD_PRIORITY_MIN then sched_switch s min_prio else Inr s)"

definition cond_signal :: "kernel \<Rightarrow> int \<Rightarrow> fault + kernel" where
  "cond_signal s cond = u_cond_signal s cond False"

definition cond_broadcast :: "kernel \<Rightarrow> int \<Rightarrow> fault + kernel" where
  "cond_broadcast s cond = u_cond_signal s cond True"

section \<open>Waiting\<close>

lemma cond_waits:
  assumes inv: "kinv s L" and prio: "prio_ok s" and ctx: "thread_context s t"
  obtains s' L' where "cond_wait s c m = Inr (s', Blocked)" and "kinv s' L'" and "call_frame s s'"
    and "msip s'" and "status (tcb s' t) = STATUS_COND_BLOCKED"
    and "L' (CondQueue c) = insert_waiter s t (L (CondQueue c))"
    and "mutex_abs s' L' m = spec_unlock (mutex_abs s L m)"
    and "\<And>w. spec_heir (mutex_abs s L m) = Some w \<Longrightarrow> status (tcb s' w) = STATUS_PENDING"
proof -
  note c = thread_contextD [OF ctx]
  let ?s = "s\<lparr>mie := False\<rparr>" and ?p = "priority (tcb s t)"
  have 0: "kinv ?s L" "prio_ok ?s" "sched_active_thread ?s \<noteq> None" using inv prio c by simp_all
  obtain s1 L1 where s1: "mutex_unlock ?s m = Inr s1" "kinv s1 L1" "prio_ok s1" "call_frame ?s s1"
    "mutex_abs s1 L1 m = spec_unlock (mutex_abs ?s L m)"
    "\<And>w. spec_heir (mutex_abs ?s L m) = Some w \<Longrightarrow> status (tcb s1 w) = STATUS_PENDING"
    "\<And>p. \<exists>ws. L1 (RunQueue p) = L (RunQueue p) @ ws"
    "\<And>l. \<not> is_runqueue l \<Longrightarrow> l \<noteq> MutexQueue m \<Longrightarrow> L1 l = L l"
    "\<And>u. spec_heir (mutex_abs ?s L m) \<noteq> Some u \<Longrightarrow> tcb s1 u = tcb ?s u"
    "\<And>u. priority (tcb s1 u) = priority (tcb ?s u)" "sched_threads s1 = sched_threads ?s \<and> same_queues ?s s1"
    by (rule mutex_unlock_refines [OF 0]) (rule that)
  have nh: "spec_heir (mutex_abs s L m) \<noteq> Some t" using mutex_heir_blocked [OF inv, of m t] c(2) by auto
  then have t1: "tcb s1 t = tcb s t" using s1(9) by simp
  obtain ts ws where "L (RunQueue ?p) = t # ts" "L1 (RunQueue ?p) = L (RunQueue ?p) @ ws"
    using kinv_active(3) [OF inv c(1,2,6)] s1(7) by blast
  then have 1: "sched_active_thread s1 = Some t" "on_runqueue (status (tcb s1 t))"
    "L1 (RunQueue (priority (tcb s1 t))) = t # (ts @ ws)" and pr: "priority (tcb s1 t) = ?p"
    using s1(4) c t1 by (simp_all add: call_frame_def)
  have 2: "\<not> is_runqueue (CondQueue c)" "\<not> is_entry (CondQueue c)" "links s1 (CondQueue c) \<noteq> Tagged"
    "STATUS_COND_BLOCKED \<in> waiting_status (CondQueue c)" "data_fits STATUS_COND_BLOCKED (wait_data (tcb s1 t))"
    "\<forall>m. CondQueue c = MboxReaders m \<longrightarrow> is_msg (wait_data (tcb s1 t))"
    using kinv_not_tagged [OF s1(2), of "CondQueue c"] by simp_all
  let ?L' = "L1(RunQueue ?p := ts @ ws, CondQueue c := insert_waiter s t (L (CondQueue c)))"
  have ins: "insert_waiter s1 t (L1 (CondQueue c)) = insert_waiter s t (L (CondQueue c))"
    using s1(8) [of "CondQueue c"] by (simp, intro insert_waiter_cong) (simp add: s1(10))
  obtain s2 s3 h b where s2: "sched_set_status s1 t STATUS_COND_BLOCKED = Inr s2"
    "thread_add_to_list s2 (CondQueue c) t = Inr s3"
    "s3 = upd_thread t (set_status STATUS_COND_BLOCKED) (s1\<lparr>links := h, runqueue_bitcache := b\<rparr>)" "kinv s3 ?L'"
    "\<And>m. m \<noteq> CondQueue c \<Longrightarrow> \<not> is_runqueue m \<Longrightarrow> \<not> is_entry m \<Longrightarrow> h m = links s1 m"
    by (rule block_on_list [OF s1(2) 1 2, unfolded pr ins]) (rule that)
  let ?s' = "s3\<lparr>mie := True, msip := True\<rparr>"
  have e: "cond_wait s c m = Inr (?s', Blocked)"
    using c s1(1) s2(1,2) by (simp add: cond_wait_def irq_disable_def thread_yield_higher_def)
  have k: "kinv ?s' ?L'" using s2(4) by (intro kinv_yield) simp
  have "mutex_abs ?s' ?L' m = mutex_abs s1 L1 m"
    using s2(5) [of "MutexQueue m"] by (simp add: mutex_abs_def s2(3))
  moreover have "call_frame s ?s'"
    using s1(4) c(1,3,5) by (auto simp: call_frame_def runnable_def s2(3))
  moreover have "status (tcb ?s' w) = STATUS_PENDING" if "spec_heir (mutex_abs s L m) = Some w" for w
    using s1(6) [of w] that nh by (auto simp: s2(3))
  ultimately show thesis using s1(5) by (intro that [OF e k]) (simp_all add: s2(3))
qed

section \<open>Waking\<close>

text \<open>What the loop of \<open>_cond_signal\<close> does: the threads \<open>ws\<close> become runnable, nothing else changes.\<close>

definition woken :: "kernel \<Rightarrow> tid list \<Rightarrow> kernel \<Rightarrow> bool" where
  "woken s ws s' \<longleftrightarrow>
     (\<forall>u \<in> set ws. status (tcb s' u) = STATUS_PENDING) \<and> (\<forall>u. u \<notin> set ws \<longrightarrow> tcb s' u = tcb s u) \<and>
     (\<forall>u. priority (tcb s' u) = priority (tcb s u)) \<and> sched_threads s' = sched_threads s \<and> same_queues s s' \<and>
     sched_active_thread s' = sched_active_thread s \<and> in_isr s' = in_isr s \<and> mie s' = mie s \<and>
     switch_pending s' = switch_pending s"

lemma woken_Nil: "woken s [] (s\<lparr>links := h\<rparr>)"
  by (simp add: woken_def)

lemma woken_Cons: "woken s [w] s1 \<Longrightarrow> woken s1 ws s2 \<Longrightarrow> woken s (w # ws) s2"
  unfolding woken_def by simp metis

lemma cond_signal_loop_wakes:
  assumes "kinv s L" and "L (CondQueue c) = ts" and "prio_ok_but s W"
    and "\<forall>w \<in> set ts. sched_active_thread s \<noteq> Some w \<or> switch_pending s"
    and "\<forall>w \<in> W. mp \<le> priority (tcb s w)"
  shows "\<exists>s' mp' L'. cond_signal_loop s c bc mp = Some (Inr (s', mp')) \<and> kinv s' L' \<and>
    L' (CondQueue c) = (if bc then [] else tl ts) \<and> woken s (if bc then ts else take 1 ts) s' \<and>
    prio_ok_but s' (W \<union> set (if bc then ts else take 1 ts)) \<and>
    (\<forall>w \<in> W \<union> set (if bc then ts else take 1 ts). mp' \<le> priority (tcb s' w)) \<and>
    mp' \<le> mp \<and> (ts \<noteq> [] \<longrightarrow> mp' \<le> THREAD_PRIORITY_MIN) \<and> (ts = [] \<longrightarrow> mp' = mp)"
  using assms
proof (induction ts arbitrary: s L W mp)
  case Nil
  have "slist (links s) (CondQueue c) []" using kinv_queue_at [OF Nil(1), of "CondQueue c"] Nil(2) by simp
  then have "cond_signal_loop s c bc mp = Some (Inr (s, mp))"
    by (subst cond_signal_loop.simps) simp
  then show ?case using Nil woken_Nil [of s "links s"] by auto
next
  case (Cons w ts)
  define L1 where "L1 = L(CondQueue c := ts, RunQueue (priority (tcb s w)) := L (RunQueue (priority (tcb s w))) @ [w])"
  have L1: "L1 (CondQueue c) = ts" by (simp add: L1_def)
  have act: "sched_active_thread s \<noteq> Some w \<or> switch_pending s" using Cons.prems(4) by simp
  have nrq: "\<not> is_runqueue (CondQueue c)" by simp
  obtain h1 s1 h b where s1: "list_remove_head (links s) (CondQueue c) = Inr (h1, Ptr (RqEntry w))"
    "sched_set_status (s\<lparr>links := h1\<rparr>) w STATUS_PENDING = Inr s1"
    "s1 = upd_thread w (set_status STATUS_PENDING) (s\<lparr>links := h, runqueue_bitcache := b\<rparr>)" "kinv s1 L1"
    by (rule wake_head [OF Cons.prems(1) nrq Cons.prems(2) act, folded L1_def]) (rule that)
  let ?mp = "if priority (tcb s1 w) < mp then priority (tcb s1 w) else mp"
  have step: "cond_signal_loop s c bc mp =
      (if \<not> bc then Some (Inr (s1, ?mp)) else cond_signal_loop s1 c bc ?mp)"
    by (subst cond_signal_loop.simps) (simp add: s1(1,2) Let_def)
  have w1: "woken s [w] s1" by (simp add: woken_def s1(3))
  have W1: "prio_ok_but s1 (insert w W)"
    by (rule prio_ok_but_wake [OF Cons.prems(3)]) (simp_all add: s1(3))
  have mp1: "\<forall>u \<in> insert w W. ?mp \<le> priority (tcb s1 u)"
    using Cons.prems(5) w1 by (fastforce simp: woken_def)
  have "priority (tcb s1 w) < SCHED_PRIO_LEVELS"
    using kinv_priority [OF Cons.prems(1), of w] kinv_waiter [OF Cons.prems(1), of w "CondQueue c"]
      Cons.prems(2) w1 by (simp add: woken_def)
  then have min': "?mp \<le> THREAD_PRIORITY_MIN" by (auto simp: kernel_consts)
  show ?case
  proof (cases bc)
    case False
    then show ?thesis using step s1(4) w1 W1 mp1 min' L1
      by (intro exI [of _ s1] exI [of _ ?mp] exI [of _ L1]) simp
  next
    case True
    have "\<forall>w \<in> set ts. sched_active_thread s1 \<noteq> Some w \<or> switch_pending s1"
      using Cons.prems(4) w1 by (simp_all add: woken_def)
    from Cons.IH [OF s1(4) L1 W1 this mp1] obtain s2 mp2 L2 where
      "cond_signal_loop s1 c bc ?mp = Some (Inr (s2, mp2))" "kinv s2 L2" "L2 (CondQueue c) = []"
      "woken s1 ts s2" "prio_ok_but s2 (insert w W \<union> set ts)"
      "\<forall>w \<in> insert w W \<union> set ts. mp2 \<le> priority (tcb s2 w)" "mp2 \<le> ?mp"
      using True by auto
    moreover have "mp2 \<le> mp" using \<open>mp2 \<le> ?mp\<close> by (auto split: if_splits)
    ultimately show ?thesis using True step min' woken_Cons [OF w1]
      by (intro exI [of _ s2] exI [of _ mp2] exI [of _ L2]) auto
  qed
qed

lemma u_cond_signal_wakes:
  fixes c :: int and bc :: bool
  assumes inv: "kinv s L" and prio: "prio_ok s" and act: "sched_active_thread s \<noteq> None"
  defines "ws \<equiv> if bc then L (CondQueue c) else take 1 (L (CondQueue c))"
  obtains s' L' where "u_cond_signal s c bc = Inr s'" and "kinv s' L'" and "prio_ok s'" and "call_frame s s'"
    and "L' (CondQueue c) = (if bc then [] else tl (L (CondQueue c)))"
    and "\<And>w. w \<in> set ws \<Longrightarrow> status (tcb s' w) = STATUS_PENDING" and "\<And>u. u \<notin> set ws \<Longrightarrow> tcb s' u = tcb s u"
proof -
  let ?s = "s\<lparr>mie := False\<rparr>" and ?ts = "L (CondQueue c)"
  obtain a where a: "sched_active_thread s = Some a" using act by blast
  have "\<forall>w \<in> set ?ts. sched_active_thread ?s \<noteq> Some w \<or> switch_pending ?s"
  proof
    fix w
    assume "w \<in> set ?ts"
    then have "status (tcb s w) = STATUS_COND_BLOCKED" using kinv_waiter [OF inv, of w "CondQueue c"] by simp
    then show "sched_active_thread ?s \<noteq> Some w \<or> switch_pending ?s" using prio_ok_blocked [OF prio, of w] by simp
  qed
  moreover have "kinv ?s L" "prio_ok_but ?s {}" using inv prio_ok_but_empty [OF prio] by simp_all
  ultimately obtain s1 mp L1 where s1:
    "cond_signal_loop ?s c bc (THREAD_PRIORITY_MIN + 1) = Some (Inr (s1, mp))" "kinv s1 L1"
    "L1 (CondQueue c) = (if bc then [] else tl ?ts)" "woken ?s ws s1" "prio_ok_but s1 (set ws)"
    "\<forall>w \<in> set ws. mp \<le> priority (tcb s1 w)" "?ts \<noteq> [] \<longrightarrow> mp \<le> THREAD_PRIORITY_MIN"
    "?ts = [] \<longrightarrow> mp = THREAD_PRIORITY_MIN + 1"
    using cond_signal_loop_wakes [of ?s L c ?ts "{}" "THREAD_PRIORITY_MIN + 1" bc] by (auto simp: ws_def)
  let ?s1 = "s1\<lparr>mie := mie s\<rparr>"
  have "\<exists>s'. u_cond_signal s c bc = Inr s' \<and> kinv s' L1 \<and> prio_ok s' \<and> only_requests ?s1 s'"
  proof (cases "?ts = []")
    case True
    then have "u_cond_signal s c bc = Inr ?s1"
      using s1(1,8) by (simp add: u_cond_signal_def irq_disable_def Let_def)
    moreover have "prio_ok ?s1"
      using True s1(4) prio by (intro prio_ok_cong [OF prio]) (auto simp: ws_def woken_def runnable_def live_def)
    ultimately show ?thesis using s1(2) by (auto simp: only_requests_def)
  next
    case False
    have 1: "kinv ?s1 L1" "sched_active_thread ?s1 = Some a" "prio_ok_but ?s1 (set ws)"
      "\<forall>w \<in> set ws. mp \<le> priority (tcb ?s1 w)"
      using s1(2,4,5,6) a by (simp_all add: woken_def)
    obtain s' where "sched_switch ?s1 mp = Inr s'" "kinv s' L1" "prio_ok s'" "only_requests ?s1 s'"
      by (rule sched_switch_prio_ok [OF 1]) (rule that)
    then show ?thesis using s1(1,7) False by (auto simp: u_cond_signal_def irq_disable_def Let_def)
  qed
  then obtain s' where s': "u_cond_signal s c bc = Inr s'" "kinv s' L1" "prio_ok s'" "only_requests ?s1 s'"
    by blast
  have tcb: "tcb s' = tcb s1" and "in_isr s' = in_isr s" "mie s' = mie s" "sched_threads s' = sched_threads s" "same_queues s s'"
    "sched_active_thread s' = sched_active_thread s"
    using s'(4) s1(4) by (auto simp: only_requests_def woken_def)
  moreover have "on_runqueue (status (tcb s' u))" if "on_runqueue (status (tcb s u))" for u
    using s1(4) that tcb by (cases "u \<in> set ws") (auto simp: woken_def)
  ultimately have "call_frame s s'" by (intro call_frameI) auto
  then show thesis
    using s1(3,4) tcb by (intro that [OF s'(1-3)]) (auto simp: woken_def)
qed

section \<open>The calls keep their contract\<close>

interpretation cinit: kernel_call "\<lambda>s L. L (CondQueue c) = []" "\<lambda>s. Inr (cond_init s c, ())" for c
proof unfold_locales
  fix s L
  assume 1: "kinv s L" "prio_ok s" "L (CondQueue c) = []"
  have "links s (CondQueue c) = Null" using kinv_no_waiter [OF 1(1,3)] by simp
  then have "cond_init s c = s" by (simp add: cond_init_def fun_upd_idem)
  then show "\<exists>s' r L'. Inr (cond_init s c, ()) = Inr (s', r) \<and> kinv s' L' \<and> prio_ok s' \<and> call_frame s s'"
    using 1 by auto
qed

interpretation cond_wait: kernel_call "\<lambda>s L. \<exists>t. thread_context s t" "\<lambda>s. cond_wait s c m" for c m
proof unfold_locales
  fix s L
  assume inv: "kinv s L" and prio: "prio_ok s" and "\<exists>t. thread_context s t"
  then obtain t where t: "thread_context s t" by blast
  obtain s' L' where "cond_wait s c m = Inr (s', Blocked)" "kinv s' L'" "call_frame s s'" "msip s'"
    by (rule cond_waits [OF inv prio t]) (rule that)
  then show "\<exists>s' r L'. cond_wait s c m = Inr (s', r) \<and> kinv s' L' \<and> prio_ok s' \<and> call_frame s s'"
    by (auto simp: prio_ok_def switch_pending_def)
qed

interpretation cond_wait_resume: kernel_call "\<lambda>s L. \<exists>t. thread_context s t" "\<lambda>s. cond_wait_resume s m" for m
  unfolding cond_wait_resume_def by (rule lock.kernel_call_axioms)

interpretation signal: kernel_call "\<lambda>s L. sched_active_thread s \<noteq> None" "\<lambda>s. noval (u_cond_signal s c bc)" for c bc
proof unfold_locales
  fix s L
  assume inv: "kinv s L" and prio: "prio_ok s" and a: "sched_active_thread s \<noteq> None"
  obtain s' L' where "u_cond_signal s c bc = Inr s'" "kinv s' L'" "prio_ok s'" "call_frame s s'"
    by (rule u_cond_signal_wakes [OF inv prio a]) (rule that)
  then show "\<exists>s' r L'. noval (u_cond_signal s c bc) = Inr (s', r) \<and> kinv s' L' \<and> prio_ok s' \<and> call_frame s s'"
    by auto
qed

section \<open>Properties\<close>



text \<open>
  C24: The loop of \<open>_cond_signal\<close> ends; \<open>cond_signal\<close> wakes the first, most urgent, waiting thread and
  \<open>cond_broadcast\<close> all of them, no other thread changes, and the priorities are respected or a
  switch is pending afterwards.
\<close>

theorem cond_signal_wakes:
  assumes "kinv s L" and "prio_ok s" and "sched_active_thread s \<noteq> None"
  shows "\<exists>s' L' ws. u_cond_signal s c broadcast = Inr s' \<and> kinv s' L' \<and> prio_ok s' \<and>
    ws = (if broadcast then L (CondQueue c) else take 1 (L (CondQueue c))) \<and>
    L (CondQueue c) = ws @ L' (CondQueue c) \<and>
    (\<forall>w \<in> set ws. status (tcb s' w) = STATUS_PENDING) \<and> (\<forall>u. u \<notin> set ws \<longrightarrow> tcb s' u = tcb s u)"
proof -
  let ?ws = "if broadcast then L (CondQueue c) else take 1 (L (CondQueue c))"
  obtain s' L' where s': "u_cond_signal s c broadcast = Inr s'" "kinv s' L'" "prio_ok s'"
    "L' (CondQueue c) = (if broadcast then [] else tl (L (CondQueue c)))"
    "\<And>w. w \<in> set ?ws \<Longrightarrow> status (tcb s' w) = STATUS_PENDING" "\<And>u. u \<notin> set ?ws \<Longrightarrow> tcb s' u = tcb s u"
    by (rule u_cond_signal_wakes [OF assms]) (rule that)
  have "L (CondQueue c) = ?ws @ L' (CondQueue c)" using s'(4) by (cases "L (CondQueue c)") auto
  then show ?thesis using s'(1-3,5,6) by blast
qed

theorem cond_signal_wakes_witness:
  "\<exists>s' L' ws. u_cond_signal demo 1 True = Inr s' \<and> kinv s' L' \<and> prio_ok s' \<and> ws = [400] \<and>
    [400] = ws @ L' (CondQueue 1) \<and> (\<forall>w \<in> set ws. status (tcb s' w) = STATUS_PENDING) \<and>
    (\<forall>u. u \<notin> set ws \<longrightarrow> tcb s' u = tcb demo u)"
  using cond_signal_wakes [OF demo_kinv demo_prio_ok, of 1 True] by simp

end
