(* ===== verification/Thread_Flags.thy ===== *)
theory Thread_Flags
  imports Thread Bitarithm
begin

text \<open>
  Thread flags (\<open>core/thread_flags.c\<close>): sixteen flags per thread; a thread can wait until one, or
  all, of the flags of a mask are set. What a wait does once the caller runs again, or at once
  if it need not block, are the \<open>resume\<close> definitions.
\<close>

section \<open>The operations\<close>

definition set_flags :: "u16 \<Rightarrow> thread_t \<Rightarrow> thread_t" where
  "set_flags f th = th\<lparr>flags := f\<rparr>"

definition set_wait_data :: "wait_data_t \<Rightarrow> thread_t \<Rightarrow> thread_t" where
  "set_wait_data d th = th\<lparr>wait_data := d\<rparr>"

definition u_thread_flags_clear_atomic :: "kernel \<Rightarrow> tid \<Rightarrow> u16 \<Rightarrow> kernel \<times> u16" where
  "u_thread_flags_clear_atomic s thread msk =
     (let (s, state) = irq_disable s;
          msk = msk AND flags (tcb s thread);
          s = upd_thread thread (set_flags (flags (tcb s thread) AND NOT msk)) s
      in (irq_restore state s, msk))"

definition u_thread_flags_wait ::
  "kernel \<Rightarrow> u16 \<Rightarrow> tid \<Rightarrow> thread_status_t \<Rightarrow> bool \<Rightarrow> fault + kernel" where
  "u_thread_flags_wait s msk thread threadstate irqstate =
     bindE (sched_set_status (upd_thread thread (set_wait_data (FlagMask msk)) s) thread threadstate) (\<lambda>s.
       Inr (thread_yield_higher (irq_restore irqstate s)))"

definition thread_flags_clear :: "kernel \<Rightarrow> u16 \<Rightarrow> fault + (kernel \<times> u16)" where
  "thread_flags_clear s msk =
     bindE (active_thread s) (\<lambda>me. Inr (u_thread_flags_clear_atomic s me msk))"

definition u_thread_flags_wait_any :: "kernel \<Rightarrow> u16 \<Rightarrow> fault + (kernel \<times> unit outcome)" where
  "u_thread_flags_wait_any s msk =
     bindE (active_thread s) (\<lambda>me.
       let (s, state) = irq_disable s in
       if flags (tcb s me) AND msk = 0 then
         bindE (u_thread_flags_wait s msk me STATUS_FLAG_BLOCKED_ANY state) (\<lambda>s. Inr (s, Blocked))
       else Inr (irq_restore state s, Done ()))"

definition wait_any_resume :: "kernel \<Rightarrow> u16 \<Rightarrow> fault + (kernel \<times> u16)" where
  "wait_any_resume s msk =
     bindE (active_thread s) (\<lambda>me. Inr (u_thread_flags_clear_atomic s me msk))"

definition thread_flags_wait_any :: "kernel \<Rightarrow> u16 \<Rightarrow> fault + (kernel \<times> u16 outcome)" where
  "thread_flags_wait_any s msk =
     bindE (u_thread_flags_wait_any s msk) (\<lambda>(s, r).
       case r of Blocked \<Rightarrow> Inr (s, Blocked)
               | Done _ \<Rightarrow> bindE (wait_any_resume s msk) (\<lambda>(s, m). Inr (s, Done m)))"

definition wait_one_resume :: "kernel \<Rightarrow> u16 \<Rightarrow> fault + (kernel \<times> u16)" where
  "wait_one_resume s msk =
     bindE (active_thread s) (\<lambda>me.
       let tmp = flags (tcb s me) AND msk;
           tmp = tmp AND (NOT tmp + 1)
       in Inr (u_thread_flags_clear_atomic s me tmp))"

definition thread_flags_wait_one :: "kernel \<Rightarrow> u16 \<Rightarrow> fault + (kernel \<times> u16 outcome)" where
  "thread_flags_wait_one s msk =
     bindE (u_thread_flags_wait_any s msk) (\<lambda>(s, r).
       case r of Blocked \<Rightarrow> Inr (s, Blocked)
               | Done _ \<Rightarrow> bindE (wait_one_resume s msk) (\<lambda>(s, m). Inr (s, Done m)))"

definition wait_all_resume :: "kernel \<Rightarrow> u16 \<Rightarrow> fault + (kernel \<times> u16)" where
  "wait_all_resume s msk =
     bindE (active_thread s) (\<lambda>me. Inr (u_thread_flags_clear_atomic s me msk))"

definition thread_flags_wait_all :: "kernel \<Rightarrow> u16 \<Rightarrow> fault + (kernel \<times> u16 outcome)" where
  "thread_flags_wait_all s msk =
     (let (s, state) = irq_disable s in
      bindE (active_thread s) (\<lambda>me.
        if \<not> flags (tcb s me) AND msk = msk then
          bindE (u_thread_flags_wait s msk me STATUS_FLAG_BLOCKED_ALL state) (\<lambda>s. Inr (s, Blocked))
        else bindE (wait_all_resume (irq_restore state s) msk) (\<lambda>(s, m). Inr (s, Done m))))"

text \<open>The mask a blocked thread waits for; a pointer to a message is no mask.\<close>

fun wait_mask :: "wait_data_t \<Rightarrow> fault + u16" where
  "wait_mask (FlagMask m) = Inr m"
| "wait_mask _ = Inl BadPointer"

definition thread_flags_wake :: "kernel \<Rightarrow> tid \<Rightarrow> fault + (kernel \<times> bool)" where
  "thread_flags_wake s thread =
     bindE (case status (tcb s thread) of
              STATUS_FLAG_BLOCKED_ANY \<Rightarrow>
                bindE (wait_mask (wait_data (tcb s thread))) (\<lambda>msk. Inr (flags (tcb s thread) AND msk \<noteq> 0))
            | STATUS_FLAG_BLOCKED_ALL \<Rightarrow>
                bindE (wait_mask (wait_data (tcb s thread))) (\<lambda>msk. Inr (flags (tcb s thread) AND msk = msk))
            | _ \<Rightarrow> Inr False) (\<lambda>wakeup.
       if wakeup then
         bindE (sched_set_status s thread STATUS_PENDING) (\<lambda>s.
           Inr (s\<lparr>sched_context_switch_request := True\<rparr>, True))
       else Inr (s, False))"

definition thread_flags_set :: "kernel \<Rightarrow> tid \<Rightarrow> u16 \<Rightarrow> fault + kernel" where
  "thread_flags_set s thread msk =
     (let (s, state) = irq_disable s;
          s = upd_thread thread (set_flags (flags (tcb s thread) OR msk)) s in
      bindE (thread_flags_wake s thread) (\<lambda>(s, woke).
        if woke then Inr (thread_yield_higher (irq_restore state s))
        else Inr (irq_restore state s)))"

section \<open>Waking\<close>

text \<open>The condition of a thread that waits for flags is met.\<close>

definition flags_due :: "thread_t \<Rightarrow> bool" where
  "flags_due th \<longleftrightarrow>
     (\<exists>m. wait_data th = FlagMask m \<and>
        (status th = STATUS_FLAG_BLOCKED_ANY \<and> flags th AND m \<noteq> 0 \<or>
         status th = STATUS_FLAG_BLOCKED_ALL \<and> flags th AND m = m))"

lemma set_flags_simps [simp]:
  "status (set_flags f th) = status th" "priority (set_flags f th) = priority th" "pid (set_flags f th) = pid th"
  "wait_data (set_flags f th) = wait_data th" "flags (set_flags f th) = f"
  "msg_queue (set_flags f th) = msg_queue th" "msg_array (set_flags f th) = msg_array th"
  by (simp_all add: set_flags_def)

lemma set_wait_data_simps [simp]:
  "status (set_wait_data d th) = status th" "priority (set_wait_data d th) = priority th"
  "pid (set_wait_data d th) = pid th" "wait_data (set_wait_data d th) = d" "flags (set_wait_data d th) = flags th"
  "msg_queue (set_wait_data d th) = msg_queue th" "msg_array (set_wait_data d th) = msg_array th"
  by (simp_all add: set_wait_data_def)

lemma kinv_set_flags [simp]: "kinv s L \<Longrightarrow> kinv (upd_thread t (set_flags f) s) L"
  by (erule kinv_upd_other) simp

lemma flags_due_blocked: "flags_due th \<Longrightarrow> \<not> on_runqueue (status th)"
  by (auto simp: flags_due_def)

lemma thread_flags_wake_not_due:
  assumes "kinv s L" and "live s t" and "\<not> flags_due (tcb s t)"
  shows "thread_flags_wake s t = Inr (s, False)"
proof -
  have "data_fits (status (tcb s t)) (wait_data (tcb s t))" by (rule kinv_data [OF assms(1,2)])
  then show ?thesis
    using assms(3) unfolding thread_flags_wake_def flags_due_def
    by (cases "status (tcb s t)"; cases "wait_data (tcb s t)") simp_all
qed

lemma thread_flags_wake_due:
  assumes inv: "kinv s L" and live: "live s t" and due: "flags_due (tcb s t)"
    and act: "sched_active_thread s \<noteq> Some t \<or> switch_pending s"
  defines "p \<equiv> priority (tcb s t)"
  obtains h b where "thread_flags_wake s t =
      Inr (upd_thread t (set_status STATUS_PENDING)
             (s\<lparr>links := h, runqueue_bitcache := b, sched_context_switch_request := True\<rparr>), True)"
    and "kinv (upd_thread t (set_status STATUS_PENDING)
             (s\<lparr>links := h, runqueue_bitcache := b, sched_context_switch_request := True\<rparr>))
           (L(RunQueue p := L (RunQueue p) @ [t]))"
    and "\<And>l. \<not> is_runqueue l \<Longrightarrow> \<not> is_entry l \<Longrightarrow> h l = links s l"
proof -
  have free: "t \<notin> set (L l)" for l
    using due kinv_waiter [OF inv, of t l] kinv_in_runqueue [OF inv, of t] by (cases l) (auto simp: flags_due_def)
  have *: "\<not> on_runqueue (status (tcb s t))" "on_runqueue STATUS_PENDING"
    using flags_due_blocked [OF due] by simp_all
  obtain s1 h b where s1: "sched_set_status s t STATUS_PENDING = Inr s1"
    "s1 = upd_thread t (set_status STATUS_PENDING) (s\<lparr>links := h, runqueue_bitcache := b\<rparr>)"
    "kinv s1 (L(RunQueue p := L (RunQueue p) @ [t]))"
    "\<And>l. \<not> is_runqueue l \<Longrightarrow> \<not> is_entry l \<Longrightarrow> h l = links s l"
    by (rule sched_set_status_wake [OF inv live * free act, folded p_def]) (rule that)
  let ?s = "upd_thread t (set_status STATUS_PENDING)
      (s\<lparr>links := h, runqueue_bitcache := b, sched_context_switch_request := True\<rparr>)"
  have eq: "?s = s1\<lparr>sched_context_switch_request := True\<rparr>" by (simp add: s1(2) upd_thread_def)
  have e: "thread_flags_wake s t = Inr (?s, True)"
    using due s1(1) unfolding thread_flags_wake_def flags_due_def eq by auto
  have k: "kinv ?s (L(RunQueue p := L (RunQueue p) @ [t]))" unfolding eq by (rule kinv_request [OF s1(3)])
  show thesis by (rule that [OF e k s1(4)])
qed

lemma upd_thread_irq [simp]:
  "upd_thread t f (s\<lparr>mie := b\<rparr>) = (upd_thread t f s)\<lparr>mie := b\<rparr>"
  "(upd_thread t f s)\<lparr>mie := mie s\<rparr> = upd_thread t f s"
  by (simp_all add: upd_thread_def)

lemma prio_ok_upd [simp]:
  "(\<And>th. status (f th) = status th \<and> priority (f th) = priority th) \<Longrightarrow> prio_ok (upd_thread t f s) = prio_ok s"
  by (rule iffI; erule prio_ok_cong) (simp_all add: runnable_def)

lemma thread_flags_set_sets:
  fixes m :: u16
  assumes inv: "kinv s L" and prio: "prio_ok s" and live: "live s t"
  defines "th \<equiv> set_flags (flags (tcb s t) OR m) (tcb s t)"
  obtains s' L' where "thread_flags_set s t m = Inr s'" and "kinv s' L'" and "prio_ok s'" and "call_frame s s'"
    and "tcb s' t = (if flags_due th then set_status STATUS_PENDING th else th)"
    and "\<And>u. u \<noteq> t \<Longrightarrow> tcb s' u = tcb s u" and "flags_due th \<Longrightarrow> switch_pending s'"
    and "\<And>l. \<not> is_runqueue l \<Longrightarrow> L' l = L l"
proof -
  let ?s = "upd_thread t (set_flags (flags (tcb s t) OR m)) s\<lparr>mie := False\<rparr>"
  have th: "tcb ?s t = th" by (simp add: th_def)
  have inv': "kinv ?s L" and prio': "prio_ok ?s" and live': "live ?s t"
    using inv prio live by simp_all
  show thesis
  proof (cases "flags_due th")
    case False
    then have "thread_flags_wake ?s t = Inr (?s, False)"
      using thread_flags_wake_not_due [OF inv' live'] th by simp
    then have e: "thread_flags_set s t m = Inr (?s\<lparr>mie := mie s\<rparr>)"
      by (simp add: thread_flags_set_def irq_disable_def)
    have "call_frame s (?s\<lparr>mie := mie s\<rparr>)" by (rule call_frameI) auto
    then show thesis using e inv' prio' False th by (intro that [of "?s\<lparr>mie := mie s\<rparr>" L]) simp_all
  next
    case True
    then have act: "sched_active_thread ?s \<noteq> Some t \<or> switch_pending ?s"
      using prio_ok_blocked [OF prio', of t] flags_due_blocked [OF True] th by metis
    let ?L = "L(RunQueue (priority (tcb ?s t)) := L (RunQueue (priority (tcb ?s t))) @ [t])"
    obtain h b where w: "thread_flags_wake ?s t = Inr (upd_thread t (set_status STATUS_PENDING)
        (?s\<lparr>links := h, runqueue_bitcache := b, sched_context_switch_request := True\<rparr>), True)"
      "kinv (upd_thread t (set_status STATUS_PENDING)
        (?s\<lparr>links := h, runqueue_bitcache := b, sched_context_switch_request := True\<rparr>)) ?L"
      by (rule thread_flags_wake_due [OF inv' live' _ act], simp only: th True) (rule that)
    let ?s' = "upd_thread t (set_status STATUS_PENDING)
        (?s\<lparr>links := h, runqueue_bitcache := b, sched_context_switch_request := True\<rparr>)\<lparr>mie := mie s, msip := True\<rparr>"
    have e: "thread_flags_set s t m = Inr ?s'"
      using w(1) by (simp add: thread_flags_set_def irq_disable_def thread_yield_higher_def)
    have k: "kinv ?s' ?L" using w(2) by (intro kinv_yield) simp
    have "call_frame s ?s'" by (rule call_frameI) auto
    moreover have "switch_pending ?s'" by (simp add: switch_pending_def)
    ultimately show thesis
      using True by (intro that [OF e k]) (simp_all add: prio_ok_pending th_def)
  qed
qed

section \<open>Waiting\<close>

lemma and_not_and: "f AND (NOT m OR NOT f) = f AND NOT m" for f m :: "'a::len word"
  by (rule bit_word_eqI) (auto simp: bit_and_iff bit_or_iff bit_not_iff)

lemma clear_atomic:
  "u_thread_flags_clear_atomic s t m =
     (upd_thread t (set_flags (flags (tcb s t) AND NOT m)) s, m AND flags (tcb s t))"
  by (simp add: u_thread_flags_clear_atomic_def irq_disable_def and_not_and)

lemma flags_wait_blocks:
  assumes inv: "kinv s L" and ctx: "thread_context s t"
    and st: "st = STATUS_FLAG_BLOCKED_ANY \<or> st = STATUS_FLAG_BLOCKED_ALL"
  defines "L' \<equiv> L(RunQueue (priority (tcb s t)) := tl (L (RunQueue (priority (tcb s t)))))"
  obtains s' where "u_thread_flags_wait (s\<lparr>mie := False\<rparr>) m t st True = Inr s'" and "kinv s' L'"
    and "tcb s' t = set_status st (set_wait_data (FlagMask m) (tcb s t))"
    and "\<And>u. u \<noteq> t \<Longrightarrow> tcb s' u = tcb s u" and "msip s'" and "call_frame s s'"
proof -
  note c = thread_contextD [OF ctx]
  let ?s = "upd_thread t (set_wait_data (FlagMask m)) s"
  have "kinv ?s L" by (rule kinv_upd_wait_data [OF inv c(2)]) simp
  moreover have "thread_context ?s t" "\<not> on_runqueue st" "data_fits st (wait_data (tcb ?s t))"
    using c st by (auto simp: thread_context_def)
  ultimately obtain s1 h b where s1: "sched_set_status (?s\<lparr>mie := False\<rparr>) t st = Inr s1"
    "s1 = upd_thread t (set_status st) (?s\<lparr>mie := False, links := h, runqueue_bitcache := b\<rparr>)"
    "kinv s1 (L(RunQueue (priority (tcb ?s t)) := tl (L (RunQueue (priority (tcb ?s t))))))"
    by (rule block_active) (rule that)
  let ?s' = "s1\<lparr>mie := True, msip := True\<rparr>"
  have e: "u_thread_flags_wait (s\<lparr>mie := False\<rparr>) m t st True = Inr ?s'"
    using s1(1) by (simp add: u_thread_flags_wait_def thread_yield_higher_def)
  have k: "kinv ?s' L'" using s1(3) by (intro kinv_yield) (simp add: L'_def)
  have "call_frame s ?s'" using c by (intro call_frameI) (simp_all add: s1(2))
  then show thesis by (intro that [OF e k]) (simp_all add: s1(2))
qed

lemma wait_any_cases:
  assumes inv: "kinv s L" and ctx: "thread_context s t"
  obtains (block) s' L' where "flags (tcb s t) AND m = 0" and "u_thread_flags_wait_any s m = Inr (s', Blocked)"
    and "kinv s' L'" and "tcb s' t = set_status STATUS_FLAG_BLOCKED_ANY (set_wait_data (FlagMask m) (tcb s t))"
    and "\<And>u. u \<noteq> t \<Longrightarrow> tcb s' u = tcb s u" and "msip s'" and "call_frame s s'"
  | (go) "flags (tcb s t) AND m \<noteq> 0" and "u_thread_flags_wait_any s m = Inr (s, Done ())"
proof (cases "flags (tcb s t) AND m = 0")
  case True
  let ?L = "L(RunQueue (priority (tcb s t)) := tl (L (RunQueue (priority (tcb s t)))))"
  obtain s' where s': "u_thread_flags_wait (s\<lparr>mie := False\<rparr>) m t STATUS_FLAG_BLOCKED_ANY True = Inr s'" "kinv s' ?L"
    "tcb s' t = set_status STATUS_FLAG_BLOCKED_ANY (set_wait_data (FlagMask m) (tcb s t))"
    "\<And>u. u \<noteq> t \<Longrightarrow> tcb s' u = tcb s u" "msip s'" "call_frame s s'"
    by (rule flags_wait_blocks [OF inv ctx, of STATUS_FLAG_BLOCKED_ANY], simp) (rule that)
  then show thesis using True thread_contextD [OF ctx]
    by (intro block [of s' ?L]) (simp_all add: u_thread_flags_wait_any_def irq_disable_def)
next
  case False
  then show thesis using thread_contextD [OF ctx]
    by (intro go) (simp_all add: u_thread_flags_wait_any_def irq_disable_def)
qed

lemma wait_all_cases:
  assumes inv: "kinv s L" and ctx: "thread_context s t"
  obtains (block) s' L' where "flags (tcb s t) AND m \<noteq> m" and "thread_flags_wait_all s m = Inr (s', Blocked)"
    and "kinv s' L'" and "tcb s' t = set_status STATUS_FLAG_BLOCKED_ALL (set_wait_data (FlagMask m) (tcb s t))"
    and "\<And>u. u \<noteq> t \<Longrightarrow> tcb s' u = tcb s u" and "msip s'" and "call_frame s s'"
  | (go) "flags (tcb s t) AND m = m"
    and "thread_flags_wait_all s m = Inr (upd_thread t (set_flags (flags (tcb s t) AND NOT m)) s, Done m)"
proof (cases "flags (tcb s t) AND m = m")
  case False
  let ?L = "L(RunQueue (priority (tcb s t)) := tl (L (RunQueue (priority (tcb s t)))))"
  obtain s' where s': "u_thread_flags_wait (s\<lparr>mie := False\<rparr>) m t STATUS_FLAG_BLOCKED_ALL True = Inr s'" "kinv s' ?L"
    "tcb s' t = set_status STATUS_FLAG_BLOCKED_ALL (set_wait_data (FlagMask m) (tcb s t))"
    "\<And>u. u \<noteq> t \<Longrightarrow> tcb s' u = tcb s u" "msip s'" "call_frame s s'"
    by (rule flags_wait_blocks [OF inv ctx, of STATUS_FLAG_BLOCKED_ALL], simp) (rule that)
  then show thesis using False thread_contextD [OF ctx]
    by (intro block [of s' ?L]) (simp_all add: thread_flags_wait_all_def irq_disable_def)
next
  case True
  then show thesis using thread_contextD [OF ctx]
    by (intro go) (simp_all add: thread_flags_wait_all_def irq_disable_def wait_all_resume_def clear_atomic and.commute)
qed

section \<open>The calls keep their contract\<close>

lemma prio_ok_msip: "msip s \<Longrightarrow> prio_ok s"
  by (simp add: prio_ok_def switch_pending_def)

lemma call_frame_set_flags [simp]: "call_frame s (upd_thread t (set_flags f) s)"
  by (rule call_frameI) auto

lemma wait_resume_eq:
  assumes "sched_active_thread s = Some t"
  shows "wait_any_resume s m = Inr (upd_thread t (set_flags (flags (tcb s t) AND NOT m)) s, m AND flags (tcb s t))"
    and "wait_all_resume s m = Inr (upd_thread t (set_flags (flags (tcb s t) AND NOT m)) s, m AND flags (tcb s t))"
    and "thread_flags_clear s m = Inr (upd_thread t (set_flags (flags (tcb s t) AND NOT m)) s, m AND flags (tcb s t))"
  using assms by (simp_all add: wait_any_resume_def wait_all_resume_def thread_flags_clear_def clear_atomic)

text \<open>\<open>thread_flags_wait_one\<close> clears the lowest of the flags of the mask that are set.\<close>

definition lowest_flag :: "u16 \<Rightarrow> u16" where
  "lowest_flag f = f AND - f"

lemma wait_one_resume_eq:
  fixes m :: u16
  assumes "sched_active_thread s = Some t"
  defines "r \<equiv> lowest_flag (flags (tcb s t) AND m)"
  shows "wait_one_resume s m = Inr (upd_thread t (set_flags (flags (tcb s t) AND NOT r)) s, r)"
proof -
  have "NOT x + 1 = - x" for x :: u16 by (simp add: minus_eq_not_plus_1)
  moreover have "r AND flags (tcb s t) = r" by (simp add: r_def lowest_flag_def ac_simps)
  ultimately show ?thesis
    using assms(1) by (simp add: wait_one_resume_def clear_atomic r_def lowest_flag_def Let_def)
qed

lemmas resume_simps = wait_resume_eq wait_one_resume_eq

text \<open>A call that only changes the flags of a thread keeps the contract.\<close>

lemma flag_update_safe:
  assumes "kinv s L" and "prio_ok s" and "res = Inr (upd_thread t (set_flags f) s, r)"
  shows "\<exists>s' r L'. res = Inr (s', r) \<and> kinv s' L' \<and> prio_ok s' \<and> call_frame s s'"
  using assms by (intro exI [of _ "upd_thread t (set_flags f) s"] exI [of _ r] exI [of _ L]) simp

interpretation flags_set: kernel_call "\<lambda>s L. live s t" "\<lambda>s. noval (thread_flags_set s t m)" for t m
proof unfold_locales
  fix s L
  assume inv: "kinv s L" and prio: "prio_ok s" and l: "live s t"
  obtain s' L' where "thread_flags_set s t m = Inr s'" "kinv s' L'" "prio_ok s'" "call_frame s s'"
    by (rule thread_flags_set_sets [OF inv prio l]) (rule that)
  then show "\<exists>s' r L'. noval (thread_flags_set s t m) = Inr (s', r) \<and> kinv s' L' \<and> prio_ok s' \<and> call_frame s s'"
    by auto
qed

interpretation flags_clear: kernel_call "\<lambda>s L. \<exists>t. thread_context s t" "\<lambda>s. thread_flags_clear s m" for m
  by unfold_locales (blast intro: flag_update_safe [OF _ _ wait_resume_eq(3)] dest: thread_contextD(1))

interpretation wait_any_resume: kernel_call "\<lambda>s L. \<exists>t. thread_context s t" "\<lambda>s. wait_any_resume s m" for m
  by unfold_locales (blast intro: flag_update_safe [OF _ _ wait_resume_eq(1)] dest: thread_contextD(1))

interpretation wait_one_resume: kernel_call "\<lambda>s L. \<exists>t. thread_context s t" "\<lambda>s. wait_one_resume s m" for m
  by unfold_locales (blast intro: flag_update_safe [OF _ _ wait_one_resume_eq] dest: thread_contextD(1))

interpretation wait_all_resume: kernel_call "\<lambda>s L. \<exists>t. thread_context s t" "\<lambda>s. wait_all_resume s m" for m
  by unfold_locales (blast intro: flag_update_safe [OF _ _ wait_resume_eq(2)] dest: thread_contextD(1))

lemma wait_any_safe:
  assumes inv: "kinv s L" and prio: "prio_ok s" and t: "thread_context s t"
    and call: "\<And>s1. u_thread_flags_wait_any s m = Inr (s1, Blocked) \<Longrightarrow> call s = Inr (s1, Blocked)"
      "u_thread_flags_wait_any s m = Inr (s, Done ()) \<Longrightarrow>
         \<exists>f r. call s = Inr (upd_thread t (set_flags f) s, r)"
  shows "\<exists>s' r L'. call s = Inr (s', r) \<and> kinv s' L' \<and> prio_ok s' \<and> call_frame s s'"
proof (rule wait_any_cases [OF inv t, of m])
  fix s' L'
  assume "u_thread_flags_wait_any s m = Inr (s', Blocked)" "kinv s' L'" "msip s'" "call_frame s s'"
  then show ?thesis using call(1) [of s'] by (auto simp: prio_ok_msip)
next
  assume "u_thread_flags_wait_any s m = Inr (s, Done ())"
  then obtain f r where "call s = Inr (upd_thread t (set_flags f) s, r)" using call(2) by blast
  then show ?thesis by (rule flag_update_safe [OF inv prio])
qed

interpretation wait_any: kernel_call "\<lambda>s L. \<exists>t. thread_context s t" "\<lambda>s. thread_flags_wait_any s m" for m
proof unfold_locales
  fix s L
  assume 1: "kinv s L" "prio_ok s" and "\<exists>t. thread_context s t"
  then obtain t where t: "thread_context s t" by blast
  show "\<exists>s' r L'. thread_flags_wait_any s m = Inr (s', r) \<and> kinv s' L' \<and> prio_ok s' \<and> call_frame s s'"
    by (rule wait_any_safe [OF 1 t, of m])
      (auto simp: thread_flags_wait_any_def resume_simps [OF thread_contextD(1) [OF t]])
qed

interpretation wait_one: kernel_call "\<lambda>s L. \<exists>t. thread_context s t" "\<lambda>s. thread_flags_wait_one s m" for m
proof unfold_locales
  fix s L
  assume 1: "kinv s L" "prio_ok s" and "\<exists>t. thread_context s t"
  then obtain t where t: "thread_context s t" by blast
  show "\<exists>s' r L'. thread_flags_wait_one s m = Inr (s', r) \<and> kinv s' L' \<and> prio_ok s' \<and> call_frame s s'"
    by (rule wait_any_safe [OF 1 t, of m])
      (auto simp: thread_flags_wait_one_def resume_simps [OF thread_contextD(1) [OF t]])
qed

interpretation wait_all: kernel_call "\<lambda>s L. \<exists>t. thread_context s t" "\<lambda>s. thread_flags_wait_all s m" for m
proof unfold_locales
  fix s L
  assume inv: "kinv s L" and prio: "prio_ok s" and "\<exists>t. thread_context s t"
  then obtain t where t: "thread_context s t" by blast
  show "\<exists>s' r L'. thread_flags_wait_all s m = Inr (s', r) \<and> kinv s' L' \<and> prio_ok s' \<and> call_frame s s'"
    by (rule wait_all_cases [OF inv t, of m]) (blast intro: prio_ok_msip flag_update_safe [OF inv prio])+
qed

section \<open>Properties\<close>

text \<open>
  C29: \<open>thread_flags_set\<close> sets exactly the flags of the mask in the thread, wakes the thread if and
  only if that meets the condition it waits for, and then leaves a switch pending; no other
  thread changes and no list of waiting threads does.
\<close>

theorem thread_flags_set_wakes:
  fixes m :: u16
  assumes "kinv s L" and "prio_ok s" and "live s t"
  defines "th \<equiv> (tcb s t)\<lparr>flags := flags (tcb s t) OR m\<rparr>"
  shows "\<exists>s' L'. thread_flags_set s t m = Inr s' \<and> kinv s' L' \<and> prio_ok s' \<and>
    tcb s' t = (if flags_due th then th\<lparr>status := STATUS_PENDING\<rparr> else th) \<and>
    (flags_due th \<longrightarrow> switch_pending s') \<and> (\<forall>u. u \<noteq> t \<longrightarrow> tcb s' u = tcb s u) \<and>
    (\<forall>l. \<not> is_runqueue l \<longrightarrow> L' l = L l)"
proof -
  have th: "set_flags (flags (tcb s t) OR m) (tcb s t) = th" by (simp add: th_def set_flags_def)
  obtain s' L' where "thread_flags_set s t m = Inr s'" "kinv s' L'" "prio_ok s'"
    "tcb s' t = (if flags_due th then set_status STATUS_PENDING th else th)"
    "\<And>u. u \<noteq> t \<Longrightarrow> tcb s' u = tcb s u" "flags_due th \<Longrightarrow> switch_pending s'" "\<And>l. \<not> is_runqueue l \<Longrightarrow> L' l = L l"
    by (rule thread_flags_set_sets [OF assms(1-3), of m, unfolded th]) (rule that)
  then show ?thesis by (auto simp: set_status_def intro!: exI [of _ s'] exI [of _ L'])
qed

theorem thread_flags_set_wakes_witness:
  "\<exists>s' L'. thread_flags_set demo 1000 3 = Inr s' \<and> kinv s' L' \<and> prio_ok s' \<and> switch_pending s' \<and>
    status (tcb s' 1000) = STATUS_PENDING \<and> flags (tcb s' 1000) = 3"
proof -
  have l: "live demo 1000" by (simp add: demo_live)
  have "flags_due ((tcb demo 1000)\<lparr>flags := flags (tcb demo 1000) OR 3\<rparr>)"
    by (simp add: flags_due_def demo_thread_def)
  then show ?thesis using thread_flags_set_wakes [OF demo_kinv demo_prio_ok l, of 3] by auto
qed

text \<open>
  \<open>thread_flags_wait_one\<close> blocks exactly when no flag of the mask is set; otherwise it returns and
  clears one flag, the lowest of those set, and keeps all others.
\<close>

theorem thread_flags_wait_one_lowest:
  assumes "kinv s L" and "thread_context s t"
  shows "if flags (tcb s t) AND m = 0
    then \<exists>s' L'. thread_flags_wait_one s m = Inr (s', Blocked) \<and> kinv s' L' \<and> switch_pending s' \<and>
      status (tcb s' t) = STATUS_FLAG_BLOCKED_ANY \<and> wait_data (tcb s' t) = FlagMask m
    else \<exists>s' i. thread_flags_wait_one s m = Inr (s', Done (2 ^ i)) \<and> i < 16 \<and> kinv s' L \<and>
      bit (flags (tcb s t)) i \<and> bit m i \<and> (\<forall>j < i. \<not> (bit (flags (tcb s t)) j \<and> bit m j)) \<and>
      (\<forall>j. bit (flags (tcb s' t)) j \<longleftrightarrow> bit (flags (tcb s t)) j \<and> j \<noteq> i)"
proof (rule wait_any_cases [OF assms, of m])
  fix s' L'
  assume "flags (tcb s t) AND m = 0" "u_thread_flags_wait_any s m = Inr (s', Blocked)" "kinv s' L'" "msip s'"
    "tcb s' t = set_status STATUS_FLAG_BLOCKED_ANY (set_wait_data (FlagMask m) (tcb s t))"
  then show ?thesis by (auto simp: thread_flags_wait_one_def switch_pending_def)
next
  let ?f = "flags (tcb s t) AND m" and ?i = "lowest_bit (flags (tcb s t) AND m)"
  assume ne: "?f \<noteq> 0" and go: "u_thread_flags_wait_any s m = Inr (s, Done ())"
  let ?s = "upd_thread t (set_flags (flags (tcb s t) AND NOT (2 ^ ?i))) s"
  have "thread_flags_wait_one s m = Inr (?s, Done (2 ^ ?i))"
    using go and_minus_lowest [OF ne] wait_one_resume_eq [OF thread_contextD(1) [OF assms(2)], of m]
    by (simp add: thread_flags_wait_one_def lowest_flag_def)
  moreover have "kinv ?s L" using assms(1) by simp
  moreover have "bit (flags (tcb ?s t)) j \<longleftrightarrow> bit (flags (tcb s t)) j \<and> j \<noteq> ?i" for j
    using bit_imp_le_length [of "flags (tcb s t)" j] by (auto simp: bit_and_iff bit_not_iff bit_exp_iff)
  ultimately show ?thesis
    using ne lowest_bit [OF ne] by (auto simp: bit_and_iff intro!: exI [of _ ?s] exI [of _ ?i])
qed

theorem thread_flags_wait_one_lowest_witness:
  "\<exists>s' L'. thread_flags_wait_one demo 5 = Inr (s', Blocked) \<and> kinv s' L' \<and> switch_pending s' \<and>
      status (tcb s' 200) = STATUS_FLAG_BLOCKED_ANY \<and> wait_data (tcb s' 200) = FlagMask 5"
proof -
  have "flags (tcb demo 200) AND 5 = 0" by simp
  then show ?thesis using thread_flags_wait_one_lowest [OF demo_kinv demo_context, of 5] by (simp only: if_True)
qed

text \<open>
  \<open>thread_flags_wait_all\<close> returns at once exactly when every flag of the mask is set, clearing
  them; otherwise the caller blocks and whoever then sets the missing flags wakes it.
\<close>

theorem thread_flags_wait_all_complete:
  assumes "kinv s L" and "prio_ok s" and "thread_context s t"
  shows "if flags (tcb s t) AND m = m
    then thread_flags_wait_all s m = Inr (s\<lparr>tcb := (tcb s)(t := (tcb s t)\<lparr>flags := flags (tcb s t) AND NOT m\<rparr>)\<rparr>, Done m)
    else \<exists>s' s'' L''. thread_flags_wait_all s m = Inr (s', Blocked) \<and> status (tcb s' t) = STATUS_FLAG_BLOCKED_ALL \<and>
      switch_pending s' \<and> (\<forall>m'. (flags (tcb s t) OR m') AND m \<noteq> m \<longrightarrow>
         (\<exists>s''. thread_flags_set s' t m' = Inr s'' \<and> status (tcb s'' t) = STATUS_FLAG_BLOCKED_ALL)) \<and>
      thread_flags_set s' t m = Inr s'' \<and> kinv s'' L'' \<and> runnable s'' t"
proof (rule wait_all_cases [OF assms(1,3), of m])
  fix s' L'
  assume ne: "flags (tcb s t) AND m \<noteq> m" and s': "thread_flags_wait_all s m = Inr (s', Blocked)" "kinv s' L'"
    "tcb s' t = set_status STATUS_FLAG_BLOCKED_ALL (set_wait_data (FlagMask m) (tcb s t))" "msip s'" "call_frame s s'"
  have "live s' t" using s'(5) kinv_active(1) [OF assms(1)] thread_contextD [OF assms(3)] by (auto simp: call_frame_def)
  note set = thread_flags_set_sets [OF s'(2) prio_ok_msip [OF s'(4)] this]
  have due: "flags_due (set_flags (flags (tcb s' t) OR m') (tcb s' t)) \<longleftrightarrow> (flags (tcb s t) OR m') AND m = m" for m'
    by (simp add: flags_due_def s'(3) set_status_def)
  obtain s'' L'' where s'': "thread_flags_set s' t m = Inr s''" "kinv s'' L''" "call_frame s' s''"
    "tcb s'' t = (if flags_due (set_flags (flags (tcb s' t) OR m) (tcb s' t)) then
        set_status STATUS_PENDING (set_flags (flags (tcb s' t) OR m) (tcb s' t)) else set_flags (flags (tcb s' t) OR m) (tcb s' t))"
    by (rule set [of m]) (rule that)
  have "(flags (tcb s t) OR m) AND m = m" by (rule bit_word_eqI) (auto simp: bit_and_iff bit_or_iff)
  then have "runnable s'' t"
    using s''(3,4) \<open>live s' t\<close> due by (simp add: runnable_def call_frame_def set_status_def)
  moreover have "\<exists>s''. thread_flags_set s' t m' = Inr s'' \<and> status (tcb s'' t) = STATUS_FLAG_BLOCKED_ALL"
    if nd: "(flags (tcb s t) OR m') AND m \<noteq> m" for m'
  proof -
    obtain s2 where "thread_flags_set s' t m' = Inr s2" "tcb s2 t = set_flags (flags (tcb s' t) OR m') (tcb s' t)"
      by (rule set [of m', unfolded due, unfolded if_not_P [OF nd]]) (rule that)
    then show ?thesis using s'(3) by (simp add: set_status_def)
  qed
  moreover have "status (tcb s' t) = STATUS_FLAG_BLOCKED_ALL" "switch_pending s'"
    using s'(3,4) by (simp_all add: set_status_def switch_pending_def)
  ultimately show ?thesis using ne s'(1) s''(1,2) by (simp only: if_False) blast
next
  assume "flags (tcb s t) AND m = m"
    "thread_flags_wait_all s m = Inr (upd_thread t (set_flags (flags (tcb s t) AND NOT m)) s, Done m)"
  then show ?thesis by (simp add: upd_thread_def set_flags_def)
qed

theorem thread_flags_wait_all_complete_witness:
  "\<exists>s' s'' L''. thread_flags_wait_all demo 6 = Inr (s', Blocked) \<and> status (tcb s' 200) = STATUS_FLAG_BLOCKED_ALL \<and>
      thread_flags_set s' 200 6 = Inr s'' \<and> kinv s'' L'' \<and> runnable s'' 200"
proof -
  have "flags (tcb demo 200) AND 6 \<noteq> 6" by simp
  then show ?thesis
    using thread_flags_wait_all_complete [OF demo_kinv demo_prio_ok demo_context, of 6] by (simp only: if_False) blast
qed

end
