(* ===== verification/Msg.thy ===== *)
theory Msg
  imports Thread_Flags
begin

text \<open>
  Messages between threads (\<open>core/msg.c\<close>): sending, receiving, the request and reply protocol,
  the message queue of a thread, and sending from an interrupt handler. A message is delivered
  in one of three ways: into the buffer of a thread that waits for one, into the queue of the
  thread, or, when there is no room, by the sender waiting in the list \<open>msg_waiters\<close>.
\<close>

section \<open>The operations\<close>

definition THREAD_FLAG_MSG_WAITING :: u16 where
  "THREAD_FLAG_MSG_WAITING = push_bit 15 1"

definition set_queue :: "cib_t \<Rightarrow> thread_t \<Rightarrow> thread_t" where
  "set_queue q th = th\<lparr>msg_queue := q\<rparr>"

text \<open>\<open>*p = v\<close> and \<open>m->sender_pid = p\<close>.\<close>

definition put_msg :: "maddr \<Rightarrow> msg_t \<Rightarrow> kernel \<Rightarrow> kernel" where
  "put_msg p v s = s\<lparr>msgs := (msgs s)(p := v)\<rparr>"

definition set_sender :: "maddr \<Rightarrow> int \<Rightarrow> kernel \<Rightarrow> kernel" where
  "set_sender m p s = put_msg m ((msgs s m)\<lparr>sender_pid := p\<rparr>) s"

text \<open>\<open>(msg_t*) thread->wait_data\<close>\<close>

fun msg_ptr :: "wait_data_t \<Rightarrow> fault + maddr" where
  "msg_ptr (MsgPtr p) = Inr p"
| "msg_ptr NoData = Inl NullDeref"
| "msg_ptr (FlagMask m) = Inl BadPointer"

text \<open>The two lines under \<open>MODULE_CORE_THREAD_FLAGS\<close> in \<open>queue_msg\<close> and in \<open>_msg_send\<close>.\<close>

definition flag_msg_waiting :: "kernel \<Rightarrow> tid \<Rightarrow> fault + kernel" where
  "flag_msg_waiting s target =
     (if thread_flags_module s then
        let s = upd_thread target (set_flags (flags (tcb s target) OR THREAD_FLAG_MSG_WAITING)) s in
        bindE (thread_flags_wake s target) (\<lambda>(s, woke). Inr s)
      else Inr s)"

definition queue_msg :: "kernel \<Rightarrow> tid \<Rightarrow> maddr \<Rightarrow> fault + (kernel \<times> int)" where
  "queue_msg s target m =
     (let (q, n) = cib_put (msg_queue (tcb s target)); s = upd_thread target (set_queue q) s in
      if n < 0 then Inr (s, 0)
      else case msg_array (tcb s target) of
             None \<Rightarrow> Inl NullDeref
           | Some arr \<Rightarrow>
               bindE (flag_msg_waiting (put_msg (arr, n) (msgs s m) s) target) (\<lambda>s. Inr (s, 1)))"

text \<open>
  \<open>_msg_send\<close>. Where the caller is blocked when \<open>thread_yield_higher\<close> is called the outcome is
  \<open>Blocked\<close>; all the code does once it runs again is to return 1.
\<close>

definition u_msg_send :: "kernel \<Rightarrow> maddr \<Rightarrow> int \<Rightarrow> bool \<Rightarrow> bool \<Rightarrow> fault + (kernel \<times> int outcome)" where
  "u_msg_send s m target_pid block state =
     bindE (thread_entry s target_pid) (\<lambda>entry.
       let s = set_sender m (sched_active_pid s) s in
       case entry of
         None \<Rightarrow> Inr (irq_restore state s, Done (-1))
       | Some target \<Rightarrow>
           bindE (active_thread s) (\<lambda>me.
             if status (tcb s target) \<noteq> STATUS_RECEIVE_BLOCKED then
               bindE (queue_msg s target m) (\<lambda>(s, queued).
                 if queued \<noteq> 0 then
                   (if status (tcb s me) = STATUS_REPLY_BLOCKED
                    then Inr (thread_yield_higher (irq_restore state s), Blocked)
                    else Inr (irq_restore state s, Done 1))
                 else if \<not> block then Inr (irq_restore state s, Done 0)
                 else
                   let s = upd_thread me (set_wait_data (MsgPtr m)) s;
                       newstatus = (if status (tcb s me) = STATUS_REPLY_BLOCKED then STATUS_REPLY_BLOCKED
                                    else STATUS_SEND_BLOCKED) in
                   bindE (sched_set_status s me newstatus) (\<lambda>s.
                   bindE (thread_add_to_list s (MsgWaiters target) me) (\<lambda>s.
                   bindE (flag_msg_waiting s target) (\<lambda>s.
                     Inr (thread_yield_higher (irq_restore state s), Blocked)))))
             else
               bindE (msg_ptr (wait_data (tcb s target))) (\<lambda>target_message.
               bindE (sched_set_status (put_msg target_message (msgs s m) s) target STATUS_PENDING) (\<lambda>s.
                 Inr (thread_yield_higher (irq_restore state s),
                      if status (tcb s me) = STATUS_REPLY_BLOCKED then Blocked else Done 1)))))"

definition msg_send_to_self :: "kernel \<Rightarrow> maddr \<Rightarrow> fault + (kernel \<times> int)" where
  "msg_send_to_self s m =
     (let (s, state) = irq_disable s; s = set_sender m (sched_active_pid s) s in
      bindE (active_thread s) (\<lambda>me.
      bindE (queue_msg s me m) (\<lambda>(s, res). Inr (irq_restore state s, res))))"

definition msg_send_int :: "kernel \<Rightarrow> maddr \<Rightarrow> int \<Rightarrow> fault + (kernel \<times> int)" where
  "msg_send_int s m target_pid =
     bindE (thread_entry s target_pid) (\<lambda>entry.
       case entry of
         None \<Rightarrow> Inr (s, -1)
       | Some target \<Rightarrow>
           let s = set_sender m KERNEL_PID_ISR s in
           if status (tcb s target) = STATUS_RECEIVE_BLOCKED then
             bindE (msg_ptr (wait_data (tcb s target))) (\<lambda>target_message.
             bindE (sched_set_status (put_msg target_message (msgs s m) s) target STATUS_PENDING) (\<lambda>s.
               Inr (s\<lparr>sched_context_switch_request := True\<rparr>, 1)))
           else queue_msg s target m)"

definition finished :: "fault + (kernel \<times> 'a) \<Rightarrow> fault + (kernel \<times> 'a outcome)" where
  "finished m = bindE m (\<lambda>(s, r). Inr (s, Done r))"

definition msg_send :: "kernel \<Rightarrow> maddr \<Rightarrow> int \<Rightarrow> fault + (kernel \<times> int outcome)" where
  "msg_send s m target_pid =
     (if irq_is_in s then finished (msg_send_int s m target_pid)
      else if sched_active_pid s = target_pid then finished (msg_send_to_self s m)
      else let (s, state) = irq_disable s in u_msg_send s m target_pid True state)"

definition msg_try_send :: "kernel \<Rightarrow> maddr \<Rightarrow> int \<Rightarrow> fault + (kernel \<times> int outcome)" where
  "msg_try_send s m target_pid =
     (if irq_is_in s then finished (msg_send_int s m target_pid)
      else if sched_active_pid s = target_pid then finished (msg_send_to_self s m)
      else let (s, state) = irq_disable s in u_msg_send s m target_pid False state)"

text \<open>An entry of \<open>sched_threads\<close> that the code dereferences.\<close>

definition thread_at :: "kernel \<Rightarrow> int \<Rightarrow> fault + tid" where
  "thread_at s p =
     bindE (thread_entry s p) (\<lambda>entry. case entry of None \<Rightarrow> Inl NullDeref | Some t \<Rightarrow> Inr t)"

definition msg_send_receive :: "kernel \<Rightarrow> maddr \<Rightarrow> maddr \<Rightarrow> int \<Rightarrow> fault + (kernel \<times> int outcome)" where
  "msg_send_receive s m reply target_pid =
     bindE (assertE (sched_active_pid s \<noteq> target_pid) ()) (\<lambda>_.
       let (s, state) = irq_disable s in
       bindE (thread_at s (sched_active_pid s)) (\<lambda>me.
       bindE (sched_set_status s me STATUS_REPLY_BLOCKED) (\<lambda>s.
         let s = upd_thread me (set_wait_data (MsgPtr reply)) s; s = put_msg reply (msgs s m) s in
         u_msg_send s reply target_pid True state)))"

definition msg_reply :: "kernel \<Rightarrow> maddr \<Rightarrow> maddr \<Rightarrow> fault + (kernel \<times> int)" where
  "msg_reply s m reply =
     (let (s, state) = irq_disable s in
      bindE (thread_entry s (sender_pid (msgs s m))) (\<lambda>entry.
        case entry of
          None \<Rightarrow> Inl AssertFail
        | Some target \<Rightarrow>
            if status (tcb s target) \<noteq> STATUS_REPLY_BLOCKED then Inr (irq_restore state s, -1)
            else
              bindE (msg_ptr (wait_data (tcb s target))) (\<lambda>target_message.
              bindE (sched_set_status (put_msg target_message (msgs s reply) s) target STATUS_PENDING) (\<lambda>s.
              let target_prio = priority (tcb s target) in
              bindE (sched_switch (irq_restore state s) target_prio) (\<lambda>s. Inr (s, 1))))))"

definition msg_reply_int :: "kernel \<Rightarrow> maddr \<Rightarrow> maddr \<Rightarrow> fault + (kernel \<times> int)" where
  "msg_reply_int s m reply =
     bindE (thread_at s (sender_pid (msgs s m))) (\<lambda>target.
       if status (tcb s target) \<noteq> STATUS_REPLY_BLOCKED then Inr (s, -1)
       else
         bindE (msg_ptr (wait_data (tcb s target))) (\<lambda>target_message.
         bindE (sched_set_status (put_msg target_message (msgs s reply) s) target STATUS_PENDING) (\<lambda>s.
           Inr (s\<lparr>sched_context_switch_request := True\<rparr>, 1))))"

definition thread_has_msg_queue :: "thread_t \<Rightarrow> bool" where
  "thread_has_msg_queue th \<longleftrightarrow> msg_array th \<noteq> None"

text \<open>An element of the array of messages of a thread.\<close>

definition array_elem :: "thread_t \<Rightarrow> int \<Rightarrow> fault + maddr" where
  "array_elem th i =
     (case msg_array th of
        None \<Rightarrow> Inl NullDeref
      | Some arr \<Rightarrow> if i < 0 then Inl OutOfBounds else Inr (arr, i))"

text \<open>
  The first half of \<open>_msg_receive\<close>, up to the test for a message: the index of the oldest queued
  message, or -1.
\<close>

definition receive_index :: "kernel \<Rightarrow> tid \<Rightarrow> kernel \<times> int" where
  "receive_index s me =
     (if thread_has_msg_queue (tcb s me) then
        let (q, i) = cib_get (msg_queue (tcb s me)) in (upd_thread me (set_queue q) s, i)
      else (s, -1))"

text \<open>
  The last branch: a thread waits to send. Its message goes into the place just freed in the
  queue, or into the caller's buffer.
\<close>

definition receive_dest :: "kernel \<Rightarrow> tid \<Rightarrow> maddr \<Rightarrow> int \<Rightarrow> fault + (kernel \<times> maddr)" where
  "receive_dest s me m queue_index =
     (if queue_index \<ge> 0 then
        let (q, n) = cib_put (msg_queue (tcb s me)); s = upd_thread me (set_queue q) s in
        bindE (array_elem (tcb s me) n) (\<lambda>m. Inr (s, m))
      else Inr (s, m))"

definition receive_from_waiter :: "kernel \<Rightarrow> tid \<Rightarrow> tid \<Rightarrow> maddr \<Rightarrow> int \<Rightarrow> bool \<Rightarrow> fault + (kernel \<times> int outcome)" where
  "receive_from_waiter s me sender m queue_index state =
     bindE (receive_dest s me m queue_index) (\<lambda>(s, m).
     bindE (msg_ptr (wait_data (tcb s sender))) (\<lambda>sender_msg.
       let s = put_msg m (msgs s sender_msg) s in
       bindE (if status (tcb s sender) \<noteq> STATUS_REPLY_BLOCKED then
                bindE (sched_set_status (upd_thread sender (set_wait_data NoData) s) sender STATUS_PENDING) (\<lambda>s.
                  Inr (s, priority (tcb s sender)))
              else Inr (s, THREAD_PRIORITY_IDLE)) (\<lambda>(s, sender_prio).
         let s = irq_restore state s in
         bindE (if sender_prio < THREAD_PRIORITY_IDLE then sched_switch s sender_prio else Inr s) (\<lambda>s.
           Inr (s, Done 1)))))"

definition u_msg_receive :: "kernel \<Rightarrow> maddr \<Rightarrow> bool \<Rightarrow> fault + (kernel \<times> int outcome)" where
  "u_msg_receive s m block =
     (let (s, state) = irq_disable s in
      bindE (thread_at s (sched_active_pid s)) (\<lambda>me.
      let (s, queue_index) = receive_index s me in
      if \<not> block \<and> links s (MsgWaiters me) = Null \<and> queue_index = -1 then
        Inr (irq_restore state s, Done (-1))
      else
        bindE (if queue_index \<ge> 0 then
                 bindE (array_elem (tcb s me) queue_index) (\<lambda>p. Inr (put_msg m (msgs s p) s))
               else Inr (upd_thread me (set_wait_data (MsgPtr m)) s)) (\<lambda>s.
        bindE (list_remove_head (links s) (MsgWaiters me)) (\<lambda>(h, next_waiter).
          let s = s\<lparr>links := h\<rparr> in
          if next_waiter = Null then
            (if queue_index < 0 then
               bindE (sched_set_status s me STATUS_RECEIVE_BLOCKED) (\<lambda>s.
                 Inr (thread_yield_higher (irq_restore state s), Blocked))
             else Inr (irq_restore state s, Done 1))
          else
            bindE (thread_of next_waiter) (\<lambda>sender. receive_from_waiter s me sender m queue_index state)))))"

text \<open>What a blocked \<open>_msg_receive\<close> does once the caller runs again.\<close>

definition msg_receive_resume :: "kernel \<Rightarrow> fault + (kernel \<times> int)" where
  "msg_receive_resume s =
     bindE (active_thread s) (\<lambda>t. assertE (status (tcb s t) \<noteq> STATUS_RECEIVE_BLOCKED) (s, 1))"

definition msg_try_receive :: "kernel \<Rightarrow> maddr \<Rightarrow> fault + (kernel \<times> int outcome)" where
  "msg_try_receive s m = u_msg_receive s m False"

definition msg_receive :: "kernel \<Rightarrow> maddr \<Rightarrow> fault + (kernel \<times> int outcome)" where
  "msg_receive s m = u_msg_receive s m True"

definition msg_avail :: "kernel \<Rightarrow> fault + int" where
  "msg_avail s =
     bindE (active_thread s) (\<lambda>me.
       Inr (if thread_has_msg_queue (tcb s me) then sint (cib_avail (msg_queue (tcb s me))) else -1))"

definition msg_init_queue :: "kernel \<Rightarrow> int \<Rightarrow> u32 \<Rightarrow> fault + kernel" where
  "msg_init_queue s arr num =
     bindE (active_thread s) (\<lambda>me.
     bindE (cib_init num) (\<lambda>q.
       Inr (upd_thread me (\<lambda>th. th\<lparr>msg_array := Some arr, msg_queue := q\<rparr>) s)))"

section \<open>Message objects\<close>

lemma put_msg_simps [simp]:
  "links (put_msg p v s) = links s" "tcb (put_msg p v s) = tcb s"
  "sched_threads (put_msg p v s) = sched_threads s" "sched_num_threads (put_msg p v s) = sched_num_threads s"
  "sched_active_thread (put_msg p v s) = sched_active_thread s" "sched_active_pid (put_msg p v s) = sched_active_pid s"
  "runqueue_bitcache (put_msg p v s) = runqueue_bitcache s"
  "sched_context_switch_request (put_msg p v s) = sched_context_switch_request s"
  "msgs (put_msg p v s) = (msgs s)(p := v)" "mboxes (put_msg p v s) = mboxes s" "rmutexes (put_msg p v s) = rmutexes s"
  "msip (put_msg p v s) = msip s" "mie (put_msg p v s) = mie s" "in_isr (put_msg p v s) = in_isr s"
  "thread_flags_module (put_msg p v s) = thread_flags_module s" "live (put_msg p v s) t = live s t"
  "switch_pending (put_msg p v s) = switch_pending s" "queues_ok (put_msg p v s) = queues_ok s"
  "runnable (put_msg p v s) t = runnable s t" "put_msg p v (s\<lparr>mie := b\<rparr>) = (put_msg p v s)\<lparr>mie := b\<rparr>"
  by (simp_all add: put_msg_def runnable_def)

lemma put_msg_kinv [simp]: "kinv (put_msg p v s) L = kinv s L" "prio_ok (put_msg p v s) = prio_ok s"
  by (rule iffI; erule kinv_cong; simp) (rule iffI; erule prio_ok_cong; simp)

lemma set_sender_simps [simp]:
  "links (set_sender m i s) = links s" "tcb (set_sender m i s) = tcb s"
  "sched_threads (set_sender m i s) = sched_threads s" "sched_active_thread (set_sender m i s) = sched_active_thread s"
  "sched_active_pid (set_sender m i s) = sched_active_pid s"
  "msgs (set_sender m i s) = (msgs s)(m := (msgs s m)\<lparr>sender_pid := i\<rparr>)" "mboxes (set_sender m i s) = mboxes s"
  "msip (set_sender m i s) = msip s" "mie (set_sender m i s) = mie s" "in_isr (set_sender m i s) = in_isr s"
  "sched_context_switch_request (set_sender m i s) = sched_context_switch_request s"
  "thread_flags_module (set_sender m i s) = thread_flags_module s" "live (set_sender m i s) t = live s t"
  "switch_pending (set_sender m i s) = switch_pending s" "queues_ok (set_sender m i s) = queues_ok s"
  "runnable (set_sender m i s) t = runnable s t" "kinv (set_sender m i s) L = kinv s L"
  "prio_ok (set_sender m i s) = prio_ok s" "set_sender m i (s\<lparr>mie := b\<rparr>) = (set_sender m i s)\<lparr>mie := b\<rparr>"
  by (simp_all add: set_sender_def)

lemma set_queue_simps [simp]:
  "status (set_queue q th) = status th" "priority (set_queue q th) = priority th" "pid (set_queue q th) = pid th"
  "flags (set_queue q th) = flags th" "wait_data (set_queue q th) = wait_data th"
  "msg_queue (set_queue q th) = q" "msg_array (set_queue q th) = msg_array th"
  by (simp_all add: set_queue_def)

lemma kinv_set_queue [simp]: "kinv s L \<Longrightarrow> kinv (upd_thread t (set_queue q) s) L"
  by (erule kinv_upd_other) simp

lemma queues_ok_set_queue:
  "queues_ok s \<Longrightarrow> live s t \<Longrightarrow> cib_inv q \<Longrightarrow> cib_size q = cib_size (msg_queue (tcb s t)) \<Longrightarrow>
     queues_ok (upd_thread t (set_queue q) s)"
  by (simp add: queues_ok_def thread_queue_ok_def)

lemma queues_okD: "queues_ok s \<Longrightarrow> live s t \<Longrightarrow> cib_inv (msg_queue (tcb s t))"
  "queues_ok s \<Longrightarrow> live s t \<Longrightarrow> msg_array (tcb s t) = None \<Longrightarrow> cib_size (msg_queue (tcb s t)) = 0"
  by (simp_all add: queues_ok_def thread_queue_ok_def)

text \<open>The messages in the queue of a thread, oldest first, and whether there is room for another one.\<close>

definition queue_msgs :: "kernel \<Rightarrow> tid \<Rightarrow> msg_t list" where
  "queue_msgs s t =
     (case msg_array (tcb s t) of
        None \<Rightarrow> []
      | Some arr \<Rightarrow> map (\<lambda>i. msgs s (arr, int i)) (cib_slots (msg_queue (tcb s t))))"

definition queue_room :: "thread_t \<Rightarrow> bool" where
  "queue_room th \<longleftrightarrow> unat (cib_avail (msg_queue th)) < cib_size (msg_queue th)"

lemma queue_msgs_irq [simp]:
  "queue_msgs (s\<lparr>mie := b\<rparr>) t = queue_msgs s t" "queue_msgs (s\<lparr>msip := c\<rparr>) t = queue_msgs s t"
  by (simp_all add: queue_msgs_def split: option.split)

lemma queue_msgs_put [simp]:
  "msg_array (tcb s t) \<noteq> Some (fst q) \<Longrightarrow> queue_msgs (put_msg q v s) t = queue_msgs s t"
  "msg_array (tcb s t) \<noteq> Some (fst q) \<Longrightarrow> queue_msgs (set_sender q i s) t = queue_msgs s t"
  by (auto simp: queue_msgs_def split: option.split)

section \<open>Queueing\<close>

text \<open>
  What the waking for a flag and the queueing of a message leave alone. The target keeps its
  status unless it waits for the flag \<open>THREAD_FLAG_MSG_WAITING\<close>.
\<close>

definition flag_wakes :: "kernel \<Rightarrow> tid \<Rightarrow> bool" where
  "flag_wakes s t \<longleftrightarrow>
     thread_flags_module s \<and> flags_due (set_flags (flags (tcb s t) OR THREAD_FLAG_MSG_WAITING) (tcb s t))"

definition notified :: "kernel \<Rightarrow> tid \<Rightarrow> kernel \<Rightarrow> bool" where
  "notified s t s' \<longleftrightarrow>
     (\<exists>g h b. s' = upd_thread t g (s\<lparr>links := h, runqueue_bitcache := b,
          sched_context_switch_request := (flag_wakes s t \<or> sched_context_switch_request s)\<rparr>) \<and>
        (\<forall>th. priority (g th) = priority th \<and> pid (g th) = pid th \<and> wait_data (g th) = wait_data th \<and>
           msg_queue (g th) = msg_queue th \<and> msg_array (g th) = msg_array th) \<and>
        status (g (tcb s t)) = (if flag_wakes s t then STATUS_PENDING else status (tcb s t)) \<and>
        (\<forall>l. \<not> is_runqueue l \<longrightarrow> \<not> is_entry l \<longrightarrow> h l = links s l))"

lemma notifiedD:
  assumes "notified s t s'"
  shows "\<And>u. u \<noteq> t \<Longrightarrow> tcb s' u = tcb s u"
    and "\<And>u. priority (tcb s' u) = priority (tcb s u) \<and> pid (tcb s' u) = pid (tcb s u) \<and>
           wait_data (tcb s' u) = wait_data (tcb s u)"
    and "status (tcb s' t) = (if flag_wakes s t then STATUS_PENDING else status (tcb s t))"
    and "same_queues s s'" and "msgs s' = msgs s" and "sched_threads s' = sched_threads s"
    and "sched_active_thread s' = sched_active_thread s" and "sched_active_pid s' = sched_active_pid s"
    and "mie s' = mie s" and "in_isr s' = in_isr s" and "msip s' = msip s" and "thread_flags_module s' = thread_flags_module s"
    and "sched_context_switch_request s' = (flag_wakes s t \<or> sched_context_switch_request s)"
    and "\<And>l. \<not> is_runqueue l \<Longrightarrow> \<not> is_entry l \<Longrightarrow> links s' l = links s l"
  using assms by (auto simp: notified_def)

lemma flag_wakes_free:
  assumes "kinv s L" and "flag_wakes s t"
  shows "t \<notin> set (L l)" and "\<not> on_runqueue (status (tcb s t))"
proof -
  have st: "status (tcb s t) = STATUS_FLAG_BLOCKED_ANY \<or> status (tcb s t) = STATUS_FLAG_BLOCKED_ALL"
    using assms(2) by (auto simp: flag_wakes_def flags_due_def)
  then show "\<not> on_runqueue (status (tcb s t))" by auto
  show "t \<notin> set (L l)"
    using st kinv_waiter [OF assms(1), of t l] kinv_in_runqueue [OF assms(1), of t] by (cases l) auto
qed

lemma flag_msg_waiting_ok:
  assumes inv: "kinv s L" and live: "live s t"
    and act: "flag_wakes s t \<Longrightarrow> sched_active_thread s \<noteq> Some t \<or> switch_pending s"
  defines "p \<equiv> priority (tcb s t)"
  obtains s' where "flag_msg_waiting s t = Inr s'" and "notified s t s'"
    and "kinv s' (if flag_wakes s t then L(RunQueue p := L (RunQueue p) @ [t]) else L)"
proof (cases "thread_flags_module s")
  case False
  have "notified s t s" unfolding notified_def
    by (rule exI [of _ id], rule exI [of _ "links s"], rule exI [of _ "runqueue_bitcache s"])
      (use False in \<open>simp add: upd_thread_def flag_wakes_def\<close>)
  then show thesis using False inv by (intro that [of s]) (simp_all add: flag_msg_waiting_def flag_wakes_def)
next
  case True
  let ?f = "set_flags (flags (tcb s t) OR THREAD_FLAG_MSG_WAITING)"
  let ?s = "upd_thread t ?f s"
  have th: "tcb ?s t = ?f (tcb s t)" by simp
  have 1: "kinv ?s L" "live ?s t" using inv live by simp_all
  show thesis
  proof (cases "flag_wakes s t")
    case False
    then have "thread_flags_wake ?s t = Inr (?s, False)"
      using thread_flags_wake_not_due [OF 1] True by (simp add: flag_wakes_def th)
    moreover have "notified s t ?s" unfolding notified_def
      by (rule exI [of _ ?f], rule exI [of _ "links s"], rule exI [of _ "runqueue_bitcache s"])
        (use False in \<open>simp add: upd_thread_def\<close>)
    ultimately show thesis using True False 1 by (intro that [of ?s]) (simp_all add: flag_msg_waiting_def)
  next
    case wakes: True
    then have due: "flags_due (tcb ?s t)" by (simp add: flag_wakes_def)
    have act': "sched_active_thread ?s \<noteq> Some t \<or> switch_pending ?s" using act [OF wakes] by simp
    have pr: "priority (tcb ?s t) = p" by (simp add: p_def)
    obtain h b where w: "thread_flags_wake ?s t = Inr (upd_thread t (set_status STATUS_PENDING)
        (?s\<lparr>links := h, runqueue_bitcache := b, sched_context_switch_request := True\<rparr>), True)"
      "kinv (upd_thread t (set_status STATUS_PENDING)
        (?s\<lparr>links := h, runqueue_bitcache := b, sched_context_switch_request := True\<rparr>)) (L(RunQueue p := L (RunQueue p) @ [t]))"
      "\<And>l. \<not> is_runqueue l \<Longrightarrow> \<not> is_entry l \<Longrightarrow> h l = links ?s l"
      by (rule thread_flags_wake_due [OF 1 due act', unfolded pr]) (rule that)
    let ?s' = "upd_thread t (set_status STATUS_PENDING)
        (?s\<lparr>links := h, runqueue_bitcache := b, sched_context_switch_request := True\<rparr>)"
    have "notified s t ?s'" unfolding notified_def
      by (rule exI [of _ "set_status STATUS_PENDING \<circ> ?f"], rule exI [of _ h], rule exI [of _ b])
        (use wakes w(3) in \<open>simp add: upd_thread_def\<close>)
    then show thesis using w True wakes by (intro that [of ?s']) (simp_all add: flag_msg_waiting_def)
  qed
qed

lemma queue_msg_full:
  assumes "queues_ok s" and "live s t" and "\<not> queue_room (tcb s t)"
  shows "queue_msg s t m = Inr (s, 0)"
proof -
  have inv: "cib_inv (msg_queue (tcb s t))" by (rule queues_okD(1) [OF assms(1,2)])
  then have "length (cib_slots (msg_queue (tcb s t))) = cib_size (msg_queue (tcb s t))"
    using cib.length_slots [OF inv] assms(3) by (simp add: queue_room_def)
  then have "cib_put (msg_queue (tcb s t)) = (msg_queue (tcb s t), -1)" by (rule cib.put_full [OF inv])
  moreover have "upd_thread t (set_queue (msg_queue (tcb s t))) s = s"
    by (simp add: upd_thread_def set_queue_def)
  ultimately show ?thesis by (simp add: queue_msg_def Let_def)
qed

text \<open>
  With room in the queue the message is appended to it. \<open>queued\<close> collects what does not change:
  everything but the target, the message objects, and what making the target runnable touches.
\<close>

definition queued :: "kernel \<Rightarrow> tid \<Rightarrow> maddr \<Rightarrow> kernel \<Rightarrow> bool" where
  "queued s t m s' \<longleftrightarrow>
     (\<forall>u. u \<noteq> t \<longrightarrow> tcb s' u = tcb s u) \<and>
     (\<forall>u. priority (tcb s' u) = priority (tcb s u) \<and> pid (tcb s' u) = pid (tcb s u) \<and>
        wait_data (tcb s' u) = wait_data (tcb s u) \<and> msg_array (tcb s' u) = msg_array (tcb s u)) \<and>
     status (tcb s' t) = (if flag_wakes s t then STATUS_PENDING else status (tcb s t)) \<and>
     sched_threads s' = sched_threads s \<and> sched_active_thread s' = sched_active_thread s \<and>
     sched_active_pid s' = sched_active_pid s \<and> mie s' = mie s \<and> in_isr s' = in_isr s \<and> msip s' = msip s \<and>
     sched_context_switch_request s' = (flag_wakes s t \<or> sched_context_switch_request s) \<and>
     (\<forall>l. \<not> is_runqueue l \<longrightarrow> \<not> is_entry l \<longrightarrow> links s' l = links s l) \<and>
     (\<exists>arr n. msg_array (tcb s t) = Some arr \<and> msgs s' = (msgs s)((arr, n) := msgs s m)) \<and>
     queue_msgs s' t = queue_msgs s t @ [msgs s m]"

lemma queue_msg_room:
  assumes inv: "kinv s L" and q: "queues_ok s" and live: "live s t" and room: "queue_room (tcb s t)"
    and act: "flag_wakes s t \<Longrightarrow> sched_active_thread s \<noteq> Some t \<or> switch_pending s"
  defines "p \<equiv> priority (tcb s t)"
  obtains s' where "queue_msg s t m = Inr (s', 1)" and "queued s t m s'" and "queues_ok s'"
    and "kinv s' (if flag_wakes s t then L(RunQueue p := L (RunQueue p) @ [t]) else L)"
proof -
  let ?q = "msg_queue (tcb s t)"
  have cq: "cib_inv ?q" by (rule queues_okD(1) [OF q live])
  have "length (cib_slots ?q) < cib_size ?q" using room by (simp add: queue_room_def)
  from cib.put_ok [OF cq this] obtain q' n where p': "cib_put ?q = (q', int n)" "n \<notin> set (cib_slots ?q)"
    "cib_slots q' = cib_slots ?q @ [n]" "cib_size q' = cib_size ?q" "cib_inv q'" by blast
  obtain arr where arr: "msg_array (tcb s t) = Some arr"
    using queues_okD(2) [OF q live] room by (cases "msg_array (tcb s t)") (auto simp: queue_room_def)
  let ?s1 = "put_msg (arr, int n) (msgs s m) (upd_thread t (set_queue q') s)"
  have fw: "flag_wakes ?s1 t = flag_wakes s t" by (simp add: flag_wakes_def flags_due_def)
  have 1: "kinv ?s1 L" "live ?s1 t" "flag_wakes ?s1 t \<Longrightarrow> sched_active_thread ?s1 \<noteq> Some t \<or> switch_pending ?s1"
    "priority (tcb ?s1 t) = p"
    using inv live act by (simp_all add: fw p_def)
  have q1: "queues_ok ?s1" using queues_ok_set_queue [OF q live p'(5,4)] by simp
  obtain s' where s': "flag_msg_waiting ?s1 t = Inr s'" "notified ?s1 t s'"
    "kinv s' (if flag_wakes s t then L(RunQueue p := L (RunQueue p) @ [t]) else L)"
    by (rule flag_msg_waiting_ok [OF 1(1-3), unfolded fw 1(4)], assumption) (rule that)
  note n = notifiedD [OF s'(2)]
  have "queue_msg s t m = Inr (s', 1)"
    using s'(1) arr p'(1) by (simp add: queue_msg_def)
  moreover have "queue_msgs s' t = queue_msgs s t @ [msgs s m]"
    using n(4,5) arr p'(2,3) by (auto simp: queue_msgs_def)
  then have "queued s t m s'"
    unfolding queued_def using n arr by (auto simp: fw)
  moreover have "queues_ok s'" by (rule queues_ok_cong [OF q1 n(4)]) (simp add: live_def n(6))
  ultimately show thesis using s'(3) by (intro that)
qed

lemma queuedD:
  assumes "queued s t m s'"
  shows "\<And>u. u \<noteq> t \<Longrightarrow> tcb s' u = tcb s u"
    and "\<And>u. priority (tcb s' u) = priority (tcb s u) \<and> pid (tcb s' u) = pid (tcb s u) \<and>
        wait_data (tcb s' u) = wait_data (tcb s u) \<and> msg_array (tcb s' u) = msg_array (tcb s u)"
    and "status (tcb s' t) = (if flag_wakes s t then STATUS_PENDING else status (tcb s t))"
    and "sched_threads s' = sched_threads s" and "sched_active_thread s' = sched_active_thread s"
    and "sched_active_pid s' = sched_active_pid s" and "mie s' = mie s" and "in_isr s' = in_isr s" and "msip s' = msip s"
    and "sched_context_switch_request s' = (flag_wakes s t \<or> sched_context_switch_request s)"
    and "\<And>l. \<not> is_runqueue l \<Longrightarrow> \<not> is_entry l \<Longrightarrow> links s' l = links s l"
    and "queue_msgs s' t = queue_msgs s t @ [msgs s m]"
  using assms unfolding queued_def by blast+

text \<open>Queueing keeps the contract of a call, except that a thread woken by its flag needs a switch.\<close>

lemma queued_contract:
  assumes "queued s t m s'" and "queues_ok s'" and "prio_ok s" and "flag_wakes s t \<Longrightarrow> in_isr s \<or> msip s"
  shows "call_frame s s'" and "prio_ok s'"
proof -
  note n = queuedD [OF assms(1)]
  have st: "on_runqueue (status (tcb s' u))" if "on_runqueue (status (tcb s u))" for u
    using that n(1) [of u] n(3) by (cases "u = t") (auto split: if_splits)
  show "call_frame s s'" by (rule call_frameI_queues) (use n(4,5,7,8) assms(2) st in auto)
  show "prio_ok s'"
  proof (cases "flag_wakes s t")
    case True
    then show ?thesis using assms(4) n(8-10) by (auto simp: prio_ok_def switch_pending_def)
  next
    case False
    then have "status (tcb s' u) = status (tcb s u)" for u using n(1) [of u] n(3) by (cases "u = t") auto
    then show ?thesis
      using n False by (intro prio_ok_cong [OF assms(3)]) (simp_all add: runnable_def live_def switch_pending_def)
  qed
qed

section \<open>Delivering to a thread that waits\<close>

lemma receive_blocked_free:
  "kinv s L \<Longrightarrow> status (tcb s t) = STATUS_RECEIVE_BLOCKED \<Longrightarrow> t \<notin> set (L l)"
  using kinv_waiter [of s L t l] kinv_in_runqueue [of s L t] by (cases l) auto

text \<open>The message is copied to the place the blocked thread named, and the thread becomes runnable.\<close>

lemma deliver:
  assumes inv: "kinv s L" and live: "live s t"
    and st: "status (tcb s t) \<in> {STATUS_RECEIVE_BLOCKED, STATUS_REPLY_BLOCKED}" and free: "\<And>l. t \<notin> set (L l)"
    and act: "sched_active_thread s \<noteq> Some t \<or> switch_pending s"
  defines "p \<equiv> priority (tcb s t)"
  obtains q s1 h b where "wait_data (tcb s t) = MsgPtr q"
    and "sched_set_status (put_msg q v s) t STATUS_PENDING = Inr s1"
    and "s1 = upd_thread t (set_status STATUS_PENDING) ((put_msg q v s)\<lparr>links := h, runqueue_bitcache := b\<rparr>)"
    and "kinv s1 (L(RunQueue p := L (RunQueue p) @ [t]))"
proof -
  have "is_msg (wait_data (tcb s t))" using kinv_data [OF inv live] st by auto
  then obtain q where q: "wait_data (tcb s t) = MsgPtr q" by (cases "wait_data (tcb s t)") auto
  let ?s = "put_msg q v s"
  have *: "kinv ?s L" "live ?s t" "\<not> on_runqueue (status (tcb ?s t))" "on_runqueue STATUS_PENDING"
    "sched_active_thread ?s \<noteq> Some t \<or> switch_pending ?s" "priority (tcb ?s t) = p"
    using inv live st act by (auto simp: p_def)
  obtain s1 h b where "sched_set_status ?s t STATUS_PENDING = Inr s1"
    "s1 = upd_thread t (set_status STATUS_PENDING) (?s\<lparr>links := h, runqueue_bitcache := b\<rparr>)"
    "kinv s1 (L(RunQueue p := L (RunQueue p) @ [t]))"
    by (rule sched_set_status_wake [OF *(1-4) free *(5), unfolded *(6)]) (rule that)
  then show thesis by (intro that [OF q])
qed

section \<open>Sending from a thread\<close>

lemma thread_entry_valid:
  assumes "kinv s L" and "sched_threads s p = Some t"
  shows "thread_entry s p = Inr (Some t)" and "live s t" and "pid (tcb s t) = p"
proof -
  have "pid_is_valid p" "pid (tcb s t) = p" using assms by (simp_all add: kinv_def threads_ok_def)
  then show "thread_entry s p = Inr (Some t)" and "pid (tcb s t) = p"
    using assms(2) by (auto simp: thread_entry_def pid_is_valid_def kernel_consts)
  show "live s t" using assms(2) by (auto simp: live_def)
qed

lemma thread_entry_simps [simp]:
  "thread_entry (s\<lparr>mie := b\<rparr>) p = thread_entry s p" "thread_entry (put_msg q v s) p = thread_entry s p"
  "thread_entry (set_sender q i s) p = thread_entry s p" "thread_entry (upd_thread t f s) p = thread_entry s p"
  by (simp_all add: thread_entry_def)

lemma active_pid: "kinv s L \<Longrightarrow> sched_active_thread s = Some t \<Longrightarrow> sched_threads s (sched_active_pid s) = Some t"
  using kinv_active(1,2) [of s L t] thread_entry_valid(3) [of s L _ t] by (auto simp: live_def)

text \<open>The message as it is sent: with the identifier of the sender filled in.\<close>

definition stamped :: "kernel \<Rightarrow> maddr \<Rightarrow> msg_t" where
  "stamped s m = (msgs s m)\<lparr>sender_pid := sched_active_pid s\<rparr>"

lemma send_deliver:
  assumes inv: "kinv s L" and act: "sched_active_thread s = Some t" and u: "sched_threads s p = Some u" "u \<noteq> t"
    and st: "status (tcb s u) = STATUS_RECEIVE_BLOCKED"
  defines "r \<equiv> priority (tcb s u)"
  obtains q s' where "wait_data (tcb s u) = MsgPtr q"
    and "u_msg_send s m p block state = Inr (s', if status (tcb s t) = STATUS_REPLY_BLOCKED then Blocked else Done 1)"
    and "kinv s' (L(RunQueue r := L (RunQueue r) @ [u]))" and "msip s'" and "mie s' = state" and "in_isr s' = in_isr s"
    and "msgs s' = (msgs s)(m := stamped s m, q := stamped s m)"
    and "tcb s' = (tcb s)(u := (tcb s u)\<lparr>status := STATUS_PENDING\<rparr>)"
    and "sched_threads s' = sched_threads s" and "sched_active_thread s' = Some t" and "same_queues s s'"
proof -
  let ?s = "set_sender m (sched_active_pid s) s"
  note e = thread_entry_valid [OF inv u(1)]
  have *: "kinv ?s L" "live ?s u" "status (tcb ?s u) \<in> {STATUS_RECEIVE_BLOCKED, STATUS_REPLY_BLOCKED}"
    "sched_active_thread ?s \<noteq> Some u \<or> switch_pending ?s" "priority (tcb ?s u) = r"
    using inv e(2) st act u(2) by (simp_all add: r_def)
  have free: "u \<notin> set (L l)" for l by (rule receive_blocked_free [OF inv st])
  obtain q s1 h b where d: "wait_data (tcb ?s u) = MsgPtr q"
    "sched_set_status (put_msg q (stamped s m) ?s) u STATUS_PENDING = Inr s1"
    "s1 = upd_thread u (set_status STATUS_PENDING) ((put_msg q (stamped s m) ?s)\<lparr>links := h, runqueue_bitcache := b\<rparr>)"
    "kinv s1 (L(RunQueue r := L (RunQueue r) @ [u]))"
    by (rule deliver [OF *(1-3) free *(4), unfolded *(5)]) (rule that)
  let ?s' = "s1\<lparr>mie := state, msip := True\<rparr>"
  have "u_msg_send s m p block state = Inr (?s', if status (tcb s t) = STATUS_REPLY_BLOCKED then Blocked else Done 1)"
    using e(1) act st d(1,2) u(2)
    by (simp add: u_msg_send_def Let_def thread_yield_higher_def stamped_def) (simp add: d(3))
  moreover have "kinv ?s' (L(RunQueue r := L (RunQueue r) @ [u]))" using d(4) by (intro kinv_yield) simp
  ultimately show thesis
    using d(1) act by (intro that [of q ?s']) (simp_all add: d(3) set_status_def stamped_def)
qed

lemma send_queue:
  assumes inv: "kinv s L" and q: "queues_ok s" and act: "sched_active_thread s = Some t"
    and u: "sched_threads s p = Some u" "u \<noteq> t"
    and st: "status (tcb s u) \<noteq> STATUS_RECEIVE_BLOCKED" and room: "queue_room (tcb s u)"
  obtains s' L' where "u_msg_send s m p block state =
      (if status (tcb s t) = STATUS_REPLY_BLOCKED then Inr (s'\<lparr>mie := state, msip := True\<rparr>, Blocked)
       else Inr (s'\<lparr>mie := state\<rparr>, Done 1))"
    and "queued (set_sender m (sched_active_pid s) s) u m s'" and "queues_ok s'" and "kinv s' L'"
    and "\<And>l. \<not> is_runqueue l \<Longrightarrow> L' l = L l"
proof -
  let ?s = "set_sender m (sched_active_pid s) s"
  note e = thread_entry_valid [OF inv u(1)]
  have *: "kinv ?s L" "queues_ok ?s" "live ?s u" "queue_room (tcb ?s u)"
    using inv q e(2) room by simp_all
  have act': "sched_active_thread ?s \<noteq> Some u \<or> switch_pending ?s" using act u(2) by simp
  let ?L = "if flag_wakes ?s u then L(RunQueue (priority (tcb ?s u)) := L (RunQueue (priority (tcb ?s u))) @ [u]) else L"
  obtain s' where s': "queue_msg ?s u m = Inr (s', 1)" "queued ?s u m s'" "queues_ok s'" "kinv s' ?L"
    by (rule queue_msg_room [OF * act']) (rule that)
  have "status (tcb s' t) = status (tcb s t)" using queuedD(1) [OF s'(2), of t] u(2) by simp
  then have "u_msg_send s m p block state =
      (if status (tcb s t) = STATUS_REPLY_BLOCKED then Inr (s'\<lparr>mie := state, msip := True\<rparr>, Blocked)
       else Inr (s'\<lparr>mie := state\<rparr>, Done 1))"
    using e(1) act st s'(1) by (simp add: u_msg_send_def Let_def thread_yield_higher_def)
  then show thesis using s' by (intro that [of s' ?L]) simp_all
qed

text \<open>
  The caller goes to sleep in the list of the target: it runs, or it already is
  \<open>STATUS_REPLY_BLOCKED\<close> because it waits for the answer too.
\<close>

definition can_wait :: "kernel \<Rightarrow> layout \<Rightarrow> tid \<Rightarrow> bool" where
  "can_wait s L t \<longleftrightarrow>
     on_runqueue (status (tcb s t)) \<and> (\<exists>ts. L (RunQueue (priority (tcb s t))) = t # ts) \<or>
     status (tcb s t) = STATUS_REPLY_BLOCKED \<and> is_msg (wait_data (tcb s t)) \<and> (\<forall>l. t \<notin> set (L l))"

definition wait_status :: "thread_status_t \<Rightarrow> thread_status_t" where
  "wait_status st = (if st = STATUS_REPLY_BLOCKED then STATUS_REPLY_BLOCKED else STATUS_SEND_BLOCKED)"

lemma kinv_set_msg:
  assumes inv: "kinv s L" and w: "can_wait s L t"
  shows "kinv (upd_thread t (set_wait_data (MsgPtr m)) s) L"
proof (cases "on_runqueue (status (tcb s t))")
  case True
  then show ?thesis by (intro kinv_upd_wait_data [OF inv]) simp_all
next
  case False
  let ?s = "upd_thread t (set_wait_data (MsgPtr m)) s"
  have "t \<notin> set (L (MboxReaders i))" for i using w False by (auto simp: can_wait_def)
  then have "data_ok ?s L" using kinv_data_ok [OF inv] w False by (auto simp: data_ok_def can_wait_def)
  moreover have "status (tcb ?s x) = status (tcb s x)" "priority (tcb ?s x) = priority (tcb s x)"
    "pid (tcb ?s x) = pid (tcb s x)" for x by simp_all
  ultimately show ?thesis
    using inv unfolding kinv_def threads_ok_def runq_ok_def cache_ok_def waiters_ok_def active_ok_def
    by (simp del: upd_thread_simps(1))
qed

lemma set_status_same: "status (tcb s t) = st \<Longrightarrow> upd_thread t (set_status st) s = s"
  by (auto simp: upd_thread_def set_status_def)

lemma wait_in_list:
  assumes inv: "kinv s L" and act: "sched_active_thread s = Some t" and w: "can_wait s L t"
    and msg: "is_msg (wait_data (tcb s t))"
  obtains s1 s2 h b L' where "sched_set_status s t (wait_status (status (tcb s t))) = Inr s1"
    and "thread_add_to_list s1 (MsgWaiters u) t = Inr s2"
    and "s2 = upd_thread t (set_status (wait_status (status (tcb s t)))) (s\<lparr>links := h, runqueue_bitcache := b\<rparr>)"
    and "kinv s2 L'" and "L' (MsgWaiters u) = insert_waiter s t (L (MsgWaiters u))"
proof -
  let ?l = "MsgWaiters u"
  have tag: "\<not> is_runqueue ?l" "\<not> is_entry ?l" "links s ?l \<noteq> Tagged" "wait_status st \<in> waiting_status ?l"
    "data_fits (wait_status st) (wait_data (tcb s t))"
    "\<forall>m. ?l = MboxReaders m \<longrightarrow> is_msg (wait_data (tcb s t))" for st
    using kinv_not_tagged [OF inv, of ?l] msg by (auto simp: wait_status_def)
  show thesis
  proof (cases "on_runqueue (status (tcb s t))")
    case True
    with w obtain ts where ts: "L (RunQueue (priority (tcb s t))) = t # ts" by (auto simp: can_wait_def)
    let ?L = "L(RunQueue (priority (tcb s t)) := ts, ?l := insert_waiter s t (L ?l))"
    obtain s1 s2 h b where "sched_set_status s t (wait_status (status (tcb s t))) = Inr s1"
      "thread_add_to_list s1 ?l t = Inr s2"
      "s2 = upd_thread t (set_status (wait_status (status (tcb s t)))) (s\<lparr>links := h, runqueue_bitcache := b\<rparr>)" "kinv s2 ?L"
      by (rule block_on_list [OF inv act True ts tag]) (rule that)
    then show thesis by (rule that [where L' = ?L]) simp
  next
    case False
    with w have r: "status (tcb s t) = STATUS_REPLY_BLOCKED" and free: "\<And>l. t \<notin> set (L l)" by (auto simp: can_wait_def)
    have same: "sched_set_status s t (wait_status (status (tcb s t))) = Inr s" "upd_thread t (set_status STATUS_REPLY_BLOCKED) s = s"
      using r set_status_same [OF r] by (simp_all add: wait_status_def sched_set_status_def set_status_def [abs_def])
    have st: "live s t" "status (tcb s t) \<in> waiting_status ?l" using kinv_active(1) [OF inv act] r by simp_all
    obtain h where h: "thread_add_to_list s ?l t = Inr (s\<lparr>links := h\<rparr>)" "kinv (s\<lparr>links := h\<rparr>) (L(?l := insert_waiter s t (L ?l)))"
      by (rule kinv_add_waiter [where l = ?l, OF inv tag(1-3) st free tag(6)]) (rule that)
    have e: "s\<lparr>links := h\<rparr> = upd_thread t (set_status (wait_status (status (tcb s t)))) (s\<lparr>links := h, runqueue_bitcache := runqueue_bitcache s\<rparr>)"
      using r set_status_same [of "s\<lparr>links := h\<rparr>" t] by (simp add: wait_status_def)
    show thesis by (rule that [OF same(1) h(1) e h(2)]) simp
  qed
qed

lemma send_wait:
  assumes inv: "kinv s L" and q: "queues_ok s" and act: "sched_active_thread s = Some t"
    and u: "sched_threads s p = Some u" "u \<noteq> t" and w: "can_wait s L t"
    and st: "status (tcb s u) \<noteq> STATUS_RECEIVE_BLOCKED" and room: "\<not> queue_room (tcb s u)"
  obtains s' L' where "u_msg_send s m p True state = Inr (s', Blocked)" and "kinv s' L'" and "msip s'"
    and "mie s' = state" and "in_isr s' = in_isr s" and "msgs s' = (msgs s)(m := stamped s m)"
    and "tcb s' t = (tcb s t)\<lparr>wait_data := MsgPtr m, status := wait_status (status (tcb s t))\<rparr>"
    and "\<And>x. x \<noteq> t \<Longrightarrow> x \<noteq> u \<Longrightarrow> tcb s' x = tcb s x"
    and "status (tcb s' u) = status (tcb s u) \<or> status (tcb s' u) = STATUS_PENDING"
    and "L' (MsgWaiters u) = insert_waiter s t (L (MsgWaiters u))"
    and "sched_threads s' = sched_threads s" and "sched_active_thread s' = Some t" and "same_queues s s'"
proof -
  note e = thread_entry_valid [OF inv u(1)]
  let ?s = "set_sender m (sched_active_pid s) s"
  let ?s1 = "upd_thread t (set_wait_data (MsgPtr m)) ?s"
  let ?st = "wait_status (status (tcb s t))"
  have "queue_msg ?s u m = Inr (?s, 0)" using q e(2) room by (intro queue_msg_full) simp_all
  moreover have w': "can_wait ?s L t" using w by (simp add: can_wait_def)
  have 1: "kinv ?s1 L" using inv w' by (intro kinv_set_msg) simp
  have 2: "sched_active_thread ?s1 = Some t" "can_wait ?s1 L t" "is_msg (wait_data (tcb ?s1 t))"
    "status (tcb ?s1 t) = status (tcb s t)" using act w' by (auto simp: can_wait_def)
  obtain s2 s3 h b L' where s2: "sched_set_status ?s1 t ?st = Inr s2"
    "thread_add_to_list s2 (MsgWaiters u) t = Inr s3"
    "s3 = upd_thread t (set_status ?st) (?s1\<lparr>links := h, runqueue_bitcache := b\<rparr>)"
    "kinv s3 L'" "L' (MsgWaiters u) = insert_waiter ?s1 t (L (MsgWaiters u))"
    by (rule wait_in_list [OF 1 2(1-3), unfolded 2(4)]) (rule that)
  have 3: "live s3 u" "sched_active_thread s3 \<noteq> Some u \<or> switch_pending s3" using e(2) act u(2) by (simp_all add: s2(3))
  let ?L = "if flag_wakes s3 u then L'(RunQueue (priority (tcb s3 u)) := L' (RunQueue (priority (tcb s3 u))) @ [u]) else L'"
  obtain s4 where s4: "flag_msg_waiting s3 u = Inr s4" "notified s3 u s4" "kinv s4 ?L"
    by (rule flag_msg_waiting_ok [OF s2(4) 3]) (rule that)
  note n = notifiedD [OF s4(2)]
  let ?s' = "s4\<lparr>mie := state, msip := True\<rparr>"
  have k: "kinv ?s' ?L" using s4(3) by (intro kinv_yield) simp
  have "u_msg_send s m p True state = Inr (?s', Blocked)"
    using calculation e(1) act st s2(1,2) s4(1)
    by (simp add: u_msg_send_def Let_def thread_yield_higher_def wait_status_def)
  moreover have "?L (MsgWaiters u) = insert_waiter s t (L (MsgWaiters u))"
    using s2(5) by (auto intro: insert_waiter_cong)
  moreover have "tcb s4 t = (tcb s t)\<lparr>wait_data := MsgPtr m, status := ?st\<rparr>"
    using n(1) [of t] u(2) by (simp add: s2(3) set_status_def set_wait_data_def)
  ultimately show thesis
    using k n act u(2) by (intro that [of ?s' ?L]) (simp_all add: s2(3) stamped_def)
qed

section \<open>The contract of sending\<close>

lemma flag_wakes_simps [simp]:
  "flag_wakes (s\<lparr>mie := b\<rparr>) t = flag_wakes s t" "flag_wakes (put_msg q v s) t = flag_wakes s t"
  "flag_wakes (set_sender q i s) t = flag_wakes s t"
  by (simp_all add: flag_wakes_def)

lemma can_wait_context: "kinv s L \<Longrightarrow> thread_context s t \<Longrightarrow> can_wait (s\<lparr>mie := b\<rparr>) L t"
  using kinv_active(3) [of s L t] thread_contextD [of s t] by (auto simp: can_wait_def)

lemma call_frame_simps [simp]:
  "call_frame (put_msg q v s) s' = call_frame s s'" "call_frame (set_sender q i s) s' = call_frame s s'"
  "call_frame s' (put_msg q v s) = call_frame s' s" "call_frame s' (set_sender q i s) = call_frame s' s"
  "call_frame (put_msg q v s\<lparr>mie := b\<rparr>) s' = call_frame (s\<lparr>mie := b\<rparr>) s'"
  "call_frame (set_sender q i s\<lparr>mie := b\<rparr>) s' = call_frame (s\<lparr>mie := b\<rparr>) s'"
  by (simp_all add: call_frame_def runnable_def)

text \<open>
  A send from a thread may not wake a thread through its flag: \<open>queue_msg\<close> then only requests a
  switch, which is looked at when an interrupt handler ends, not when \<open>_msg_send\<close> returns.
\<close>

definition send_ctx :: "kernel \<Rightarrow> int \<Rightarrow> bool" where
  "send_ctx s p \<longleftrightarrow>
     queues_ok s \<and> 0 \<le> p \<and> p \<le> KERNEL_PID_LAST \<and>
     (in_isr s \<or> (\<exists>t. thread_context s t) \<and> (\<forall>u. sched_threads s p = Some u \<longrightarrow> \<not> flag_wakes s u))"

lemma u_msg_send_safe:
  assumes inv: "kinv s L" and prio: "prio_ok s" and ctx: "thread_context s t" and sc: "send_ctx s p"
    and other: "sched_active_pid s \<noteq> p"
  shows "\<exists>s' r L'. u_msg_send (s\<lparr>mie := False\<rparr>) m p block True = Inr (s', r) \<and>
    kinv s' L' \<and> prio_ok s' \<and> call_frame s s'"
proof (cases "sched_threads s p")
  case None
  let ?s = "set_sender m (sched_active_pid s) s"
  have "u_msg_send (s\<lparr>mie := False\<rparr>) m p block True = Inr (?s, Done (-1))"
    using None sc thread_contextD(5) [OF ctx] by (simp add: u_msg_send_def thread_entry_def send_ctx_def)
  then show ?thesis using inv prio by (intro exI [of _ ?s] exI [of _ "Done (-1)"] exI [of _ L]) simp
next
  case (Some u)
  note c = thread_contextD [OF ctx]
  let ?s = "s\<lparr>mie := False\<rparr>"
  have 0: "kinv ?s L" "sched_active_thread ?s = Some t" "sched_threads ?s p = Some u" "queues_ok ?s"
    using inv c Some sc by (simp_all add: send_ctx_def)
  have ut: "u \<noteq> t" using other active_pid [OF inv c(1)] thread_entry_valid(3) [OF inv] Some by metis
  have nw: "\<not> flag_wakes s u" using sc Some c(3) by (auto simp: send_ctx_def)
  have nr: "status (tcb s t) \<noteq> STATUS_REPLY_BLOCKED" using c(2) by auto
  consider (deliver) "status (tcb ?s u) = STATUS_RECEIVE_BLOCKED"
    | (queue) "status (tcb ?s u) \<noteq> STATUS_RECEIVE_BLOCKED" "queue_room (tcb ?s u)"
    | (full) "status (tcb ?s u) \<noteq> STATUS_RECEIVE_BLOCKED" "\<not> queue_room (tcb ?s u)" by blast
  then show ?thesis
  proof cases
    case deliver
    obtain s' where s': "u_msg_send ?s m p block True = Inr (s', if status (tcb ?s t) = STATUS_REPLY_BLOCKED then Blocked else Done 1)"
      "kinv s' (L(RunQueue (priority (tcb ?s u)) := L (RunQueue (priority (tcb ?s u))) @ [u]))" "msip s'" "mie s' = True"
      "in_isr s' = in_isr ?s" "tcb s' = (tcb ?s)(u := (tcb ?s u)\<lparr>status := STATUS_PENDING\<rparr>)"
      "sched_threads s' = sched_threads ?s" "sched_active_thread s' = Some t" "same_queues ?s s'"
      by (rule send_deliver [OF 0(1-3) ut deliver, of m block True]) (rule that)
    moreover have "call_frame s s'" by (rule call_frameI) (use s' c in auto)
    ultimately show ?thesis using prio_ok_msip by blast
  next
    case queue
    obtain s' L' where s': "u_msg_send ?s m p block True =
        (if status (tcb ?s t) = STATUS_REPLY_BLOCKED then Inr (s'\<lparr>mie := True, msip := True\<rparr>, Blocked)
         else Inr (s'\<lparr>mie := True\<rparr>, Done 1))"
      "queued (set_sender m (sched_active_pid ?s) ?s) u m s'" "queues_ok s'" "kinv s' L'"
      by (rule send_queue [OF 0(1,4,2,3) ut queue]) (rule that)
    have "prio_ok s'" and f: "call_frame ?s s'" using queued_contract [OF s'(2,3)] prio nw by simp_all
    moreover have "call_frame s (s'\<lparr>mie := True\<rparr>)" using f c(5) by (simp add: call_frame_def runnable_def)
    ultimately show ?thesis using s'(1,4) nr by (intro exI [of _ "s'\<lparr>mie := True\<rparr>"] exI [of _ "Done 1"] exI [of _ L']) simp
  next
    case full
    show ?thesis
    proof (cases block)
      case False
      let ?s' = "set_sender m (sched_active_pid s) s"
      have "queue_msg (set_sender m (sched_active_pid s) s\<lparr>mie := False\<rparr>) u m = Inr (?s'\<lparr>mie := False\<rparr>, 0)"
        using full 0 thread_entry_valid(2) [OF inv Some] by (intro queue_msg_full) simp_all
      then have "u_msg_send ?s m p block True = Inr (?s', Done 0)"
        using False full c thread_entry_valid(1) [OF inv Some]
        by (simp add: u_msg_send_def Let_def)
      then show ?thesis using inv prio by (intro exI [of _ ?s'] exI [of _ "Done 0"] exI [of _ L]) simp
    next
      case True
      obtain s' L' where s': "u_msg_send ?s m p True True = Inr (s', Blocked)" "kinv s' L'" "msip s'" "mie s' = True"
        "in_isr s' = in_isr ?s" "\<And>x. x \<noteq> t \<Longrightarrow> x \<noteq> u \<Longrightarrow> tcb s' x = tcb ?s x"
        "status (tcb s' u) = status (tcb ?s u) \<or> status (tcb s' u) = STATUS_PENDING"
        "sched_threads s' = sched_threads ?s" "sched_active_thread s' = Some t" "same_queues ?s s'"
        by (rule send_wait [OF 0(1,4,2,3) ut can_wait_context [OF inv ctx] full, of m True]) (rule that)
      have "on_runqueue (status (tcb s' x))" if "on_runqueue (status (tcb s x))" "x \<noteq> t" for x
        using that s'(6) [of x] s'(7) by (cases "x = u") auto
      then have "call_frame s s'" using s' c by (intro call_frameI) auto
      then show ?thesis using s'(1-3) True prio_ok_msip [of s'] by auto
    qed
  qed
qed

lemma msg_send_int_safe:
  assumes inv: "kinv s L" and prio: "prio_ok s" and isr: "in_isr s" and sc: "send_ctx s p"
  shows "\<exists>s' r L'. msg_send_int s m p = Inr (s', r) \<and> kinv s' L' \<and> prio_ok s' \<and> call_frame s s'"
proof (cases "sched_threads s p")
  case None
  then have "msg_send_int s m p = Inr (s, -1)" using sc by (simp add: msg_send_int_def thread_entry_def send_ctx_def)
  then show ?thesis using inv prio by auto
next
  case (Some u)
  note e = thread_entry_valid [OF inv Some]
  let ?s = "set_sender m KERNEL_PID_ISR s"
  have 0: "kinv ?s L" "queues_ok ?s" "live ?s u" "prio_ok ?s" using inv sc e(2) prio by (simp_all add: send_ctx_def)
  have act: "sched_active_thread ?s \<noteq> Some u \<or> switch_pending ?s" if "\<not> on_runqueue (status (tcb s u))"
    using prio_ok_blocked [OF prio that] by simp
  show ?thesis
  proof (cases "status (tcb s u) = STATUS_RECEIVE_BLOCKED")
    case True
    then have st: "status (tcb ?s u) \<in> {STATUS_RECEIVE_BLOCKED, STATUS_REPLY_BLOCKED}"
      and act': "sched_active_thread ?s \<noteq> Some u \<or> switch_pending ?s" using act by simp_all
    let ?L = "L(RunQueue (priority (tcb ?s u)) := L (RunQueue (priority (tcb ?s u))) @ [u])"
    obtain q s1 h b where d: "wait_data (tcb ?s u) = MsgPtr q"
      "sched_set_status (put_msg q (msgs ?s m) ?s) u STATUS_PENDING = Inr s1"
      "s1 = upd_thread u (set_status STATUS_PENDING) ((put_msg q (msgs ?s m) ?s)\<lparr>links := h, runqueue_bitcache := b\<rparr>)"
      "kinv s1 ?L"
      by (rule deliver [OF 0(1,3) st receive_blocked_free [OF inv True] act']) (rule that)
    let ?s' = "s1\<lparr>sched_context_switch_request := True\<rparr>"
    have "msg_send_int s m p = Inr (?s', 1)" using e(1) True d(1,2) by (simp add: msg_send_int_def)
    moreover have "kinv ?s' ?L" by (rule kinv_request [OF d(4)])
    moreover have "prio_ok ?s'" using isr by (simp add: prio_ok_def switch_pending_def d(3))
    moreover have "call_frame s ?s'" by (rule call_frameI) (auto simp: d(3))
    ultimately show ?thesis by blast
  next
    case False
    then have e': "msg_send_int s m p = queue_msg ?s u m" using e(1) by (simp add: msg_send_int_def)
    show ?thesis
    proof (cases "queue_room (tcb ?s u)")
      case True
      have fw: "flag_wakes ?s u \<Longrightarrow> sched_active_thread ?s \<noteq> Some u \<or> switch_pending ?s"
        using act flag_wakes_free(2) [OF inv, of u] by simp
      let ?L = "if flag_wakes ?s u then L(RunQueue (priority (tcb ?s u)) := L (RunQueue (priority (tcb ?s u))) @ [u]) else L"
      obtain s' where s': "queue_msg ?s u m = Inr (s', 1)" "queued ?s u m s'" "queues_ok s'" "kinv s' ?L"
        by (rule queue_msg_room [OF 0(1-3) True fw], assumption) (rule that)
      then show ?thesis using queued_contract [OF s'(2,3) 0(4)] isr e' by auto
    next
      case False
      then show ?thesis using queue_msg_full [OF 0(2,3) False] e' 0(1,4)
        by (intro exI [of _ ?s] exI [of _ 0] exI [of _ L]) simp
    qed
  qed
qed

lemma mie_back: "mie s \<Longrightarrow> s\<lparr>mie := True\<rparr> = s"
  by simp

lemma msg_send_to_self_safe:
  assumes inv: "kinv s L" and prio: "prio_ok s" and ctx: "thread_context s t" and q: "queues_ok s"
  shows "\<exists>s' r. msg_send_to_self s m = Inr (s', r) \<and> kinv s' L \<and> prio_ok s' \<and> call_frame s s' \<and>
    (if queue_room (tcb s t) then r = 1 \<and> queued (set_sender m (sched_active_pid s) s\<lparr>mie := False\<rparr>) t m (s'\<lparr>mie := False\<rparr>)
     else r = 0 \<and> s' = set_sender m (sched_active_pid s) s)"
proof -
  note c = thread_contextD [OF ctx]
  let ?s = "set_sender m (sched_active_pid s) s\<lparr>mie := False\<rparr>"
  have 0: "kinv ?s L" "queues_ok ?s" "live ?s t" "prio_ok ?s" and fw: "\<not> flag_wakes ?s t"
    using inv q kinv_active(1) [OF inv c(1)] prio flag_wakes_free(2) [OF inv, of t] c(2) by auto
  show ?thesis
  proof (cases "queue_room (tcb ?s t)")
    case True
    obtain s' where s': "queue_msg ?s t m = Inr (s', 1)" "queued ?s t m s'" "queues_ok s'" "kinv s' L"
      by (rule queue_msg_room [OF 0(1-3) True, of m, unfolded if_not_P [OF fw]]) (use fw in simp, rule that)
    have k: "call_frame ?s s'" "prio_ok s'" using queued_contract [OF s'(2,3) 0(4)] fw by auto
    have "s'\<lparr>mie := False\<rparr> = s'" using queuedD(7) [OF s'(2)] by simp
    moreover have "call_frame s (s'\<lparr>mie := True\<rparr>)" using k(1) c(5) by (simp add: call_frame_def runnable_def)
    moreover have "msg_send_to_self s m = Inr (s'\<lparr>mie := True\<rparr>, 1)"
      using s'(1) c by (simp add: msg_send_to_self_def irq_disable_def)
    ultimately show ?thesis using s' k True by (intro exI [of _ "s'\<lparr>mie := True\<rparr>"] exI [of _ 1]) simp
  next
    case False
    then show ?thesis using queue_msg_full [OF 0(2,3) False] inv prio c
      by (simp add: msg_send_to_self_def irq_disable_def mie_back)
  qed
qed

lemma finished_safe:
  "\<exists>s' r L'. call = Inr (s', r) \<and> kinv s' L' \<and> prio_ok s' \<and> call_frame s s' \<Longrightarrow>
   \<exists>s' r L'. finished call = Inr (s', r) \<and> kinv s' L' \<and> prio_ok s' \<and> call_frame s s'"
  by (auto simp: finished_def)

lemma msg_send_safe:
  assumes inv: "kinv s L" and prio: "prio_ok s" and sc: "send_ctx s p"
  shows "\<exists>s' r L'. (if irq_is_in s then finished (msg_send_int s m p)
      else if sched_active_pid s = p then finished (msg_send_to_self s m)
      else let (s, state) = irq_disable s in u_msg_send s m p block state) = Inr (s', r) \<and>
    kinv s' L' \<and> prio_ok s' \<and> call_frame s s'"
proof (cases "in_isr s")
  case True
  then show ?thesis
    using finished_safe [OF msg_send_int_safe [OF inv prio True sc]] by (simp add: irq_is_in_def)
next
  case False
  with sc obtain t where t: "thread_context s t" and q: "queues_ok s" by (auto simp: send_ctx_def)
  show ?thesis
  proof (cases "sched_active_pid s = p")
    case True
    have "\<exists>s' r L'. msg_send_to_self s m = Inr (s', r) \<and> kinv s' L' \<and> prio_ok s' \<and> call_frame s s'"
      using msg_send_to_self_safe [OF inv prio t q] by blast
    then show ?thesis using finished_safe [of "msg_send_to_self s m" s] False True by (simp add: irq_is_in_def)
  next
    case other: False
    then show ?thesis
      using u_msg_send_safe [OF inv prio t sc other, of m block] False thread_contextD(5) [OF t]
      by (simp add: irq_is_in_def irq_disable_def)
  qed
qed

interpretation msg_send: kernel_call "\<lambda>s L. send_ctx s p" "\<lambda>s. msg_send s m p" for m p
  by unfold_locales (unfold msg_send_def, rule msg_send_safe)

interpretation msg_try_send: kernel_call "\<lambda>s L. send_ctx s p" "\<lambda>s. msg_try_send s m p" for m p
  by unfold_locales (unfold msg_try_send_def, rule msg_send_safe)

section \<open>Request and reply\<close>

lemma set_wait_data_commutes:
  "sched_set_status (upd_thread u (set_wait_data d) s) t st =
     bindE (sched_set_status s t st) (\<lambda>s. Inr (upd_thread u (set_wait_data d) s))"
  by (rule sched_set_status_upd) (simp_all add: set_wait_data_def)

text \<open>
  The caller is \<open>STATUS_REPLY_BLOCKED\<close> and off its run queue before the message is sent: the state
  \<open>_msg_send\<close> is called in.
\<close>

lemma request_prepares:
  assumes inv: "kinv s L" and ctx: "thread_context s t" and q: "queues_ok s"
  obtains s1 s2 L1 where "sched_set_status (s\<lparr>mie := False\<rparr>) t STATUS_REPLY_BLOCKED = Inr s1"
    and "s2 = put_msg reply v (upd_thread t (set_wait_data (MsgPtr reply)) s1)" and "kinv s2 L1" and "\<And>l. t \<notin> set (L1 l)"
    and "tcb s2 = (tcb s)(t := (tcb s t)\<lparr>wait_data := MsgPtr reply, status := STATUS_REPLY_BLOCKED\<rparr>)"
    and "sched_threads s2 = sched_threads s" and "sched_active_thread s2 = Some t" and "sched_active_pid s2 = sched_active_pid s"
    and "in_isr s2 = in_isr s" and "same_queues s s2" and "msgs s2 = (msgs s)(reply := v)"
    and "\<And>l. \<not> is_runqueue l \<Longrightarrow> L1 l = L l" and "msgs s1 = msgs s" and "queues_ok s2"
proof -
  note c = thread_contextD [OF ctx]
  let ?s = "upd_thread t (set_wait_data (MsgPtr reply)) s"
  let ?L = "L(RunQueue (priority (tcb ?s t)) := tl (L (RunQueue (priority (tcb ?s t)))))"
  have "kinv ?s L" by (rule kinv_upd_wait_data [OF inv c(2)]) simp
  moreover have "thread_context ?s t" using ctx by (auto simp: thread_context_def)
  moreover have "\<not> on_runqueue STATUS_REPLY_BLOCKED" "data_fits STATUS_REPLY_BLOCKED (wait_data (tcb ?s t))" by simp_all
  ultimately obtain s2 h b where s2: "sched_set_status (?s\<lparr>mie := False\<rparr>) t STATUS_REPLY_BLOCKED = Inr s2"
    "s2 = upd_thread t (set_status STATUS_REPLY_BLOCKED) (?s\<lparr>mie := False, links := h, runqueue_bitcache := b\<rparr>)"
    "kinv s2 ?L" "\<And>l. t \<notin> set (?L l)"
    by (rule block_active) (rule that)
  from s2(1) obtain s1 where s1: "sched_set_status (s\<lparr>mie := False\<rparr>) t STATUS_REPLY_BLOCKED = Inr s1"
    "s2 = upd_thread t (set_wait_data (MsgPtr reply)) s1"
    unfolding upd_thread_irq(1) [symmetric] set_wait_data_commutes by (auto simp: bindE_eq_Inr)
  have "msgs s1 = msgs s" using arg_cong [OF s1(2), of msgs] by (simp add: s2(2))
  moreover have "queues_ok (put_msg reply v s2)" using q by (simp add: s2(2))
  ultimately show thesis
    using s2(3,4) c by (intro that [OF s1(1), of "put_msg reply v s2" ?L]; (simp only: s1(2) [symmetric])?)
      (simp_all add: s2(2) set_status_def set_wait_data_def)
qed

lemma msg_send_receive_blocks:
  assumes inv: "kinv s L" and q: "queues_ok s" and ctx: "thread_context s t"
    and u: "sched_threads s p = Some u" "u \<noteq> t"
  obtains s' L' where "msg_send_receive s m reply p = Inr (s', Blocked)" and "kinv s' L'" and "msip s'" and "call_frame s s'"
    and "tcb s' t = (tcb s t)\<lparr>wait_data := MsgPtr reply, status := STATUS_REPLY_BLOCKED\<rparr>"
    and "\<And>q. status (tcb s u) = STATUS_RECEIVE_BLOCKED \<Longrightarrow> wait_data (tcb s u) = MsgPtr q \<Longrightarrow>
      msgs s' q = stamped s m \<and> tcb s' u = (tcb s u)\<lparr>status := STATUS_PENDING\<rparr> \<and> (\<forall>l. t \<notin> set (L' l))"
proof -
  note c = thread_contextD [OF ctx]
  let ?rb = STATUS_REPLY_BLOCKED
  obtain s1 s2 L1 where s1: "sched_set_status (s\<lparr>mie := False\<rparr>) t ?rb = Inr s1"
    "s2 = put_msg reply (msgs s m) (upd_thread t (set_wait_data (MsgPtr reply)) s1)" "kinv s2 L1" "\<And>l. t \<notin> set (L1 l)"
    "tcb s2 = (tcb s)(t := (tcb s t)\<lparr>wait_data := MsgPtr reply, status := ?rb\<rparr>)"
    "sched_threads s2 = sched_threads s" "sched_active_thread s2 = Some t" "sched_active_pid s2 = sched_active_pid s"
    "in_isr s2 = in_isr s" "same_queues s s2" "msgs s2 = (msgs s)(reply := msgs s m)"
    "\<And>l. \<not> is_runqueue l \<Longrightarrow> L1 l = L l" "msgs s1 = msgs s" "queues_ok s2"
    by (rule request_prepares [OF inv ctx q]) (rule that)
  have pid: "sched_active_pid s \<noteq> p" using active_pid [OF inv c(1)] u by auto
  have e: "msg_send_receive s m reply p = u_msg_send s2 reply p True True"
    using pid c s1(1) thread_entry_valid(1) [OF inv active_pid [OF inv c(1)]]
    by (simp add: msg_send_receive_def irq_disable_def thread_at_def s1(2,13))
  have 0: "sched_threads s2 p = Some u" "status (tcb s2 t) = ?rb" "tcb s2 u = tcb s u" using u s1(5,6) by simp_all
  have stm: "stamped s2 reply = stamped s m" using s1(8,11) by (simp add: stamped_def)
  have frame: "call_frame s s'" if "in_isr s' = in_isr s2" "mie s'" "sched_active_thread s' = Some t"
    "sched_threads s' = sched_threads s2" "queues_ok s'"
    "\<And>x. x \<noteq> t \<Longrightarrow> on_runqueue (status (tcb s x)) \<Longrightarrow> on_runqueue (status (tcb s' x))" for s'
    by (rule call_frameI_queues) (use that c s1(6,9) in auto)
  have live: "live s' x = live s x" if "sched_threads s' = sched_threads s2" for s' x
    using that s1(6) by (simp add: live_def)
  consider (deliver) "status (tcb s2 u) = STATUS_RECEIVE_BLOCKED"
    | (queue) "status (tcb s2 u) \<noteq> STATUS_RECEIVE_BLOCKED" "queue_room (tcb s2 u)"
    | (full) "status (tcb s2 u) \<noteq> STATUS_RECEIVE_BLOCKED" "\<not> queue_room (tcb s2 u)" by blast
  then show thesis
  proof cases
    case deliver
    let ?L = "L1(RunQueue (priority (tcb s2 u)) := L1 (RunQueue (priority (tcb s2 u))) @ [u])"
    obtain q s' where s': "wait_data (tcb s2 u) = MsgPtr q"
      "u_msg_send s2 reply p True True = Inr (s', if status (tcb s2 t) = ?rb then Blocked else Done 1)"
      "kinv s' ?L" "msip s'" "mie s' = True" "in_isr s' = in_isr s2"
      "msgs s' = (msgs s2)(reply := stamped s2 reply, q := stamped s2 reply)"
      "tcb s' = (tcb s2)(u := (tcb s2 u)\<lparr>status := STATUS_PENDING\<rparr>)"
      "sched_threads s' = sched_threads s2" "sched_active_thread s' = Some t" "same_queues s2 s'"
      by (rule send_deliver [OF s1(3,7) 0(1) u(2) deliver]) (rule that)
    have "queues_ok s'" by (rule queues_ok_cong [OF s1(14) s'(11)]) (simp add: live_def s'(9))
    then have "call_frame s s'" using s'(5,6,8-10) s1(5) u(2) by (intro frame) auto
    then show thesis
      using s' e 0 s1(4,5) u(2) by (intro that [of s' ?L]) (auto simp: stm)
  next
    case queue
    obtain s' L' where s': "u_msg_send s2 reply p True True =
        (if status (tcb s2 t) = ?rb then Inr (s'\<lparr>mie := True, msip := True\<rparr>, Blocked) else Inr (s'\<lparr>mie := True\<rparr>, Done 1))"
      "queued (set_sender reply (sched_active_pid s2) s2) u reply s'" "queues_ok s'" "kinv s' L'"
      by (rule send_queue [OF s1(3,14,7) 0(1) u(2) queue]) (rule that)
    note n = queuedD [OF s'(2)]
    have "on_runqueue (status (tcb s' x))" if "x \<noteq> t" "on_runqueue (status (tcb s x))" for x
      using that n(1) [of x] n(3) s1(5) by (cases "x = u") auto
    then have "call_frame s (s'\<lparr>mie := True, msip := True\<rparr>)"
      using n(4,5,8) s'(3) s1(7) by (intro frame) auto
    moreover have "kinv (s'\<lparr>mie := True, msip := True\<rparr>) L'" using s'(4) by (intro kinv_yield) simp
    moreover have "tcb s' t = tcb s2 t" using n(1) [of t] u(2) by simp
    ultimately show thesis
      using s'(1) e 0 s1(5) queue(1) by (intro that [of "s'\<lparr>mie := True, msip := True\<rparr>" L']) simp_all
  next
    case full
    have w: "can_wait s2 L1 t" using s1(4,5) by (simp add: can_wait_def)
    obtain s' L' where s': "u_msg_send s2 reply p True True = Inr (s', Blocked)" "kinv s' L'" "msip s'" "mie s' = True"
      "in_isr s' = in_isr s2" "tcb s' t = (tcb s2 t)\<lparr>wait_data := MsgPtr reply, status := wait_status (status (tcb s2 t))\<rparr>"
      "\<And>x. x \<noteq> t \<Longrightarrow> x \<noteq> u \<Longrightarrow> tcb s' x = tcb s2 x"
      "status (tcb s' u) = status (tcb s2 u) \<or> status (tcb s' u) = STATUS_PENDING"
      "sched_threads s' = sched_threads s2" "sched_active_thread s' = Some t" "same_queues s2 s'"
      by (rule send_wait [OF s1(3,14,7) 0(1) u(2) w full]) (rule that)
    have "on_runqueue (status (tcb s' x))" if "x \<noteq> t" "on_runqueue (status (tcb s x))" for x
      using that s'(7) [of x] s'(8) s1(5) by (cases "x = u") auto
    moreover have "queues_ok s'" by (rule queues_ok_cong [OF s1(14) s'(11)]) (simp add: live_def s'(9))
    ultimately have "call_frame s s'" using s' by (intro frame) auto
    then show thesis
      using s' e 0 s1(5) full(1) by (intro that [of s' L']) (simp_all add: wait_status_def)
  qed
qed

lemma msg_reply_wakes:
  assumes inv: "kinv s L" and prio: "prio_ok s" and act: "sched_active_thread s = Some a"
    and u: "sched_threads s (sender_pid (msgs s m)) = Some u" and st: "status (tcb s u) = STATUS_REPLY_BLOCKED"
    and free: "\<And>l. u \<notin> set (L l)"
  obtains q s' L' where "wait_data (tcb s u) = MsgPtr q" and "msg_reply s m reply = Inr (s', 1)" and "kinv s' L'"
    and "prio_ok s'" and "call_frame s s'" and "msgs s' = (msgs s)(q := msgs s reply)"
    and "tcb s' = (tcb s)(u := (tcb s u)\<lparr>status := STATUS_PENDING\<rparr>)"
proof -
  let ?s = "s\<lparr>mie := False\<rparr>" and ?p = "priority (tcb s u)"
  note e = thread_entry_valid [OF inv u]
  have "is_msg (wait_data (tcb s u))" using kinv_data [OF inv e(2)] st by simp
  then obtain q where q: "wait_data (tcb s u) = MsgPtr q" by (cases "wait_data (tcb s u)") auto
  let ?s1 = "put_msg q (msgs s reply) ?s"
  have *: "kinv ?s1 L" "prio_ok ?s1" "live ?s1 u" "\<not> on_runqueue (status (tcb ?s1 u))" "on_runqueue STATUS_PENDING"
    "sched_active_thread ?s1 = Some a" "a \<noteq> u \<or> switch_pending ?s1" "?p \<le> priority (tcb ?s1 u)" "priority (tcb ?s1 u) = ?p"
    using inv prio e(2) st act prio_ok_blocked [OF prio, of u] by auto
  let ?L = "L(RunQueue ?p := L (RunQueue ?p) @ [u])"
  obtain s1 s2 h b where w: "sched_set_status ?s1 u STATUS_PENDING = Inr s1"
    "s1 = upd_thread u (set_status STATUS_PENDING) (?s1\<lparr>links := h, runqueue_bitcache := b\<rparr>)"
    "sched_switch (s1\<lparr>mie := mie s\<rparr>) ?p = Inr s2" "kinv s2 ?L" "prio_ok s2" "only_requests (s1\<lparr>mie := mie s\<rparr>) s2"
    by (rule wake_switch [OF *(1-5) free *(6-8), of "mie s", unfolded *(9)]) (rule that)
  have e': "msg_reply s m reply = Inr (s2, 1)"
    using e(1) st q w(1,3) by (simp add: msg_reply_def irq_disable_def Let_def) (simp add: w(2))
  have t: "tcb s2 = (tcb s)(u := (tcb s u)\<lparr>status := STATUS_PENDING\<rparr>)" and m: "msgs s2 = (msgs s)(q := msgs s reply)"
    using w(6) by (auto simp: only_requests_def w(2) set_status_def)
  moreover have "call_frame s s2" using w(6) by (intro call_frameI) (auto simp: only_requests_def w(2))
  ultimately show thesis using q e' w(4,5) by (intro that)
qed

lemma msg_reply_int_wakes:
  assumes inv: "kinv s L" and prio: "prio_ok s" and isr: "in_isr s"
    and u: "sched_threads s (sender_pid (msgs s m)) = Some u" and st: "status (tcb s u) = STATUS_REPLY_BLOCKED"
    and free: "\<And>l. u \<notin> set (L l)"
  obtains q s' L' where "wait_data (tcb s u) = MsgPtr q" and "msg_reply_int s m reply = Inr (s', 1)" and "kinv s' L'"
    and "prio_ok s'" and "call_frame s s'" and "msgs s' = (msgs s)(q := msgs s reply)"
    and "tcb s' = (tcb s)(u := (tcb s u)\<lparr>status := STATUS_PENDING\<rparr>)"
proof -
  note e = thread_entry_valid [OF inv u]
  have st': "status (tcb s u) \<in> {STATUS_RECEIVE_BLOCKED, STATUS_REPLY_BLOCKED}"
    and act: "sched_active_thread s \<noteq> Some u \<or> switch_pending s"
    using st prio_ok_blocked [OF prio, of u] by simp_all
  let ?L = "L(RunQueue (priority (tcb s u)) := L (RunQueue (priority (tcb s u))) @ [u])"
  obtain q s1 h b where d: "wait_data (tcb s u) = MsgPtr q"
    "sched_set_status (put_msg q (msgs s reply) s) u STATUS_PENDING = Inr s1"
    "s1 = upd_thread u (set_status STATUS_PENDING) ((put_msg q (msgs s reply) s)\<lparr>links := h, runqueue_bitcache := b\<rparr>)"
    "kinv s1 ?L"
    by (rule deliver [OF inv e(2) st' free act]) (rule that)
  let ?s' = "s1\<lparr>sched_context_switch_request := True\<rparr>"
  have "msg_reply_int s m reply = Inr (?s', 1)"
    using e(1) st d(1,2) by (simp add: msg_reply_int_def thread_at_def)
  moreover have "prio_ok ?s'" using isr by (simp add: prio_ok_def switch_pending_def d(3))
  moreover have "call_frame s ?s'" by (rule call_frameI) (auto simp: d(3))
  moreover have "kinv ?s' ?L" by (rule kinv_request [OF d(4)])
  ultimately show thesis using d(1) by (intro that [of q ?s' ?L]) (simp_all add: d(3) set_status_def)
qed

text \<open>
  A reply goes to a thread that is \<open>STATUS_REPLY_BLOCKED\<close> and in no list: one whose request was
  received. \<open>msg_reply\<close> does not check the second part.
\<close>

definition reply_ctx :: "kernel \<Rightarrow> layout \<Rightarrow> maddr \<Rightarrow> bool" where
  "reply_ctx s L m \<longleftrightarrow>
     (\<exists>u. sched_threads s (sender_pid (msgs s m)) = Some u \<and>
        (status (tcb s u) = STATUS_REPLY_BLOCKED \<longrightarrow> (\<forall>l. u \<notin> set (L l))))"

interpretation msg_reply: kernel_call
  "\<lambda>s L. sched_active_thread s \<noteq> None \<and> reply_ctx s L m" "\<lambda>s. msg_reply s m reply" for m reply
proof unfold_locales
  fix s L
  assume inv: "kinv s L" and prio: "prio_ok s" and ctx: "sched_active_thread s \<noteq> None \<and> reply_ctx s L m"
  then obtain a u where a: "sched_active_thread s = Some a" and u: "sched_threads s (sender_pid (msgs s m)) = Some u"
    and free: "status (tcb s u) = STATUS_REPLY_BLOCKED \<longrightarrow> (\<forall>l. u \<notin> set (L l))" by (auto simp: reply_ctx_def)
  show "\<exists>s' r L'. msg_reply s m reply = Inr (s', r) \<and> kinv s' L' \<and> prio_ok s' \<and> call_frame s s'"
  proof (cases "status (tcb s u) = STATUS_REPLY_BLOCKED")
    case True
    with free have free: "\<And>l. u \<notin> set (L l)" by blast
    obtain s' L' where "msg_reply s m reply = Inr (s', 1)" "kinv s' L'" "prio_ok s'" "call_frame s s'"
      by (rule msg_reply_wakes [OF inv prio a u True free]) (rule that)
    then show ?thesis by blast
  next
    case False
    then have "msg_reply s m reply = Inr (s, -1)"
      using thread_entry_valid(1) [OF inv u] by (simp add: msg_reply_def irq_disable_def)
    then show ?thesis using inv prio by auto
  qed
qed

interpretation msg_reply_int: kernel_call "\<lambda>s L. in_isr s \<and> reply_ctx s L m" "\<lambda>s. msg_reply_int s m reply" for m reply
proof unfold_locales
  fix s L
  assume inv: "kinv s L" and prio: "prio_ok s" and ctx: "in_isr s \<and> reply_ctx s L m"
  then obtain u where a: "in_isr s" and u: "sched_threads s (sender_pid (msgs s m)) = Some u"
    and free: "status (tcb s u) = STATUS_REPLY_BLOCKED \<longrightarrow> (\<forall>l. u \<notin> set (L l))" by (auto simp: reply_ctx_def)
  show "\<exists>s' r L'. msg_reply_int s m reply = Inr (s', r) \<and> kinv s' L' \<and> prio_ok s' \<and> call_frame s s'"
  proof (cases "status (tcb s u) = STATUS_REPLY_BLOCKED")
    case True
    with free have free: "\<And>l. u \<notin> set (L l)" by blast
    obtain s' L' where "msg_reply_int s m reply = Inr (s', 1)" "kinv s' L'" "prio_ok s'" "call_frame s s'"
      by (rule msg_reply_int_wakes [OF inv prio a u True free]) (rule that)
    then show ?thesis by blast
  next
    case False
    then have "msg_reply_int s m reply = Inr (s, -1)"
      using thread_entry_valid(1) [OF inv u] by (simp add: msg_reply_int_def thread_at_def)
    then show ?thesis using inv prio by auto
  qed
qed

interpretation msg_send_receive: kernel_call
  "\<lambda>s L. queues_ok s \<and> p \<noteq> sched_active_pid s \<and> (\<exists>t u. thread_context s t \<and> sched_threads s p = Some u)"
  "\<lambda>s. msg_send_receive s m reply p" for m reply p
proof unfold_locales
  fix s L
  assume inv: "kinv s L" and ctx: "queues_ok s \<and> p \<noteq> sched_active_pid s \<and>
      (\<exists>t u. thread_context s t \<and> sched_threads s p = Some u)"
  then obtain t u where q: "queues_ok s" and t: "thread_context s t" and u: "sched_threads s p = Some u" by blast
  have "u \<noteq> t" using ctx active_pid [OF inv thread_contextD(1) [OF t]] thread_entry_valid(3) [OF inv] u by metis
  then obtain s' L' where "msg_send_receive s m reply p = Inr (s', Blocked)" "kinv s' L'" "msip s'" "call_frame s s'"
    by (rule msg_send_receive_blocks [OF inv q t u]) (rule that)
  then show "\<exists>s' r L'. msg_send_receive s m reply p = Inr (s', r) \<and> kinv s' L' \<and> prio_ok s' \<and> call_frame s s'"
    using prio_ok_msip by blast
qed

end
