(* ===== verification/Msg_Receive.thy ===== *)
theory Msg_Receive
  imports Msg
begin

text \<open>
  Receiving messages (\<open>_msg_receive\<close> of \<open>core/msg.c\<close>) and the properties of sending and receiving
  together: messages arrive in the order they were accepted, none is lost or duplicated, and a
  request gets its reply.
\<close>

lemma queue_msgs_cong:
  "msg_queue (tcb s' t) = msg_queue (tcb s t) \<Longrightarrow> msg_array (tcb s' t) = msg_array (tcb s t) \<Longrightarrow>
     msgs s' = msgs s \<Longrightarrow> queue_msgs s' t = queue_msgs s t"
  by (simp only: queue_msgs_def)

section \<open>Taking a message from the queue\<close>

lemma receive_index_empty:
  assumes "queues_ok s" and "live s t" and "queue_msgs s t = []"
  shows "receive_index s t = (s, -1)"
proof (cases "msg_array (tcb s t)")
  case None
  then show ?thesis by (simp add: receive_index_def thread_has_msg_queue_def)
next
  case (Some arr)
  then have "cib_slots (msg_queue (tcb s t)) = []" using assms(3) by (simp add: queue_msgs_def)
  then have "cib_get (msg_queue (tcb s t)) = (msg_queue (tcb s t), -1)"
    by (rule cib.get_empty [OF queues_okD(1) [OF assms(1,2)]])
  then show ?thesis by (simp add: receive_index_def upd_thread_def set_queue_def)
qed

lemma receive_index_first:
  assumes "queues_ok s" and "live s t" and "queue_msgs s t = v # vs"
  obtains arr q i where "msg_array (tcb s t) = Some arr" and "receive_index s t = (upd_thread t (set_queue q) s, int i)"
    and "msgs s (arr, int i) = v" and "cib_slots (msg_queue (tcb s t)) = i # cib_slots q"
    and "cib_inv q" and "cib_size q = cib_size (msg_queue (tcb s t))"
    and "vs = map (\<lambda>i. msgs s (arr, int i)) (cib_slots q)"
proof -
  from assms(3) obtain arr where arr: "msg_array (tcb s t) = Some arr" by (auto simp: queue_msgs_def split: option.splits)
  with assms(3) obtain i js where sl: "cib_slots (msg_queue (tcb s t)) = i # js" "msgs s (arr, int i) = v"
    "vs = map (\<lambda>i. msgs s (arr, int i)) js" by (auto simp: queue_msgs_def)
  from cib.get_ok [OF queues_okD(1) [OF assms(1,2)] sl(1)] obtain q where
    "cib_get (msg_queue (tcb s t)) = (q, int i)" "cib_slots q = js" "cib_size q = cib_size (msg_queue (tcb s t))" "cib_inv q"
    by blast
  then show thesis using arr sl by (intro that [of arr q i]) (simp_all add: receive_index_def thread_has_msg_queue_def)
qed

section \<open>Waking a thread that waits to send\<close>

text \<open>
  The end of \<open>_msg_receive\<close> when a thread waited: a plain sender becomes runnable, one that waits
  for a reply stays blocked.
\<close>

lemma sender_released:
  assumes inv: "kinv s L" and prio: "prio_ok s" and act: "sched_active_thread s = Some t" "on_runqueue (status (tcb s t))"
    and w: "live s w" "status (tcb s w) = STATUS_SEND_BLOCKED" and free: "\<And>l. w \<notin> set (L l)"
  obtains s1 s' L' where "sched_set_status (upd_thread w (set_wait_data NoData) s) w STATUS_PENDING = Inr s1"
    and "priority (tcb s1 w) = priority (tcb s w)"
    and "(if priority (tcb s w) < THREAD_PRIORITY_IDLE then sched_switch (s1\<lparr>mie := b\<rparr>) (priority (tcb s w))
          else Inr (s1\<lparr>mie := b\<rparr>)) = Inr s'"
    and "kinv s' L'" and "prio_ok s'" and "tcb s' = (tcb s)(w := (tcb s w)\<lparr>wait_data := NoData, status := STATUS_PENDING\<rparr>)"
    and "msgs s' = msgs s" and "mie s' = b" and "in_isr s' = in_isr s" and "sched_threads s' = sched_threads s"
    and "sched_active_thread s' = Some t" and "mboxes s' = mboxes s"
    and "\<And>l. \<not> is_runqueue l \<Longrightarrow> L' l = L l"
proof -
  have wt: "w \<noteq> t" using act w(2) by auto
  let ?p = "priority (tcb s w)"
  let ?L = "L(RunQueue ?p := L (RunQueue ?p) @ [w])"
  have off: "\<not> on_runqueue (status (tcb s w))" "on_runqueue STATUS_PENDING" "sched_active_thread s \<noteq> Some w \<or> switch_pending s"
    using w(2) act wt by simp_all
  obtain s1 h c where s1: "sched_set_status s w STATUS_PENDING = Inr s1"
    "s1 = upd_thread w (set_status STATUS_PENDING) (s\<lparr>links := h, runqueue_bitcache := c\<rparr>)" "kinv s1 ?L"
    by (rule sched_set_status_wake [OF inv w(1) off(1,2) free off(3)]) (rule that)
  let ?s1 = "upd_thread w (set_wait_data NoData) s1"
  have e: "sched_set_status (upd_thread w (set_wait_data NoData) s) w STATUS_PENDING = Inr ?s1"
    by (simp add: set_wait_data_commutes s1(1))
  have k1: "kinv ?s1 ?L" by (rule kinv_upd_wait_data [OF s1(3)]) (simp_all add: s1(2))
  have but: "prio_ok_but ?s1 {w}"
    by (rule prio_ok_but_wake [OF prio_ok_but_empty [OF prio]]) (simp_all add: s1(2))
  have 2: "kinv (?s1\<lparr>mie := b\<rparr>) ?L" "sched_active_thread (?s1\<lparr>mie := b\<rparr>) = Some t" "prio_ok_but (?s1\<lparr>mie := b\<rparr>) {w}"
    "\<forall>v \<in> {w}. ?p \<le> priority (tcb (?s1\<lparr>mie := b\<rparr>) v)"
    using k1 act but by (simp_all add: s1(2))
  obtain s' where s': "(if ?p < THREAD_PRIORITY_IDLE then sched_switch (?s1\<lparr>mie := b\<rparr>) ?p else Inr (?s1\<lparr>mie := b\<rparr>)) = Inr s'"
    "kinv s' ?L" "prio_ok s'" "only_requests (?s1\<lparr>mie := b\<rparr>) s'"
  proof (cases "?p < THREAD_PRIORITY_IDLE")
    case True
    obtain s' where "sched_switch (?s1\<lparr>mie := b\<rparr>) ?p = Inr s'" "kinv s' ?L" "prio_ok s'" "only_requests (?s1\<lparr>mie := b\<rparr>) s'"
      by (rule sched_switch_prio_ok [OF 2]) (rule that)
    then show thesis using True by (intro that) simp_all
  next
    case False
    have "priority (tcb s t) < SCHED_PRIO_LEVELS" using kinv_priority [OF inv kinv_active(1) [OF inv act(1)]] .
    then have "priority (tcb s t) \<le> ?p" using False by (simp add: kernel_consts)
    then have "prio_ok (?s1\<lparr>mie := b\<rparr>)"
      using 2(3) act wt kinv_active(1) [OF inv act(1)]
      by (auto simp: prio_ok_def prio_ok_but_def runnable_def s1(2))
    then show thesis using False 2(1) by (intro that [of "?s1\<lparr>mie := b\<rparr>"]) (simp_all add: only_requests_def)
  qed
  show thesis
    by (rule that [OF e _ s'(1-3)])
      (use s'(4) act in \<open>auto simp: only_requests_def s1(2) set_status_def set_wait_data_def fun_eq_iff\<close>)
qed

section \<open>Receiving\<close>

text \<open>
  What the steps of \<open>_msg_receive\<close> leave alone: everything but the caller's queue and
  \<open>wait_data\<close>, the message objects, and the links.
\<close>

definition same_context :: "kernel \<Rightarrow> tid \<Rightarrow> kernel \<Rightarrow> bool" where
  "same_context s t s' \<longleftrightarrow>
     (\<forall>u. u \<noteq> t \<longrightarrow> tcb s' u = tcb s u) \<and> status (tcb s' t) = status (tcb s t) \<and>
     priority (tcb s' t) = priority (tcb s t) \<and> pid (tcb s' t) = pid (tcb s t) \<and> flags (tcb s' t) = flags (tcb s t) \<and>
     msg_array (tcb s' t) = msg_array (tcb s t) \<and> links s' = links s \<and>
     sched_threads s' = sched_threads s \<and> sched_active_thread s' = sched_active_thread s \<and>
     sched_active_pid s' = sched_active_pid s \<and> in_isr s' = in_isr s \<and> msip s' = msip s \<and> mboxes s' = mboxes s \<and>
     sched_context_switch_request s' = sched_context_switch_request s"

lemma same_contextD:
  assumes "same_context s t s'"
  shows "\<And>u. u \<noteq> t \<Longrightarrow> tcb s' u = tcb s u"
    and "\<And>u. status (tcb s' u) = status (tcb s u) \<and> priority (tcb s' u) = priority (tcb s u)"
    and "msg_array (tcb s' t) = msg_array (tcb s t)" and "links s' = links s" and "\<And>u. live s' u = live s u"
    and "\<And>u. runnable s' u = runnable s u" and "sched_threads s' = sched_threads s"
    and "sched_active_thread s' = sched_active_thread s" and "sched_active_pid s' = sched_active_pid s"
    and "in_isr s' = in_isr s" and "msip s' = msip s" and "mboxes s' = mboxes s"
    and "switch_pending s' = switch_pending s"
proof -
  show st: "status (tcb s' u) = status (tcb s u) \<and> priority (tcb s' u) = priority (tcb s u)" for u
    using assms by (cases "u = t") (simp_all add: same_context_def)
  show "live s' u = live s u" and "runnable s' u = runnable s u" for u
    using assms st by (simp_all add: same_context_def live_def runnable_def)
qed (use assms in \<open>simp_all add: same_context_def switch_pending_def\<close>)

lemma same_context_prio: "same_context s t s' \<Longrightarrow> prio_ok s \<Longrightarrow> prio_ok s'"
  by (erule prio_ok_cong) (simp_all add: same_contextD)

text \<open>The part up to the look at the waiting threads: the oldest message of the queue, if any.\<close>

lemma receive_first:
  assumes inv: "kinv s L" and q: "queues_ok s" and ctx: "thread_context s t"
  obtains (none) s1 where "queue_msgs s t = []" and "receive_index (s\<lparr>mie := False\<rparr>) t = (s\<lparr>mie := False\<rparr>, -1)"
    and "s1 = upd_thread t (set_wait_data (MsgPtr m)) (s\<lparr>mie := False\<rparr>)" and "kinv s1 L" and "queues_ok s1"
    and "same_context s t s1"
  | (some) v vs s0 s1 i arr where "queue_msgs s t = v # vs" and "receive_index (s\<lparr>mie := False\<rparr>) t = (s0, int i)"
    and "array_elem (tcb s0 t) (int i) = Inr (arr, int i)" and "msgs s0 (arr, int i) = v" and "s1 = put_msg m v s0"
    and "links s0 = links s" and "kinv s1 L" and "queues_ok s1" and "same_context s t s1" and "mie s1 = False"
    and "wait_data (tcb s1 t) = wait_data (tcb s t)" and "queue_room (tcb s1 t)" and "msgs s1 = (msgs s)(m := v)"
    and "msg_array (tcb s t) \<noteq> Some (fst m) \<Longrightarrow> queue_msgs s1 t = vs" and "msg_array (tcb s1 t) = Some arr"
proof -
  note c = thread_contextD [OF ctx]
  let ?s = "s\<lparr>mie := False\<rparr>"
  have 0: "queues_ok ?s" "live ?s t" "kinv ?s L" using q inv kinv_active(1) [OF inv c(1)] by simp_all
  show thesis
  proof (cases "queue_msgs s t")
    case Nil
    let ?s1 = "upd_thread t (set_wait_data (MsgPtr m)) ?s"
    have "kinv ?s1 L" by (rule kinv_upd_wait_data [OF 0(3)]) (use c in simp_all)
    then show thesis using Nil receive_index_empty [OF 0(1,2)] 0(1)
      by (intro none [of ?s1]) (simp_all add: same_context_def)
  next
    case (Cons v vs)
    then have cons: "queue_msgs ?s t = v # vs" by simp
    obtain arr qq i where r: "msg_array (tcb ?s t) = Some arr" "receive_index ?s t = (upd_thread t (set_queue qq) ?s, int i)"
      "msgs ?s (arr, int i) = v" "cib_slots (msg_queue (tcb ?s t)) = i # cib_slots qq" "cib_inv qq"
      "cib_size qq = cib_size (msg_queue (tcb ?s t))" "vs = map (\<lambda>i. msgs ?s (arr, int i)) (cib_slots qq)"
      by (rule receive_index_first [OF 0(1,2) cons]) (rule that)
    let ?s0 = "upd_thread t (set_queue qq) ?s"
    have "queues_ok ?s0" by (rule queues_ok_set_queue [OF 0(1,2) r(5,6)])
    moreover have "kinv ?s0 L" using 0(3) by (rule kinv_set_queue)
    moreover have "length (cib_slots qq) < cib_size qq"
      using cib.length_slots [OF queues_okD(1) [OF 0(1,2)]] r(4,6) by (metis Suc_le_eq length_Cons)
    then have "queue_room (tcb ?s0 t)" by (simp add: queue_room_def)
    moreover have "array_elem (tcb ?s0 t) (int i) = Inr (arr, int i)" using r(1) by (simp add: array_elem_def)
    ultimately show thesis
      using Cons r by (intro some [of v vs ?s0 i arr "put_msg m v ?s0"]) (auto simp: same_context_def queue_msgs_def)
  qed
qed

text \<open>Where the message of a waiting thread goes.\<close>

lemma receive_dest_room:
  assumes inv: "kinv s L" and q: "queues_ok s" and live: "live s t" and room: "0 \<le> i \<Longrightarrow> queue_room (tcb s t)"
  obtains s1 d where "receive_dest s t m i = Inr (s1, d)" and "kinv s1 L" and "queues_ok s1" and "same_context s t s1"
    and "msgs s1 = msgs s" and "i < 0 \<Longrightarrow> d = m \<and> s1 = s"
    and "\<And>v. 0 \<le> i \<Longrightarrow> queue_msgs (put_msg d v s1) t = queue_msgs s t @ [v] \<and> msg_array (tcb s t) = Some (fst d)"
proof (cases "0 \<le> i")
  case False
  then show thesis using inv q by (intro that [of s m]) (simp_all add: receive_dest_def same_context_def)
next
  case True
  let ?q = "msg_queue (tcb s t)"
  have "length (cib_slots ?q) < cib_size ?q" using room [OF True] by (simp add: queue_room_def)
  from cib.put_ok [OF queues_okD(1) [OF q live] this] obtain q' n where p: "cib_put ?q = (q', int n)" "n \<notin> set (cib_slots ?q)"
    "cib_slots q' = cib_slots ?q @ [n]" "cib_size q' = cib_size ?q" "cib_inv q'" by blast
  obtain arr where arr: "msg_array (tcb s t) = Some arr"
    using queues_okD(2) [OF q live] room [OF True] by (cases "msg_array (tcb s t)") (auto simp: queue_room_def)
  have "receive_dest s t m i = Inr (upd_thread t (set_queue q') s, (arr, int n))"
    using True p(1) arr by (simp add: receive_dest_def array_elem_def)
  then show thesis using True inv p arr queues_ok_set_queue [OF q live p(5,4)]
    by (intro that [of "upd_thread t (set_queue q') s" "(arr, int n)"]) (auto simp: same_context_def queue_msgs_def)
qed

text \<open>The end when a thread waits: its message is copied, and it is released unless it wants a reply.\<close>

lemma receive_from_waiter_copies:
  assumes inv: "kinv s L" and prio: "prio_ok s" and q: "queues_ok s"
    and act: "sched_active_thread s = Some t" "on_runqueue (status (tcb s t))"
    and w: "live s w" "status (tcb s w) \<in> {STATUS_SEND_BLOCKED, STATUS_REPLY_BLOCKED}" and free: "\<And>l. w \<notin> set (L l)"
    and room: "0 \<le> i \<Longrightarrow> queue_room (tcb s t)"
  obtains a s' L' where "wait_data (tcb s w) = MsgPtr a" and "receive_from_waiter s t w m i b = Inr (s', Done 1)"
    and "kinv s' L'" and "prio_ok s'" and "queues_ok s'" and "mie s' = b" and "in_isr s' = in_isr s"
    and "sched_threads s' = sched_threads s" and "sched_active_thread s' = Some t"
    and "\<And>u. u \<noteq> t \<Longrightarrow> u \<noteq> w \<Longrightarrow> tcb s' u = tcb s u" and "status (tcb s' t) = status (tcb s t)"
    and "status (tcb s' w) = (if status (tcb s w) = STATUS_REPLY_BLOCKED then STATUS_REPLY_BLOCKED else STATUS_PENDING)"
    and "i < 0 \<Longrightarrow> msgs s' = (msgs s)(m := msgs s a)"
    and "0 \<le> i \<Longrightarrow> queue_msgs s' t = queue_msgs s t @ [msgs s a] \<and>
           (\<forall>p. msg_array (tcb s t) \<noteq> Some (fst p) \<longrightarrow> msgs s' p = msgs s p)"
    and "\<And>l. \<not> is_runqueue l \<Longrightarrow> L' l = L l"
    and "msg_queue (tcb s' t) = msg_queue (tcb s t) \<or> 0 \<le> i" and "msg_array (tcb s' t) = msg_array (tcb s t)"
proof -
  have live: "live s t" using kinv_active(1) [OF inv act(1)] .
  have wt: "w \<noteq> t" using act w(2) by auto
  have "is_msg (wait_data (tcb s w))" using kinv_data [OF inv w(1)] w(2) by auto
  then obtain a where a: "wait_data (tcb s w) = MsgPtr a" by (cases "wait_data (tcb s w)") auto
  obtain s1 d where s1: "receive_dest s t m i = Inr (s1, d)" "kinv s1 L" "queues_ok s1" "same_context s t s1"
    "msgs s1 = msgs s" "i < 0 \<Longrightarrow> d = m \<and> s1 = s"
    "\<And>v. 0 \<le> i \<Longrightarrow> queue_msgs (put_msg d v s1) t = queue_msgs s t @ [v] \<and> msg_array (tcb s t) = Some (fst d)"
    by (rule receive_dest_room [OF inv q live room], assumption) (rule that)
  note cx = same_contextD [OF s1(4)]
  let ?s2 = "put_msg d (msgs s1 a) s1"
  have e: "receive_from_waiter s t w m i b = bindE (if status (tcb ?s2 w) \<noteq> STATUS_REPLY_BLOCKED then
        bindE (sched_set_status (upd_thread w (set_wait_data NoData) ?s2) w STATUS_PENDING) (\<lambda>s. Inr (s, priority (tcb s w)))
      else Inr (?s2, THREAD_PRIORITY_IDLE)) (\<lambda>(s, sender_prio). let s = irq_restore b s in
        bindE (if sender_prio < THREAD_PRIORITY_IDLE then sched_switch s sender_prio else Inr s) (\<lambda>s. Inr (s, Done 1)))"
    unfolding receive_from_waiter_def s1(1) using cx(1) [OF wt] a by simp
  have 2: "kinv ?s2 L" "prio_ok ?s2" "queues_ok ?s2" "sched_active_thread ?s2 = Some t" "on_runqueue (status (tcb ?s2 t))"
    "live ?s2 w" "tcb ?s2 w = tcb s w"
    using s1(2,3) act w(1) cx(1) [OF wt] cx(5,8) cx(2) [of t] same_context_prio [OF s1(4) prio] by simp_all
  show thesis
  proof (cases "status (tcb s w) = STATUS_REPLY_BLOCKED")
    case True
    have "receive_from_waiter s t w m i b = Inr (?s2\<lparr>mie := b\<rparr>, Done 1)" using True 2(7) unfolding e by simp
    then show thesis using True 2 cx s1(5-7) act
      by (intro that [OF a, of "?s2\<lparr>mie := b\<rparr>" L]) auto
  next
    case False
    then have sb: "status (tcb ?s2 w) = STATUS_SEND_BLOCKED" using w(2) 2(7) by auto
    obtain s3 s' L' where r: "sched_set_status (upd_thread w (set_wait_data NoData) ?s2) w STATUS_PENDING = Inr s3"
      "priority (tcb s3 w) = priority (tcb ?s2 w)"
      "(if priority (tcb ?s2 w) < THREAD_PRIORITY_IDLE then sched_switch (s3\<lparr>mie := b\<rparr>) (priority (tcb ?s2 w))
          else Inr (s3\<lparr>mie := b\<rparr>)) = Inr s'"
      "kinv s' L'" "prio_ok s'" "tcb s' = (tcb ?s2)(w := (tcb ?s2 w)\<lparr>wait_data := NoData, status := STATUS_PENDING\<rparr>)"
      "msgs s' = msgs ?s2" "mie s' = b" "in_isr s' = in_isr ?s2" "sched_threads s' = sched_threads ?s2"
      "sched_active_thread s' = Some t" "mboxes s' = mboxes ?s2" "\<And>l. \<not> is_runqueue l \<Longrightarrow> L' l = L l"
      by (rule sender_released [OF 2(1,2,4,5,6) sb free, of b]) (rule that)
    have "receive_from_waiter s t w m i b = Inr (s', Done 1)"
      unfolding e using sb r(1-3) by (simp add: Let_def split: if_splits)
    moreover have "queue_msgs s' t = queue_msgs ?s2 t" using r(6,7) wt by (intro queue_msgs_cong) simp_all
    moreover have "queues_ok s'"
      by (rule queues_ok_cong [OF 2(3)]) (use r(6,10,12) in \<open>auto simp: live_def\<close>)
    ultimately show thesis
      using r(4-13) False cx s1(5-7) wt w(2) by (intro that [OF a, of s' L']) (auto simp: same_queues_def)
  qed
qed

lemma thread_at_active:
  "kinv s L \<Longrightarrow> sched_active_thread s = Some t \<Longrightarrow> thread_at (s\<lparr>mie := b\<rparr>) (sched_active_pid s) = Inr t"
  using thread_entry_valid(1) [OF _ active_pid, of s L L t] by (simp add: thread_at_def)

lemma links_back [simp]: "(upd_thread t f s)\<lparr>mie := b, links := links s\<rparr> = (upd_thread t f s)\<lparr>mie := b\<rparr>"
  by (simp add: upd_thread_def)

lemma no_waiter:
  assumes "kinv s L" and "L (MsgWaiters t) = []"
  shows "links s (MsgWaiters t) = Null" and "list_remove_head (links s) (MsgWaiters t) = Inr (links s, Null)"
proof -
  have sl: "slist (links s) (MsgWaiters t) []" using kinv_queue_at [OF assms(1), of "MsgWaiters t"] assms(2) by simp
  then show "links s (MsgWaiters t) = Null" by (simp add: slist_Nil)
  show "list_remove_head (links s) (MsgWaiters t) = Inr (links s, Null)" using sl by simp
qed

lemma msg_receive_nothing:
  assumes inv: "kinv s L" and q: "queues_ok s" and ctx: "thread_context s t"
    and none: "queue_msgs s t = []" "L (MsgWaiters t) = []"
  shows "u_msg_receive s m False = Inr (s, Done (-1))"
    and "\<exists>s' L'. u_msg_receive s m True = Inr (s', Blocked) \<and> kinv s' L' \<and> msip s' \<and> call_frame s s' \<and>
      tcb s' t = (tcb s t)\<lparr>wait_data := MsgPtr m, status := STATUS_RECEIVE_BLOCKED\<rparr> \<and> (\<forall>u. u \<noteq> t \<longrightarrow> tcb s' u = tcb s u) \<and>
      msgs s' = msgs s"
proof -
  note c = thread_contextD [OF ctx]
  let ?s = "s\<lparr>mie := False\<rparr>"
  have i: "receive_index ?s t = (?s, -1)"
    using none q kinv_active(1) [OF inv c(1)] by (intro receive_index_empty) simp_all
  note w = no_waiter [OF inv none(2)]
  note me = thread_at_active [OF inv c(1)]
  show "u_msg_receive s m False = Inr (s, Done (-1))"
    using i w(1) me c by (simp add: u_msg_receive_def irq_disable_def)
  let ?s1 = "upd_thread t (set_wait_data (MsgPtr m)) s"
  have "kinv ?s1 L" by (rule kinv_upd_wait_data [OF inv c(2)]) simp
  moreover have "thread_context ?s1 t" using ctx by (auto simp: thread_context_def)
  moreover have "\<not> on_runqueue STATUS_RECEIVE_BLOCKED" "data_fits STATUS_RECEIVE_BLOCKED (wait_data (tcb ?s1 t))" by simp_all
  ultimately obtain s2 h b where s2: "sched_set_status (?s1\<lparr>mie := False\<rparr>) t STATUS_RECEIVE_BLOCKED = Inr s2"
    "s2 = upd_thread t (set_status STATUS_RECEIVE_BLOCKED) (?s1\<lparr>mie := False, links := h, runqueue_bitcache := b\<rparr>)"
    "kinv s2 (L(RunQueue (priority (tcb ?s1 t)) := tl (L (RunQueue (priority (tcb ?s1 t))))))"
    by (rule block_active) (rule that)
  let ?s' = "s2\<lparr>mie := True, msip := True\<rparr>"
  have "u_msg_receive s m True = Inr (?s', Blocked)"
    using i w(2) me c s2(1) by (simp add: u_msg_receive_def irq_disable_def thread_yield_higher_def)
  moreover have "kinv ?s' (L(RunQueue (priority (tcb ?s1 t)) := tl (L (RunQueue (priority (tcb ?s1 t))))))"
    using s2(3) by (intro kinv_yield) simp
  moreover have "call_frame s ?s'" using c by (intro call_frameI) (auto simp: s2(2))
  ultimately show "\<exists>s' L'. u_msg_receive s m True = Inr (s', Blocked) \<and> kinv s' L' \<and> msip s' \<and> call_frame s s' \<and>
      tcb s' t = (tcb s t)\<lparr>wait_data := MsgPtr m, status := STATUS_RECEIVE_BLOCKED\<rparr> \<and> (\<forall>u. u \<noteq> t \<longrightarrow> tcb s' u = tcb s u) \<and>
      msgs s' = msgs s"
    by (intro exI conjI) (assumption | simp add: s2(2) set_status_def set_wait_data_def)+
qed

lemma same_context_frame:
  assumes "same_context s t s'" and "queues_ok s'" and "mie s"
  shows "call_frame s (s'\<lparr>mie := True\<rparr>)"
proof -
  note n = same_contextD [OF assms(1)]
  show ?thesis using n assms(2,3) by (intro call_frameI_queues) auto
qed

lemma msg_receive_queued:
  assumes inv: "kinv s L" and prio: "prio_ok s" and q: "queues_ok s" and ctx: "thread_context s t"
    and queue: "queue_msgs s t = v # vs" and nobody: "L (MsgWaiters t) = []"
  obtains s' where "u_msg_receive s m block = Inr (s', Done 1)" and "kinv s' L" and "prio_ok s'" and "call_frame s s'"
    and "msgs s' m = v" and "msg_array (tcb s t) \<noteq> Some (fst m) \<Longrightarrow> queue_msgs s' t = vs"
    and "\<And>u. u \<noteq> t \<Longrightarrow> tcb s' u = tcb s u" and "msgs s' = (msgs s)(m := v)"
proof (rule receive_first [OF inv q ctx, of m])
  assume "queue_msgs s t = []"
  then show thesis using queue by simp
next
  fix v' vs' s0 s1 i arr
  note c = thread_contextD [OF ctx]
  assume 1: "queue_msgs s t = v' # vs'" "receive_index (s\<lparr>mie := False\<rparr>) t = (s0, int i)"
    "array_elem (tcb s0 t) (int i) = Inr (arr, int i)" "msgs s0 (arr, int i) = v'" "s1 = put_msg m v' s0"
    "links s0 = links s" "kinv s1 L" "queues_ok s1" "same_context s t s1" "msgs s1 = (msgs s)(m := v')"
    "msg_array (tcb s t) \<noteq> Some (fst m) \<Longrightarrow> queue_msgs s1 t = vs'"
  note n = same_contextD [OF 1(9)]
  have lk: "s1\<lparr>links := links s\<rparr> = s1" using n(4) by simp
  have "u_msg_receive s m block = Inr (s1\<lparr>mie := True\<rparr>, Done 1)"
    using 1(2-4) c(5) thread_at_active [OF inv c(1)] no_waiter [OF inv nobody] lk 1(6)
    by (simp add: u_msg_receive_def irq_disable_def 1(5) [symmetric] n(4))
  then show thesis
    using 1 queue n(1) same_context_prio [OF 1(9) prio] same_context_frame [OF 1(9,8) c(5)]
    by (intro that [of "s1\<lparr>mie := True\<rparr>"]) auto
qed

text \<open>
  With a waiting thread. Both ways to get here, with and without a queued message, leave a state
  \<open>s1\<close> in which the first waiting thread is taken out of the list.
\<close>

lemma receive_takes_waiter:
  assumes inv: "kinv s L" and prio: "prio_ok s" and ctx: "thread_context s t" and w: "L (MsgWaiters t) = w # ws"
    and s1: "kinv s1 L" "queues_ok s1" "same_context s t s1" and room: "0 \<le> i \<Longrightarrow> queue_room (tcb s1 t)"
  obtains h a s' L' where "list_remove_head (links s) (MsgWaiters t) = Inr (h, Ptr (RqEntry w))"
    and "wait_data (tcb s w) = MsgPtr a" and "receive_from_waiter (s1\<lparr>links := h\<rparr>) t w m i True = Inr (s', Done 1)"
    and "kinv s' L'" and "prio_ok s'" and "call_frame s s'" and "L' (MsgWaiters t) = ws"
    and "status (tcb s' w) = (if status (tcb s w) = STATUS_REPLY_BLOCKED then STATUS_REPLY_BLOCKED else STATUS_PENDING)"
    and "i < 0 \<Longrightarrow> msgs s' = (msgs s1)(m := msgs s1 a)"
    and "0 \<le> i \<Longrightarrow> queue_msgs s' t = queue_msgs s1 t @ [msgs s1 a] \<and>
           (\<forall>p. msg_array (tcb s t) \<noteq> Some (fst p) \<longrightarrow> msgs s' p = msgs s1 p)"
    and "\<And>u. u \<noteq> t \<Longrightarrow> u \<noteq> w \<Longrightarrow> tcb s' u = tcb s u"
    and "msg_queue (tcb s' t) = msg_queue (tcb s1 t) \<or> 0 \<le> i" and "msg_array (tcb s' t) = msg_array (tcb s t)"
proof -
  note c = thread_contextD [OF ctx] and n = same_contextD [OF s1(3)]
  let ?l = "MsgWaiters t"
  obtain h where h: "list_remove_head (links s1) ?l = Inr (h, Ptr (RqEntry w))"
    "kinv (s1\<lparr>links := h\<rparr>) (L(?l := ws))" "\<And>l'. w \<notin> set ((L(?l := ws)) l')"
    by (rule kinv_remove_head [where l = ?l, OF s1(1) _ w], simp) (rule that)
  let ?s = "s1\<lparr>links := h\<rparr>"
  have lw: "live s1 w" "status (tcb s1 w) \<in> {STATUS_SEND_BLOCKED, STATUS_REPLY_BLOCKED}"
    using kinv_waiter [OF s1(1), of w ?l] w by auto
  have wt: "w \<noteq> t" using lw(2) n(2) [of t] c(2) by auto
  have "prio_ok ?s" using same_context_prio [OF s1(3) prio] by (rule prio_ok_cong) simp_all
  then have 0: "kinv ?s (L(?l := ws))" "prio_ok ?s" "queues_ok ?s" "sched_active_thread ?s = Some t"
    "on_runqueue (status (tcb ?s t))" "live ?s w" "status (tcb ?s w) \<in> {STATUS_SEND_BLOCKED, STATUS_REPLY_BLOCKED}"
    using h(2) s1(2) n c lw by simp_all
  have qm: "queue_msgs ?s t = queue_msgs s1 t" by (rule queue_msgs_cong) simp_all
  have room': "0 \<le> i \<Longrightarrow> queue_room (tcb ?s t)" using room by simp
  obtain a s' L' where r: "wait_data (tcb ?s w) = MsgPtr a" "receive_from_waiter ?s t w m i True = Inr (s', Done 1)"
    "kinv s' L'" "prio_ok s'" "queues_ok s'" "mie s' = True" "in_isr s' = in_isr ?s"
    "sched_threads s' = sched_threads ?s" "sched_active_thread s' = Some t"
    "\<And>u. u \<noteq> t \<Longrightarrow> u \<noteq> w \<Longrightarrow> tcb s' u = tcb ?s u" "status (tcb s' t) = status (tcb ?s t)"
    "status (tcb s' w) = (if status (tcb ?s w) = STATUS_REPLY_BLOCKED then STATUS_REPLY_BLOCKED else STATUS_PENDING)"
    "i < 0 \<Longrightarrow> msgs s' = (msgs ?s)(m := msgs ?s a)"
    "0 \<le> i \<Longrightarrow> queue_msgs s' t = queue_msgs ?s t @ [msgs ?s a] \<and>
           (\<forall>p. msg_array (tcb ?s t) \<noteq> Some (fst p) \<longrightarrow> msgs s' p = msgs ?s p)"
    "\<And>l. \<not> is_runqueue l \<Longrightarrow> L' l = (L(?l := ws)) l"
    "msg_queue (tcb s' t) = msg_queue (tcb ?s t) \<or> 0 \<le> i" "msg_array (tcb s' t) = msg_array (tcb ?s t)"
    by (rule receive_from_waiter_copies [where L = "L(?l := ws)", OF 0 h(3) room'], assumption) (rule that)
  have "on_runqueue (status (tcb s' u))" if "on_runqueue (status (tcb s u))" for u
    using that r(10) [of u] r(11,12) n(2) [of u] lw(2) by (cases "u = t"; cases "u = w") auto
  then have "call_frame s s'" using r(5-9) n c by (intro call_frameI_queues) auto
  then show thesis
    using h(1) r n(4) n(1) [OF wt] n(1,3) by (intro that [of h a s' L']) (simp_all add: qm)
qed

lemma msg_receive_waiting:
  assumes inv: "kinv s L" and prio: "prio_ok s" and q: "queues_ok s" and ctx: "thread_context s t"
    and w: "L (MsgWaiters t) = w # ws"
  obtains a s' L' where "wait_data (tcb s w) = MsgPtr a" and "u_msg_receive s m block = Inr (s', Done 1)"
    and "kinv s' L'" and "prio_ok s'" and "call_frame s s'" and "L' (MsgWaiters t) = ws"
    and "status (tcb s' w) = (if status (tcb s w) = STATUS_REPLY_BLOCKED then STATUS_REPLY_BLOCKED else STATUS_PENDING)"
    and "queue_msgs s t = [] \<Longrightarrow> msgs s' m = msgs s a"
    and "\<And>v vs. queue_msgs s t = v # vs \<Longrightarrow> msg_array (tcb s t) \<noteq> Some (fst m) \<Longrightarrow> a \<noteq> m \<Longrightarrow>
           msgs s' m = v \<and> queue_msgs s' t = vs @ [msgs s a]"
    and "queue_msgs s t = [] \<Longrightarrow> msg_array (tcb s t) \<noteq> Some (fst m) \<Longrightarrow> queue_msgs s' t = []"
    and "\<And>u. u \<noteq> t \<Longrightarrow> u \<noteq> w \<Longrightarrow> tcb s' u = tcb s u"
    and "\<And>p. p \<noteq> m \<Longrightarrow> msg_array (tcb s t) \<noteq> Some (fst p) \<Longrightarrow> msgs s' p = msgs s p"
proof (rule receive_first [OF inv q ctx, of m])
  note c = thread_contextD [OF ctx]
  fix s1
  assume 1: "queue_msgs s t = []" "receive_index (s\<lparr>mie := False\<rparr>) t = (s\<lparr>mie := False\<rparr>, -1)"
    "s1 = upd_thread t (set_wait_data (MsgPtr m)) (s\<lparr>mie := False\<rparr>)" "kinv s1 L" "queues_ok s1" "same_context s t s1"
  have "0 \<le> (-1 :: int) \<Longrightarrow> queue_room (tcb s1 t)" by simp
  then obtain h a s' L' where r: "list_remove_head (links s) (MsgWaiters t) = Inr (h, Ptr (RqEntry w))"
    "wait_data (tcb s w) = MsgPtr a" "receive_from_waiter (s1\<lparr>links := h\<rparr>) t w m (-1) True = Inr (s', Done 1)"
    "kinv s' L'" "prio_ok s'" "call_frame s s'" "L' (MsgWaiters t) = ws"
    "status (tcb s' w) = (if status (tcb s w) = STATUS_REPLY_BLOCKED then STATUS_REPLY_BLOCKED else STATUS_PENDING)"
    "(-1::int) < 0 \<Longrightarrow> msgs s' = (msgs s1)(m := msgs s1 a)" "\<And>u. u \<noteq> t \<Longrightarrow> u \<noteq> w \<Longrightarrow> tcb s' u = tcb s u"
    "msg_queue (tcb s' t) = msg_queue (tcb s1 t) \<or> 0 \<le> (-1::int)" "msg_array (tcb s' t) = msg_array (tcb s t)"
    by (rule receive_takes_waiter [OF inv prio ctx w 1(4-6)]) (assumption | rule that)+
  have nw: "links s (MsgWaiters t) \<noteq> Null" using kinv_queue_at [OF inv, of "MsgWaiters t"] w by (auto simp: slist_def)
  have "u_msg_receive s m block = Inr (s', Done 1)"
    using 1(2) r(1,3) thread_at_active [OF inv c(1)] c(5) nw
    by (simp add: u_msg_receive_def irq_disable_def 1(3) [simplified, symmetric] same_contextD(4) [OF 1(6)])
  moreover have "queue_msgs s' t = []" if "msg_array (tcb s t) \<noteq> Some (fst m)"
    using 1(1) r(9,11,12) that by (auto simp: queue_msgs_def 1(3) split: option.splits)
  ultimately show thesis using r 1(1,3) by (intro that [of a s' L']) simp_all
next
  note c = thread_contextD [OF ctx]
  fix v vs s0 s1 i arr
  assume 1: "queue_msgs s t = v # vs" "receive_index (s\<lparr>mie := False\<rparr>) t = (s0, int i)"
    "array_elem (tcb s0 t) (int i) = Inr (arr, int i)" "msgs s0 (arr, int i) = v" "s1 = put_msg m v s0"
    "links s0 = links s" "kinv s1 L" "queues_ok s1" "same_context s t s1" "queue_room (tcb s1 t)" "msgs s1 = (msgs s)(m := v)"
    "msg_array (tcb s t) \<noteq> Some (fst m) \<Longrightarrow> queue_msgs s1 t = vs"
  obtain h a s' L' where r: "list_remove_head (links s) (MsgWaiters t) = Inr (h, Ptr (RqEntry w))"
    "wait_data (tcb s w) = MsgPtr a" "receive_from_waiter (s1\<lparr>links := h\<rparr>) t w m (int i) True = Inr (s', Done 1)"
    "kinv s' L'" "prio_ok s'" "call_frame s s'" "L' (MsgWaiters t) = ws"
    "status (tcb s' w) = (if status (tcb s w) = STATUS_REPLY_BLOCKED then STATUS_REPLY_BLOCKED else STATUS_PENDING)"
    "0 \<le> int i \<Longrightarrow> queue_msgs s' t = queue_msgs s1 t @ [msgs s1 a] \<and>
           (\<forall>p. msg_array (tcb s t) \<noteq> Some (fst p) \<longrightarrow> msgs s' p = msgs s1 p)"
    "\<And>u. u \<noteq> t \<Longrightarrow> u \<noteq> w \<Longrightarrow> tcb s' u = tcb s u"
    by (rule receive_takes_waiter [OF inv prio ctx w 1(7-9), of "int i"]) (rule 1(10) | rule that)+
  have "u_msg_receive s m block = Inr (s', Done 1)"
    using 1(2-4,6) r(1,3) thread_at_active [OF inv c(1)] c(5)
    by (simp add: u_msg_receive_def irq_disable_def 1(5) [symmetric] same_contextD(4) [OF 1(9)])
  moreover have "msgs s' m = v' \<and> queue_msgs s' t = vs' @ [msgs s a]"
    if "queue_msgs s t = v' # vs'" "msg_array (tcb s t) \<noteq> Some (fst m)" "a \<noteq> m" for v' vs'
  proof -
    have "msgs s' m = msgs s1 m" using r(9) that(2) by (metis of_nat_0_le_iff)
    then have "msgs s' m = v'" using that(1) 1(1,11) by simp
    moreover have "queue_msgs s' t = vs' @ [msgs s a]" using r(9) that 1(1,11,12) by simp
    ultimately show ?thesis by blast
  qed
  moreover have "msgs s' p = msgs s p" if "p \<noteq> m" "msg_array (tcb s t) \<noteq> Some (fst p)" for p
  proof -
    have "msgs s' p = msgs s1 p" using r(9) that(2) by (metis of_nat_0_le_iff)
    then show ?thesis using that(1) 1(11) by simp
  qed
  ultimately show thesis using 1(1) r(10) by (intro that [OF r(2) _ r(4-8)]) simp_all
qed

section \<open>The contract of receiving\<close>

lemma u_msg_receive_safe:
  assumes inv: "kinv s L" and prio: "prio_ok s" and q: "queues_ok s" and t: "thread_context s t"
  shows "\<exists>s' r L'. u_msg_receive s m block = Inr (s', r) \<and> kinv s' L' \<and> prio_ok s' \<and> call_frame s s'"
proof (cases "L (MsgWaiters t)")
  case Nil
  show ?thesis
  proof (cases "queue_msgs s t")
    case none: Nil
    note n = msg_receive_nothing [OF inv q t none Nil, of m]
    show ?thesis
    proof (cases block)
      case True
      then show ?thesis using n(2) by (auto intro: prio_ok_msip)
    next
      case False
      then show ?thesis using n(1) inv prio by auto
    qed
  next
    case (Cons v vs)
    obtain s' where "u_msg_receive s m block = Inr (s', Done 1)" "kinv s' L" "prio_ok s'" "call_frame s s'"
      by (rule msg_receive_queued [OF inv prio q t Cons Nil]) (rule that)
    then show ?thesis by blast
  qed
next
  case (Cons w ws)
  obtain s' L' where "u_msg_receive s m block = Inr (s', Done 1)" "kinv s' L'" "prio_ok s'" "call_frame s s'"
    by (rule msg_receive_waiting [OF inv prio q t Cons]) (rule that)
  then show ?thesis by blast
qed

interpretation msg_receive: kernel_call "\<lambda>s L. queues_ok s \<and> (\<exists>t. thread_context s t)" "\<lambda>s. msg_receive s m" for m
  by unfold_locales (unfold msg_receive_def, blast intro: u_msg_receive_safe)

interpretation msg_try_receive: kernel_call "\<lambda>s L. queues_ok s \<and> (\<exists>t. thread_context s t)" "\<lambda>s. msg_try_receive s m" for m
  by unfold_locales (unfold msg_try_receive_def, blast intro: u_msg_receive_safe)

interpretation msg_receive_resume: kernel_call "\<lambda>s L. \<exists>t. thread_context s t" msg_receive_resume
proof unfold_locales
  fix s L
  assume 1: "kinv s L" "prio_ok s" and "\<exists>t. thread_context s t"
  then obtain t where "sched_active_thread s = Some t" "on_runqueue (status (tcb s t))" by (auto dest: thread_contextD)
  then have "msg_receive_resume s = Inr (s, 1)" by (auto simp: msg_receive_resume_def assertE_def)
  then show "\<exists>s' r L'. msg_receive_resume s = Inr (s', r) \<and> kinv s' L' \<and> prio_ok s' \<and> call_frame s s'"
    using 1 by auto
qed

interpretation msg_init_queue: kernel_call
  "\<lambda>s L. (\<exists>t. thread_context s t) \<and> (\<exists>k \<le> 30. num = 2 ^ k)" "\<lambda>s. noval (msg_init_queue s arr num)" for arr num
proof unfold_locales
  fix s L
  assume 1: "kinv s L" "prio_ok s" and ctx: "(\<exists>t. thread_context s t) \<and> (\<exists>k \<le> 30. num = 2 ^ k)"
  then obtain t k where t: "thread_context s t" and k: "k \<le> 30" "num = 2 ^ k" by blast
  let ?s = "upd_thread t (\<lambda>th. th\<lparr>msg_array := Some arr, msg_queue := CIB_INIT num\<rparr>) s"
  have "num AND (num - 1) = 0"
    by (rule bit_word_eqI) (simp add: k(2) mask_eq_decr_exp [symmetric] bit_and_iff bit_exp_iff bit_mask_iff)
  then have "msg_init_queue s arr num = Inr ?s"
    using thread_contextD(1) [OF t] by (simp add: msg_init_queue_def cib_init_def)
  moreover have "kinv ?s L" using 1(1) by (rule kinv_upd_other) simp
  moreover have "prio_ok ?s" using 1(2) by simp
  moreover have "cib_inv (CIB_INIT num)"
    using k by (auto simp: cib_inv_def CIB_INIT_def cib_avail_def mask_eq_decr_exp)
  then have "call_frame s ?s"
    by (intro call_frameI_queues) (auto simp: queues_ok_def thread_queue_ok_def)
  ultimately show "\<exists>s' r L'. noval (msg_init_queue s arr num) = Inr (s', r) \<and> kinv s' L' \<and> prio_ok s' \<and> call_frame s s'"
    by auto
qed

section \<open>Properties\<close>

text \<open>
  C5: What \<open>msg_send\<close> from a thread does with the message, stamped with the sender's identifier:
  a thread that waits for a message gets it in its buffer and becomes runnable; otherwise it is
  appended to the queue of the target; without room the caller waits in the target's list behind
  the threads at least as urgent, and a switch is pending.
\<close>

theorem msg_send_delivers:
  assumes "kinv s L" and "queues_ok s" and "thread_context s t" and "sched_threads s p = Some u" and "u \<noteq> t"
  shows "\<exists>s' L'. kinv s' L' \<and>
    (if status (tcb s u) = STATUS_RECEIVE_BLOCKED then
       msg_send s m p = Inr (s', Done 1) \<and> status (tcb s' u) = STATUS_PENDING \<and> switch_pending s' \<and>
       (\<exists>q. wait_data (tcb s u) = MsgPtr q \<and> msgs s' q = (msgs s m)\<lparr>sender_pid := sched_active_pid s\<rparr>)
     else if queue_room (tcb s u) then
       msg_send s m p = Inr (s', Done 1) \<and>
       (msg_array (tcb s u) \<noteq> Some (fst m) \<longrightarrow>
          queue_msgs s' u = queue_msgs s u @ [(msgs s m)\<lparr>sender_pid := sched_active_pid s\<rparr>])
     else
       msg_send s m p = Inr (s', Blocked) \<and> status (tcb s' t) = STATUS_SEND_BLOCKED \<and> switch_pending s' \<and>
       wait_data (tcb s' t) = MsgPtr m \<and> msgs s' m = (msgs s m)\<lparr>sender_pid := sched_active_pid s\<rparr> \<and>
       L' (MsgWaiters u) = insert_waiter s t (L (MsgWaiters u)))"
proof -
  note inv = assms(1) and c = thread_contextD [OF assms(3)]
  let ?s = "s\<lparr>mie := False\<rparr>"
  have 0: "kinv ?s L" "queues_ok ?s" "sched_active_thread ?s = Some t" "sched_threads ?s p = Some u"
    using assms c by simp_all
  have "p \<noteq> sched_active_pid s" using active_pid [OF inv c(1)] assms(4,5) by auto
  then have e: "msg_send s m p = u_msg_send ?s m p True True"
    using c by (simp add: msg_send_def irq_is_in_def irq_disable_def)
  have st: "stamped ?s m = (msgs s m)\<lparr>sender_pid := sched_active_pid s\<rparr>" by (simp add: stamped_def)
  have nr: "status (tcb ?s t) \<noteq> STATUS_REPLY_BLOCKED" using c(2) by auto
  consider (deliver) "status (tcb ?s u) = STATUS_RECEIVE_BLOCKED"
    | (queue) "status (tcb ?s u) \<noteq> STATUS_RECEIVE_BLOCKED" "queue_room (tcb ?s u)"
    | (full) "status (tcb ?s u) \<noteq> STATUS_RECEIVE_BLOCKED" "\<not> queue_room (tcb ?s u)" by blast
  then show ?thesis
  proof cases
    case deliver
    let ?L = "L(RunQueue (priority (tcb ?s u)) := L (RunQueue (priority (tcb ?s u))) @ [u])"
    obtain q s' where s': "wait_data (tcb ?s u) = MsgPtr q"
      "u_msg_send ?s m p True True = Inr (s', if status (tcb ?s t) = STATUS_REPLY_BLOCKED then Blocked else Done 1)"
      "kinv s' ?L" "msip s'" "msgs s' = (msgs ?s)(m := stamped ?s m, q := stamped ?s m)"
      "tcb s' = (tcb ?s)(u := (tcb ?s u)\<lparr>status := STATUS_PENDING\<rparr>)"
      by (rule send_deliver [OF 0(1,3,4) assms(5) deliver]) (rule that)
    then show ?thesis using e nr st deliver
      by (intro exI [of _ s'] exI [of _ ?L]) (simp add: switch_pending_def)
  next
    case queue
    obtain s' L' where s': "u_msg_send ?s m p True True =
        (if status (tcb ?s t) = STATUS_REPLY_BLOCKED then Inr (s'\<lparr>mie := True, msip := True\<rparr>, Blocked)
         else Inr (s'\<lparr>mie := True\<rparr>, Done 1))"
      "queued (set_sender m (sched_active_pid ?s) ?s) u m s'" "kinv s' L'"
      by (rule send_queue [OF 0 assms(5) queue]) (rule that)
    then show ?thesis using e nr queue queuedD(12) [OF s'(2)]
      by (intro exI [of _ "s'\<lparr>mie := True\<rparr>"] exI [of _ L']) simp
  next
    case full
    obtain s' L' where "u_msg_send ?s m p True True = Inr (s', Blocked)" "kinv s' L'" "msip s'"
      "msgs s' = (msgs ?s)(m := stamped ?s m)"
      "tcb s' t = (tcb ?s t)\<lparr>wait_data := MsgPtr m, status := wait_status (status (tcb ?s t))\<rparr>"
      "L' (MsgWaiters u) = insert_waiter ?s t (L (MsgWaiters u))"
      by (rule send_wait [OF 0 assms(5) can_wait_context [OF inv assms(3)] full]) (rule that)
    moreover have "insert_waiter ?s t (L (MsgWaiters u)) = insert_waiter s t (L (MsgWaiters u))"
      by (rule insert_waiter_cong) simp
    ultimately show ?thesis using e nr full st
      by (intro exI [of _ s'] exI [of _ L']) (simp add: switch_pending_def wait_status_def)
  qed
qed

theorem msg_send_delivers_witness:
  "\<exists>s' L'. kinv s' L' \<and> msg_send demo (7, 0) 8 = Inr (s', Done 1) \<and> status (tcb s' 800) = STATUS_PENDING \<and>
     switch_pending s' \<and> msgs s' (800, 0) = (msgs demo (7, 0))\<lparr>sender_pid := 2\<rparr>"
proof -
  have u: "sched_threads demo 8 = Some 800" by (simp add: demo_threads_def)
  have "wait_data (tcb demo 800) = MsgPtr (800, 0)" by (simp add: demo_thread_def)
  then show ?thesis
    using msg_send_delivers [OF demo_kinv demo_queues_ok demo_context u, of "(7, 0)"] by auto
qed

text \<open>
  The inbox of a thread: the messages in its queue and behind them those of the threads that wait
  to send to it, in the order of their list.
\<close>

definition waiting_msg :: "kernel \<Rightarrow> tid \<Rightarrow> msg_t" where
  "waiting_msg s w = msgs s (case wait_data (tcb s w) of MsgPtr a \<Rightarrow> a | _ \<Rightarrow> (0, 0))"

definition inbox :: "kernel \<Rightarrow> layout \<Rightarrow> tid \<Rightarrow> msg_t list" where
  "inbox s L t = queue_msgs s t @ map (waiting_msg s) (L (MsgWaiters t))"

text \<open>The buffer of the receiver, its queue and the messages of the waiting threads are different objects.\<close>

definition apart :: "kernel \<Rightarrow> layout \<Rightarrow> tid \<Rightarrow> maddr \<Rightarrow> bool" where
  "apart s L t m \<longleftrightarrow>
     msg_array (tcb s t) \<noteq> Some (fst m) \<and>
     (\<forall>w \<in> set (L (MsgWaiters t)). \<forall>a. wait_data (tcb s w) = MsgPtr a \<longrightarrow>
        a \<noteq> m \<and> msg_array (tcb s t) \<noteq> Some (fst a))"

lemma apartD:
  assumes "apart s L t m"
  shows "w \<in> set (L (MsgWaiters t)) \<Longrightarrow> wait_data (tcb s w) = MsgPtr a \<Longrightarrow>
      a \<noteq> m \<and> msg_array (tcb s t) \<noteq> Some (fst a)"
    and "msg_array (tcb s t) \<noteq> Some (fst m)"
  using assms unfolding apart_def by blast+

lemma waiting_msgs_same:
  assumes "\<And>w. w \<in> set ws \<Longrightarrow> tcb s' w = tcb s w"
    and "\<And>w. w \<in> set ws \<Longrightarrow> is_msg (wait_data (tcb s w))"
    and "\<And>w a. w \<in> set ws \<Longrightarrow> wait_data (tcb s w) = MsgPtr a \<Longrightarrow> msgs s' a = msgs s a"
  shows "map (waiting_msg s') ws = map (waiting_msg s) ws"
  using assms by (fastforce simp: waiting_msg_def split: wait_data_t.splits)

text \<open>
  C11: \<open>msg_receive\<close> and the inbox: the caller gets the first message and the inbox keeps exactly the
  others, in their order; with an empty inbox the caller blocks. So no message is lost, none is
  duplicated, and a queue that was full is refilled from the waiting threads.
\<close>

theorem msg_receive_takes_first:
  assumes "kinv s L" and "prio_ok s" and "queues_ok s" and "thread_context s t" and "apart s L t m"
  shows "\<exists>s' L'. kinv s' L' \<and> prio_ok s' \<and>
    (case inbox s L t of
       [] \<Rightarrow> msg_receive s m = Inr (s', Blocked) \<and> status (tcb s' t) = STATUS_RECEIVE_BLOCKED \<and> wait_data (tcb s' t) = MsgPtr m
     | v # vs \<Rightarrow> msg_receive s m = Inr (s', Done 1) \<and> msgs s' m = v \<and> inbox s' L' t = vs)"
proof (cases "L (MsgWaiters t)")
  case Nil
  show ?thesis
  proof (cases "queue_msgs s t")
    case none: Nil
    then show ?thesis using msg_receive_nothing(2) [OF assms(1,3,4) none Nil, of m] Nil
      by (auto simp: inbox_def msg_receive_def prio_ok_msip)
  next
    case (Cons v vs)
    obtain s' where "u_msg_receive s m True = Inr (s', Done 1)" "kinv s' L" "prio_ok s'" "msgs s' m = v"
      "msg_array (tcb s t) \<noteq> Some (fst m) \<Longrightarrow> queue_msgs s' t = vs"
      by (rule msg_receive_queued [OF assms(1-4) Cons Nil]) (rule that)
    then show ?thesis using Cons Nil assms(5)
      by (intro exI [of _ s'] exI [of _ L]) (simp add: inbox_def msg_receive_def apart_def)
  qed
next
  case (Cons w ws)
  obtain a s' L' where s': "wait_data (tcb s w) = MsgPtr a" "u_msg_receive s m True = Inr (s', Done 1)" "kinv s' L'" "prio_ok s'"
    "L' (MsgWaiters t) = ws" "queue_msgs s t = [] \<Longrightarrow> msgs s' m = msgs s a"
    "\<And>v vs. queue_msgs s t = v # vs \<Longrightarrow> msg_array (tcb s t) \<noteq> Some (fst m) \<Longrightarrow> a \<noteq> m \<Longrightarrow>
       msgs s' m = v \<and> queue_msgs s' t = vs @ [msgs s a]"
    "queue_msgs s t = [] \<Longrightarrow> msg_array (tcb s t) \<noteq> Some (fst m) \<Longrightarrow> queue_msgs s' t = []"
    "\<And>u. u \<noteq> t \<Longrightarrow> u \<noteq> w \<Longrightarrow> tcb s' u = tcb s u"
    "\<And>p. p \<noteq> m \<Longrightarrow> msg_array (tcb s t) \<noteq> Some (fst p) \<Longrightarrow> msgs s' p = msgs s p"
    by (rule msg_receive_waiting [OF assms(1-4) Cons]) (rule that)
  have "t \<notin> set (L (MsgWaiters t))"
    using kinv_waiter [OF assms(1), of t "MsgWaiters t"] thread_contextD(2) [OF assms(4)] by auto
  moreover have "distinct (w # ws)" using kinv_distinct [OF assms(1), of "MsgWaiters t"] Cons by simp
  ultimately have "tcb s' x = tcb s x" if "x \<in> set ws" for x using that s'(9) [of x] Cons by auto
  moreover have "is_msg (wait_data (tcb s x))" if "x \<in> set ws" for x
    using that kinv_waiter [OF assms(1), of x "MsgWaiters t"] kinv_data [OF assms(1), of x] Cons by auto
  moreover have "msgs s' b = msgs s b" if "x \<in> set ws" "wait_data (tcb s x) = MsgPtr b" for x b
    using that s'(10) [of b] apartD(1) [OF assms(5), of x b] Cons by simp
  ultimately have "map (waiting_msg s') ws = map (waiting_msg s) ws" by (rule waiting_msgs_same)
  moreover have "waiting_msg s w = msgs s a" using s'(1) by (simp add: waiting_msg_def)
  ultimately show ?thesis
    using s'(1-8) Cons apartD(1) [OF assms(5), of w a] apartD(2) [OF assms(5)] by (intro exI [of _ s'] exI [of _ L'])
      (cases "queue_msgs s t"; simp add: inbox_def msg_receive_def)
qed

theorem msg_receive_takes_first_witness:
  "\<exists>s' L'. kinv s' L' \<and> prio_ok s' \<and> msg_receive demo (7, 0) = Inr (s', Done 1) \<and>
     msgs s' (7, 0) = msgs demo (2, 0) \<and> inbox s' L' 200 = [msgs demo (700, 0)]"
proof -
  have "cib_slots \<lparr>read_count = 0, write_count = 1, cib_mask = 3\<rparr> = [0]" by (simp add: cib_slots_def cib_avail_def)
  then have "inbox demo demo_layout 200 = [msgs demo (2, 0), msgs demo (700, 0)]"
    by (simp add: inbox_def queue_msgs_def waiting_msg_def demo_thread_def)
  moreover have "apart demo demo_layout 200 (7, 0)" by (simp add: apart_def demo_thread_def)
  ultimately show ?thesis
    using msg_receive_takes_first [OF demo_kinv demo_prio_ok demo_queues_ok demo_context, of "(7, 0)"] by simp
qed

text \<open>
  C13: The request and reply protocol. \<open>msg_send_receive\<close> to a thread that waits for a message delivers
  the request and blocks the caller until the reply; a \<open>msg_reply\<close> to that request, at any later
  time while the caller still waits, copies the reply to where the caller asked for it and makes
  the caller runnable.
\<close>

theorem msg_request_reply:
  assumes "kinv s L" and "queues_ok s" and "thread_context s t" and "sched_threads s p = Some u" and "u \<noteq> t"
    and "status (tcb s u) = STATUS_RECEIVE_BLOCKED" and "wait_data (tcb s u) = MsgPtr q"
  shows "\<exists>s1 L1. msg_send_receive s m reply p = Inr (s1, Blocked) \<and> kinv s1 L1 \<and> switch_pending s1 \<and>
    msgs s1 q = (msgs s m)\<lparr>sender_pid := sched_active_pid s\<rparr> \<and> status (tcb s1 u) = STATUS_PENDING \<and>
    (\<forall>s2 L2 r. kinv s2 L2 \<longrightarrow> prio_ok s2 \<longrightarrow> thread_context s2 u \<longrightarrow> sched_threads s2 = sched_threads s1 \<longrightarrow>
       tcb s2 t = tcb s1 t \<longrightarrow> msgs s2 q = msgs s1 q \<longrightarrow> (\<forall>l. t \<notin> set (L2 l)) \<longrightarrow>
       (\<exists>s3 L3. msg_reply s2 q r = Inr (s3, 1) \<and> kinv s3 L3 \<and> prio_ok s3 \<and>
          msgs s3 reply = msgs s2 r \<and> runnable s3 t))"
proof -
  note c = thread_contextD [OF assms(3)]
  obtain s1 L1 where s1: "msg_send_receive s m reply p = Inr (s1, Blocked)" "kinv s1 L1" "msip s1" "call_frame s s1"
    "tcb s1 t = (tcb s t)\<lparr>wait_data := MsgPtr reply, status := STATUS_REPLY_BLOCKED\<rparr>"
    "\<And>q. status (tcb s u) = STATUS_RECEIVE_BLOCKED \<Longrightarrow> wait_data (tcb s u) = MsgPtr q \<Longrightarrow>
      msgs s1 q = stamped s m \<and> tcb s1 u = (tcb s u)\<lparr>status := STATUS_PENDING\<rparr> \<and> (\<forall>l. t \<notin> set (L1 l))"
    by (rule msg_send_receive_blocks [OF assms(1-5)]) (rule that)
  note d = s1(6) [OF assms(6,7)]
  have lt: "live s1 t" using s1(4) kinv_active(1) [OF assms(1) c(1)] by (simp add: call_frame_def)
  have "pid (tcb s1 t) = sched_active_pid s" using s1(5) kinv_active(2) [OF assms(1) c(1)] by simp
  then have pid: "sched_threads s1 (sched_active_pid s) = Some t"
    using lt thread_entry_valid(3) [OF s1(2)] by (auto simp: live_def)
  have "\<exists>s3 L3. msg_reply s2 q r = Inr (s3, 1) \<and> kinv s3 L3 \<and> prio_ok s3 \<and> msgs s3 reply = msgs s2 r \<and> runnable s3 t"
    if 2: "kinv s2 L2" "prio_ok s2" "thread_context s2 u" "sched_threads s2 = sched_threads s1"
      "tcb s2 t = tcb s1 t" "msgs s2 q = msgs s1 q" "\<And>l. t \<notin> set (L2 l)" for s2 L2 r
  proof -
    have a: "sched_active_thread s2 = Some u" by (rule thread_contextD(1) [OF 2(3)])
    have ut: "sched_threads s2 (sender_pid (msgs s2 q)) = Some t" and st: "status (tcb s2 t) = STATUS_REPLY_BLOCKED"
      using 2(4-6) d pid s1(5) by (simp_all add: stamped_def)
    obtain q' s3 L3 where r: "wait_data (tcb s2 t) = MsgPtr q'" "msg_reply s2 q r = Inr (s3, 1)" "kinv s3 L3" "prio_ok s3"
      "call_frame s2 s3" "msgs s3 = (msgs s2)(q' := msgs s2 r)" "tcb s3 = (tcb s2)(t := (tcb s2 t)\<lparr>status := STATUS_PENDING\<rparr>)"
      by (rule msg_reply_wakes [OF 2(1,2) a ut st 2(7)]) (rule that)
    have "q' = reply" using r(1) 2(5) s1(5) by simp
    moreover have "live s3 t" using r(5) lt 2(4) by (simp add: call_frame_def live_def)
    ultimately show ?thesis using r by (intro exI [of _ s3] exI [of _ L3]) (simp add: runnable_def)
  qed
  then show ?thesis using s1(1-3) d by (intro exI [of _ s1] exI [of _ L1]) (simp add: stamped_def switch_pending_def)
qed

theorem msg_request_reply_witness:
  "\<exists>s1 L1. msg_send_receive demo (7, 0) (7, 1) 8 = Inr (s1, Blocked) \<and> kinv s1 L1 \<and> switch_pending s1 \<and>
    msgs s1 (800, 0) = (msgs demo (7, 0))\<lparr>sender_pid := 2\<rparr> \<and> status (tcb s1 800) = STATUS_PENDING"
proof -
  have u: "sched_threads demo 8 = Some 800" "(800::int) \<noteq> 200" "status (tcb demo 800) = STATUS_RECEIVE_BLOCKED"
    "wait_data (tcb demo 800) = MsgPtr (800, 0)" by (simp_all add: demo_threads_def demo_thread_def)
  show ?thesis
    using msg_request_reply [OF demo_kinv demo_queues_ok demo_context u, of "(7, 0)" "(7, 1)"] by auto
qed

text \<open>
  C40: Where priorities are not respected: if the target waits for \<open>THREAD_FLAG_MSG_WAITING\<close> and is more
  urgent than the sender, \<open>msg_send\<close> queues the message and makes the target runnable but returns
  without a switch; the request \<open>queue_msg\<close> leaves is looked at only when an interrupt handler ends.
\<close>

theorem msg_send_flag_no_switch:
  assumes "kinv s L" and "queues_ok s" and "thread_context s t" and "sched_threads s p = Some u" and "u \<noteq> t"
    and "queue_room (tcb s u)" and "flag_wakes s u" and "priority (tcb s u) < priority (tcb s t)"
  shows "\<exists>s'. msg_send s m p = Inr (s', Done 1) \<and> runnable s' u \<and> sched_active_thread s' = Some t \<and>
    priority (tcb s' u) < priority (tcb s' t) \<and> sched_context_switch_request s' \<and> \<not> switch_pending s' \<and> \<not> prio_ok s'"
proof -
  note inv = assms(1) and c = thread_contextD [OF assms(3)]
  let ?s = "s\<lparr>mie := False\<rparr>"
  have "status (tcb s u) \<noteq> STATUS_RECEIVE_BLOCKED" using assms(7) by (auto simp: flag_wakes_def flags_due_def)
  then have 0: "kinv ?s L" "queues_ok ?s" "sched_active_thread ?s = Some t" "sched_threads ?s p = Some u"
    "status (tcb ?s u) \<noteq> STATUS_RECEIVE_BLOCKED" "queue_room (tcb ?s u)"
    using assms c by simp_all
  have "p \<noteq> sched_active_pid s" using active_pid [OF inv c(1)] assms(4,5) by auto
  then have e: "msg_send s m p = u_msg_send ?s m p True True"
    using c by (simp add: msg_send_def irq_is_in_def irq_disable_def)
  obtain s' L' where s': "u_msg_send ?s m p True True =
      (if status (tcb ?s t) = STATUS_REPLY_BLOCKED then Inr (s'\<lparr>mie := True, msip := True\<rparr>, Blocked)
       else Inr (s'\<lparr>mie := True\<rparr>, Done 1))"
    "queued (set_sender m (sched_active_pid ?s) ?s) u m s'"
    by (rule send_queue [OF 0(1-4) assms(5) 0(5,6)]) (rule that)
  note n = queuedD [OF s'(2)]
  have "status (tcb ?s t) \<noteq> STATUS_REPLY_BLOCKED" using c(2) by auto
  then have r: "msg_send s m p = Inr (s'\<lparr>mie := True\<rparr>, Done 1)" using e s'(1) by simp
  have u: "runnable (s'\<lparr>mie := True\<rparr>) u" using n(3,4) assms(4,7) by (auto simp: runnable_def live_def)
  moreover have p: "priority (tcb s' u) < priority (tcb s' t)" using n(2) assms(8) by simp
  moreover have "\<not> switch_pending s'" "sched_context_switch_request s'" "sched_active_thread s' = Some t"
    using n(5,8-10) c assms(7) by (simp_all add: switch_pending_def)
  ultimately show ?thesis using r by (intro exI [of _ "s'\<lparr>mie := True\<rparr>"]) (auto simp: prio_ok_def not_le)
qed

theorem msg_send_flag_no_switch_witness:
  "\<exists>s'. msg_send demo (7, 0) 10 = Inr (s', Done 1) \<and> runnable s' 1000 \<and> sched_active_thread s' = Some 200 \<and>
    \<not> switch_pending s' \<and> \<not> prio_ok s'"
proof -
  have "queue_room (tcb demo 1000)" by (simp add: queue_room_def demo_thread_def CIB_INIT_def cib_size_def cib_avail_def)
  moreover have "flag_wakes demo 1000"
    by (simp add: flag_wakes_def flags_due_def THREAD_FLAG_MSG_WAITING_def demo_thread_def set_flags_def)
  moreover have "sched_threads demo 10 = Some 1000" "(1000::int) \<noteq> 200" "priority (tcb demo 1000) < priority (tcb demo 200)"
    by (simp_all add: demo_threads_def)
  ultimately show ?thesis
    using msg_send_flag_no_switch [OF demo_kinv demo_queues_ok demo_context, of 10 1000 "(7, 0)"] by blast
qed

end
