(* ===== verification/Mbox.thy ===== *)
theory Mbox
  imports Msg
begin

text \<open>
  Mailboxes (\<open>core/mbox.c\<close>, \<open>core/include/mbox.h\<close>): a bounded queue of messages with a list of
  threads that wait for a message and one of threads that wait for room.
\<close>

section \<open>The operations\<close>

definition mbox_init :: "kernel \<Rightarrow> int \<Rightarrow> int \<Rightarrow> u32 \<Rightarrow> kernel" where
  "mbox_init s mbox queue queue_size =
     s\<lparr>links := (links s)(MboxReaders mbox := Null, MboxWriters mbox := Null),
       mboxes := (mboxes s)(mbox := \<lparr>mbox_cib = CIB_INIT queue_size, mbox_array = queue\<rparr>)\<rparr>"

definition set_cib :: "int \<Rightarrow> cib_t \<Rightarrow> kernel \<Rightarrow> kernel" where
  "set_cib mbox c s = s\<lparr>mboxes := (mboxes s)(mbox := (mboxes s mbox)\<lparr>mbox_cib := c\<rparr>)\<rparr>"

definition u_wake_waiter :: "kernel \<Rightarrow> tid \<Rightarrow> bool \<Rightarrow> fault + kernel" where
  "u_wake_waiter s thread irqstate =
     bindE (sched_set_status s thread STATUS_PENDING) (\<lambda>s.
       let process_priority = priority (tcb s thread) in
       sched_switch (irq_restore irqstate s) process_priority)"

definition u_wait :: "kernel \<Rightarrow> node \<Rightarrow> bool \<Rightarrow> fault + kernel" where
  "u_wait s wait_list irqstate =
     bindE (active_thread s) (\<lambda>me.
     bindE (sched_set_status s me STATUS_MBOX_BLOCKED) (\<lambda>s.
     bindE (thread_add_to_list s wait_list me) (\<lambda>s.
       thread_yield (irq_restore irqstate s))))"

text \<open>An element of the array of messages of a mailbox.\<close>

definition mbox_elem :: "kernel \<Rightarrow> int \<Rightarrow> int \<Rightarrow> fault + maddr" where
  "mbox_elem s mbox i = (if i < 0 then Inl OutOfBounds else Inr (mbox_array (mboxes s mbox), i))"

text \<open>The end of \<open>_mbox_put\<close>: the message is stored; also what a caller that had to wait does when it runs again.\<close>

definition mbox_store :: "kernel \<Rightarrow> int \<Rightarrow> maddr \<Rightarrow> bool \<Rightarrow> fault + (kernel \<times> int outcome)" where
  "mbox_store s mbox m irqstate =
     (let s = set_sender m (sched_active_pid s) s;
          (c, i) = cib_put_unsafe (mbox_cib (mboxes s mbox));
          s = set_cib mbox c s in
      bindE (mbox_elem s mbox i) (\<lambda>p.
        Inr (irq_restore irqstate (put_msg p (msgs s m) s), Done 1)))"

definition mbox_put_resume :: "kernel \<Rightarrow> int \<Rightarrow> maddr \<Rightarrow> fault + (kernel \<times> int outcome)" where
  "mbox_put_resume s mbox m = (let (s, irqstate) = irq_disable s in mbox_store s mbox m irqstate)"

definition u_mbox_put :: "kernel \<Rightarrow> int \<Rightarrow> maddr \<Rightarrow> bool \<Rightarrow> fault + (kernel \<times> int outcome)" where
  "u_mbox_put s mbox m blocking =
     (let (s, irqstate) = irq_disable s in
      bindE (list_remove_head (links s) (MboxReaders mbox)) (\<lambda>(h, next_reader).
        let s = s\<lparr>links := h\<rparr> in
        if next_reader \<noteq> Null then
          bindE (thread_of next_reader) (\<lambda>thread.
          bindE (msg_ptr (wait_data (tcb s thread))) (\<lambda>p.
          bindE (u_wake_waiter (put_msg p (msgs s m) s) thread irqstate) (\<lambda>s. Inr (s, Done 1))))
        else if cib_full (mbox_cib (mboxes s mbox)) then
          (if blocking then bindE (u_wait s (MboxWriters mbox) irqstate) (\<lambda>s. Inr (s, Blocked))
           else Inr (irq_restore irqstate s, Done 0))
        else mbox_store s mbox m irqstate))"

definition u_mbox_get :: "kernel \<Rightarrow> int \<Rightarrow> maddr \<Rightarrow> bool \<Rightarrow> fault + (kernel \<times> int outcome)" where
  "u_mbox_get s mbox m blocking =
     (let (s, irqstate) = irq_disable s in
      if cib_avail (mbox_cib (mboxes s mbox)) \<noteq> 0 then
        let (c, i) = cib_get_unsafe (mbox_cib (mboxes s mbox)); s = set_cib mbox c s in
        bindE (mbox_elem s mbox i) (\<lambda>p.
        let s = put_msg m (msgs s p) s in
        bindE (list_remove_head (links s) (MboxWriters mbox)) (\<lambda>(h, next_writer).
          let s = s\<lparr>links := h\<rparr> in
          if next_writer \<noteq> Null then
            bindE (thread_of next_writer) (\<lambda>thread.
            bindE (u_wake_waiter s thread irqstate) (\<lambda>s. Inr (s, Done 1)))
          else Inr (irq_restore irqstate s, Done 1)))
      else if blocking then
        bindE (active_thread s) (\<lambda>me.
        bindE (u_wait (upd_thread me (set_wait_data (MsgPtr m)) s) (MboxReaders mbox) irqstate) (\<lambda>s.
          Inr (s, Blocked)))
      else Inr (irq_restore irqstate s, Done 0))"

definition mbox_put :: "kernel \<Rightarrow> int \<Rightarrow> maddr \<Rightarrow> fault + (kernel \<times> int outcome)" where
  "mbox_put s mbox m = u_mbox_put s mbox m True"

definition mbox_try_put :: "kernel \<Rightarrow> int \<Rightarrow> maddr \<Rightarrow> fault + (kernel \<times> int outcome)" where
  "mbox_try_put s mbox m = u_mbox_put s mbox m False"

definition mbox_get :: "kernel \<Rightarrow> int \<Rightarrow> maddr \<Rightarrow> fault + (kernel \<times> int outcome)" where
  "mbox_get s mbox m = u_mbox_get s mbox m True"

definition mbox_try_get :: "kernel \<Rightarrow> int \<Rightarrow> maddr \<Rightarrow> fault + (kernel \<times> int outcome)" where
  "mbox_try_get s mbox m = u_mbox_get s mbox m False"

section \<open>Elementary steps\<close>

lemma set_cib_simps [simp]:
  "links (set_cib mb c s) = links s" "tcb (set_cib mb c s) = tcb s" "sched_threads (set_cib mb c s) = sched_threads s"
  "sched_active_thread (set_cib mb c s) = sched_active_thread s" "sched_active_pid (set_cib mb c s) = sched_active_pid s"
  "msgs (set_cib mb c s) = msgs s" "mie (set_cib mb c s) = mie s" "in_isr (set_cib mb c s) = in_isr s"
  "mboxes (set_cib mb c s) = (mboxes s)(mb := (mboxes s mb)\<lparr>mbox_cib := c\<rparr>)"
  "msip (set_cib mb c s) = msip s" "runqueue_bitcache (set_cib mb c s) = runqueue_bitcache s"
  "switch_pending (set_cib mb c s) = switch_pending s" "live (set_cib mb c s) t = live s t"
  "runnable (set_cib mb c s) t = runnable s t" "set_cib mb c (s\<lparr>mie := b\<rparr>) = (set_cib mb c s)\<lparr>mie := b\<rparr>"
  by (simp_all add: set_cib_def runnable_def)

lemma set_cib_kinv [simp]: "kinv (set_cib mb c s) L = kinv s L" "prio_ok (set_cib mb c s) = prio_ok s"
  by (rule iffI; erule kinv_cong; simp) (rule iffI; erule prio_ok_cong; simp)

lemma queues_ok_set_cib: "queues_ok s \<Longrightarrow> cib_inv c \<Longrightarrow> queues_ok (set_cib mb c s)"
  by (simp add: queues_ok_def)

lemma queues_ok_mbox: "queues_ok s \<Longrightarrow> cib_inv (mbox_cib (mboxes s mb))"
  by (simp add: queues_ok_def)

lemma cib_full_iff: "cib_inv c \<Longrightarrow> cib_full c \<longleftrightarrow> unat (cib_avail c) = cib_size c"
  using cib_put_guard [of c] by (auto simp: cib_full_def cib_inv_def)

text \<open>The messages in a mailbox, oldest first.\<close>

definition mbox_msgs :: "kernel \<Rightarrow> int \<Rightarrow> msg_t list" where
  "mbox_msgs s mb = map (\<lambda>i. msgs s (mbox_array (mboxes s mb), int i)) (cib_slots (mbox_cib (mboxes s mb)))"

lemma mbox_msgs_cong: "mboxes s' = mboxes s \<Longrightarrow> msgs s' = msgs s \<Longrightarrow> mbox_msgs s' mb = mbox_msgs s mb"
  by (simp add: mbox_msgs_def)

lemma mbox_msgs_irq [simp]: "mbox_msgs (s\<lparr>mie := b\<rparr>) mb = mbox_msgs s mb"
  by (rule mbox_msgs_cong) simp_all

lemma mbox_msgs_put [simp]:
  "fst q \<noteq> mbox_array (mboxes s mb) \<Longrightarrow> mbox_msgs (put_msg q v s) mb = mbox_msgs s mb"
  "fst q \<noteq> mbox_array (mboxes s mb) \<Longrightarrow> mbox_msgs (set_sender q i s) mb = mbox_msgs s mb"
  by (auto simp: mbox_msgs_def)

lemma length_mbox_msgs [simp]: "length (mbox_msgs s mb) = unat (cib_avail (mbox_cib (mboxes s mb)))"
  by (simp add: mbox_msgs_def)

text \<open>Storing in a mailbox that is not full appends the message.\<close>

lemma mbox_store_appends:
  assumes inv: "kinv s L" and q: "queues_ok s" and room: "\<not> cib_full (mbox_cib (mboxes s mb))"
  obtains s' where "mbox_store s mb m b = Inr (s'\<lparr>mie := b\<rparr>, Done 1)" and "kinv s' L" and "queues_ok s'"
    and "prio_ok s' = prio_ok s" and "tcb s' = tcb s" and "sched_threads s' = sched_threads s"
    and "sched_active_thread s' = sched_active_thread s" and "in_isr s' = in_isr s" and "links s' = links s"
    and "mbox_msgs s' mb = mbox_msgs (set_sender m (sched_active_pid s) s) mb @ [stamped s m]"
    and "\<And>x. x \<noteq> mb \<Longrightarrow> mboxes s' x = mboxes s x" and "mbox_array (mboxes s' mb) = mbox_array (mboxes s mb)"
    and "cib_size (mbox_cib (mboxes s' mb)) = cib_size (mbox_cib (mboxes s mb))" and "msip s' = msip s"
proof -
  let ?s = "set_sender m (sched_active_pid s) s" and ?c = "mbox_cib (mboxes s mb)"
  have ci: "cib_inv ?c" by (rule queues_ok_mbox [OF q])
  have lt: "unat (cib_avail ?c) < cib_size ?c"
    using room cib_full_iff [OF ci] cib.length_slots [OF ci] by simp
  let ?c' = "?c\<lparr>write_count := write_count ?c + 1\<rparr>"
  from cib_write_slots [OF ci lt] obtain i where i: "sint (write_count ?c AND cib_mask ?c) = int i" "i \<notin> set (cib_slots ?c)"
    "cib_slots ?c' = cib_slots ?c @ [i]" "cib_inv ?c'" "cib_size ?c' = cib_size ?c" by blast
  let ?p = "(mbox_array (mboxes s mb), int i)"
  let ?s' = "put_msg ?p (stamped s m) (set_cib mb ?c' ?s)"
  have e: "mbox_store s mb m b = Inr (?s'\<lparr>mie := b\<rparr>, Done 1)"
    using i(1) by (simp add: mbox_store_def cib_put_unsafe_def mbox_elem_def Let_def stamped_def)
  have q': "queues_ok ?s'" using q i(4) by (simp add: queues_ok_set_cib)
  have "mbox_msgs ?s' mb = mbox_msgs ?s mb @ [stamped s m]" using i(2,3) by (auto simp: mbox_msgs_def)
  then show thesis using inv q' i(5) by (intro that [OF e]) simp_all
qed

text \<open>A thread that waits is made runnable; the switch happens if it is more urgent.\<close>

lemma wake_waiter_wakes:
  assumes inv: "kinv s L" and prio: "prio_ok s" and act: "sched_active_thread s = Some a"
    and w: "live s w" "status (tcb s w) = STATUS_MBOX_BLOCKED" and free: "\<And>l. w \<notin> set (L l)"
  obtains s' L' where "u_wake_waiter s w b = Inr s'" and "kinv s' L'" and "prio_ok s'"
    and "tcb s' = (tcb s)(w := (tcb s w)\<lparr>status := STATUS_PENDING\<rparr>)" and "msgs s' = msgs s" and "mboxes s' = mboxes s"
    and "sched_threads s' = sched_threads s" and "sched_active_thread s' = Some a" and "mie s' = b" and "in_isr s' = in_isr s"
    and "\<And>l. \<not> is_runqueue l \<Longrightarrow> L' l = L l"
    and "on_runqueue (status (tcb s a)) \<Longrightarrow> priority (tcb s a) \<le> priority (tcb s w) \<Longrightarrow> msip s' = msip s"
proof -
  let ?p = "priority (tcb s w)"
  have 0: "\<not> on_runqueue (status (tcb s w))" "on_runqueue STATUS_PENDING" "a \<noteq> w \<or> switch_pending s" "?p \<le> ?p"
    using w(2) prio_ok_blocked [OF prio, of w] act by auto
  obtain s1 s2 h c where r: "sched_set_status s w STATUS_PENDING = Inr s1"
    "s1 = upd_thread w (set_status STATUS_PENDING) (s\<lparr>links := h, runqueue_bitcache := c\<rparr>)"
    "sched_switch (s1\<lparr>mie := b\<rparr>) ?p = Inr s2" "kinv s2 (L(RunQueue ?p := L (RunQueue ?p) @ [w]))" "prio_ok s2"
    "only_requests (s1\<lparr>mie := b\<rparr>) s2"
    by (rule wake_switch [OF inv prio w(1) 0(1,2) free act 0(3,4), of b]) (rule that)
  have "u_wake_waiter s w b = Inr s2"
    using r(1,3) by (simp add: u_wake_waiter_def Let_def) (simp add: r(2))
  moreover have "msip s2 = msip s" if "on_runqueue (status (tcb s a))" "priority (tcb s a) \<le> ?p"
    using r(3) that act by (simp add: sched_switch_def r(2) Let_def split: if_splits) auto
  ultimately show thesis
    using r(4-6) act by (intro that [of s2 "L(RunQueue ?p := L (RunQueue ?p) @ [w])"])
      (auto simp: only_requests_def r(2) set_status_def)
qed

text \<open>The caller blocks in one of the lists of a mailbox.\<close>

lemma wait_blocks:
  assumes inv: "kinv s L" and act: "sched_active_thread s = Some t"
    and on: "on_runqueue (status (tcb s t))" and head: "L (RunQueue (priority (tcb s t))) = t # ts"
    and l: "l = MboxWriters mb \<or> l = MboxReaders mb \<and> is_msg (wait_data (tcb s t))"
  obtains s' L' where "u_wait s l b = Inr s'" and "kinv s' L'" and "msip s'" and "mie s' = b" and "in_isr s' = in_isr s"
    and "tcb s' = (tcb s)(t := (tcb s t)\<lparr>status := STATUS_MBOX_BLOCKED\<rparr>)" and "msgs s' = msgs s" and "mboxes s' = mboxes s"
    and "sched_threads s' = sched_threads s" and "sched_active_thread s' = Some t"
    and "L' l = insert_waiter s t (L l)" and "\<And>x. x \<noteq> l \<Longrightarrow> \<not> is_runqueue x \<Longrightarrow> L' x = L x"
proof -
  have 0: "\<not> is_runqueue l" "\<not> is_entry l" "links s l \<noteq> Tagged" "STATUS_MBOX_BLOCKED \<in> waiting_status l"
    "data_fits STATUS_MBOX_BLOCKED (wait_data (tcb s t))" "\<forall>m. l = MboxReaders m \<longrightarrow> is_msg (wait_data (tcb s t))"
    using l kinv_not_tagged [OF inv, of l] by auto
  let ?L = "L(RunQueue (priority (tcb s t)) := ts, l := insert_waiter s t (L l))"
  obtain s1 s2 h c where r: "sched_set_status s t STATUS_MBOX_BLOCKED = Inr s1" "thread_add_to_list s1 l t = Inr s2"
    "s2 = upd_thread t (set_status STATUS_MBOX_BLOCKED) (s\<lparr>links := h, runqueue_bitcache := c\<rparr>)" "kinv s2 ?L"
    by (rule block_on_list [OF inv act on head 0]) (rule that)
  let ?s' = "s2\<lparr>mie := b, msip := True\<rparr>"
  have "thread_yield (s2\<lparr>mie := b\<rparr>) = Inr ?s'"
    using act by (simp add: thread_yield_def irq_disable_def thread_yield_higher_def) (simp add: r(3))
  then have "u_wait s l b = Inr ?s'" using act r(1,2) by (simp add: u_wait_def)
  moreover have "kinv ?s' ?L" using r(4) by (intro kinv_yield) simp
  ultimately show thesis using act 0(1) by (intro that [of ?s' ?L]) (auto simp: r(3) set_status_def)
qed

section \<open>Putting a message\<close>

lemma no_mbox_waiter:
  assumes "kinv s L" and "l = MboxReaders mb \<or> l = MboxWriters mb" and "L l = []"
  shows "list_remove_head (links s) l = Inr (links s, Null)"
proof -
  have "slist (links s) l []" using kinv_queue_at [OF assms(1), of l] assms(2,3) by auto
  then show ?thesis by simp
qed

lemma put_hands_over:
  assumes inv: "kinv s L" and prio: "prio_ok s" and act: "sched_active_thread s = Some a"
    and w: "L (MboxReaders mb) = w # ws"
  obtains q s' L' where "wait_data (tcb s w) = MsgPtr q" and "u_mbox_put s mb m blocking = Inr (s', Done 1)" and "kinv s' L'"
    and "prio_ok s'" and "call_frame s s'" and "L' (MboxReaders mb) = ws" and "msgs s' = (msgs s)(q := msgs s m)"
    and "tcb s' = (tcb s)(w := (tcb s w)\<lparr>status := STATUS_PENDING\<rparr>)" and "mboxes s' = mboxes s"
proof -
  let ?l = "MboxReaders mb" and ?s = "s\<lparr>mie := False\<rparr>"
  have inv': "kinv ?s L" using inv by simp
  obtain h where h: "list_remove_head (links ?s) ?l = Inr (h, Ptr (RqEntry w))"
    "kinv (?s\<lparr>links := h\<rparr>) (L(?l := ws))" "\<And>l'. w \<notin> set ((L(?l := ws)) l')"
    by (rule kinv_remove_head [where l = ?l, OF inv' _ w], simp) (rule that)
  obtain q where q: "wait_data (tcb s w) = MsgPtr q"
    using kinv_reader [OF inv, of w mb] w by (cases "wait_data (tcb s w)") auto
  let ?s1 = "put_msg q (msgs s m) (?s\<lparr>links := h\<rparr>)"
  have "prio_ok (?s\<lparr>links := h\<rparr>)" using prio by (rule prio_ok_cong) (simp_all add: switch_pending_def)
  then have 0: "kinv ?s1 (L(?l := ws))" "prio_ok ?s1" "sched_active_thread ?s1 = Some a" "live ?s1 w"
    "status (tcb ?s1 w) = STATUS_MBOX_BLOCKED"
    using h(2) act kinv_waiter [OF inv, of w ?l] w by simp_all
  obtain s' L' where r: "u_wake_waiter ?s1 w (mie s) = Inr s'" "kinv s' L'" "prio_ok s'"
    "tcb s' = (tcb ?s1)(w := (tcb ?s1 w)\<lparr>status := STATUS_PENDING\<rparr>)" "msgs s' = msgs ?s1" "mboxes s' = mboxes ?s1"
    "sched_threads s' = sched_threads ?s1" "sched_active_thread s' = Some a" "mie s' = mie s" "in_isr s' = in_isr ?s1"
    "\<And>l. \<not> is_runqueue l \<Longrightarrow> L' l = (L(?l := ws)) l"
    by (rule wake_waiter_wakes [where L = "L(?l := ws)", OF 0 h(3)]) (rule that)
  have e: "u_mbox_put s mb m blocking = Inr (s', Done 1)"
    using h(1) q r(1) by (simp add: u_mbox_put_def irq_disable_def)
  have "call_frame s s'" using r(4-10) act by (intro call_frameI) auto
  then show thesis using q e r by (intro that [of q s' L']) simp_all
qed

lemma put_stores:
  assumes inv: "kinv s L" and prio: "prio_ok s" and q: "queues_ok s"
    and none: "L (MboxReaders mb) = []" and room: "\<not> cib_full (mbox_cib (mboxes s mb))"
  obtains s' where "u_mbox_put s mb m blocking = Inr (s', Done 1)" and "kinv s' L" and "prio_ok s'" and "call_frame s s'"
    and "mbox_msgs s' mb = mbox_msgs (set_sender m (sched_active_pid s) s) mb @ [stamped s m]"
    and "tcb s' = tcb s" and "sched_threads s' = sched_threads s"
    and "cib_size (mbox_cib (mboxes s' mb)) = cib_size (mbox_cib (mboxes s mb))" and "queues_ok s'"
proof -
  let ?s = "s\<lparr>mie := False\<rparr>"
  have 0: "kinv ?s L" "queues_ok ?s" "\<not> cib_full (mbox_cib (mboxes ?s mb))" using inv q room by simp_all
  obtain s' where s': "mbox_store ?s mb m (mie s) = Inr (s'\<lparr>mie := mie s\<rparr>, Done 1)" "kinv s' L" "queues_ok s'"
    "prio_ok s' = prio_ok ?s" "tcb s' = tcb ?s" "sched_threads s' = sched_threads ?s"
    "sched_active_thread s' = sched_active_thread ?s" "in_isr s' = in_isr ?s"
    "mbox_msgs s' mb = mbox_msgs (set_sender m (sched_active_pid ?s) ?s) mb @ [stamped ?s m]"
    "cib_size (mbox_cib (mboxes s' mb)) = cib_size (mbox_cib (mboxes ?s mb))"
    by (rule mbox_store_appends [OF 0]) (rule that)
  have "list_remove_head (links s) (MboxReaders mb) = Inr (links s, Null)"
    by (rule no_mbox_waiter [OF inv _ none]) simp
  then have e: "u_mbox_put s mb m blocking = Inr (s'\<lparr>mie := mie s\<rparr>, Done 1)"
    using room s'(1) by (simp add: u_mbox_put_def irq_disable_def)
  have "call_frame s (s'\<lparr>mie := mie s\<rparr>)" using s'(3,5-8) by (intro call_frameI_queues) auto
  then show thesis using s' prio by (intro that [OF e]) (simp_all add: stamped_def)
qed

lemma put_full:
  assumes inv: "kinv s L" and none: "L (MboxReaders mb) = []" and full: "cib_full (mbox_cib (mboxes s mb))"
  shows "u_mbox_put s mb m False = Inr (s, Done 0)"
    and "thread_context s t \<Longrightarrow> \<exists>s' L'. u_mbox_put s mb m True = Inr (s', Blocked) \<and> kinv s' L' \<and> msip s' \<and> call_frame s s' \<and>
      status (tcb s' t) = STATUS_MBOX_BLOCKED \<and> L' (MboxWriters mb) = insert_waiter s t (L (MboxWriters mb)) \<and>
      mbox_msgs s' mb = mbox_msgs s mb"
proof -
  have n: "list_remove_head (links s) (MboxReaders mb) = Inr (links s, Null)"
    by (rule no_mbox_waiter [OF inv _ none]) simp
  show "u_mbox_put s mb m False = Inr (s, Done 0)"
    using n full by (simp add: u_mbox_put_def irq_disable_def)
  assume ctx: "thread_context s t"
  note c = thread_contextD [OF ctx]
  let ?s = "s\<lparr>mie := False\<rparr>"
  obtain ts where ts: "L (RunQueue (priority (tcb s t))) = t # ts" using kinv_active(3) [OF inv c(1,2,6)] by auto
  have 0: "kinv ?s L" "sched_active_thread ?s = Some t" "on_runqueue (status (tcb ?s t))" "L (RunQueue (priority (tcb ?s t))) = t # ts"
    "MboxWriters mb = MboxWriters mb \<or> MboxWriters mb = MboxReaders mb \<and> is_msg (wait_data (tcb ?s t))"
    using inv c ts by simp_all
  obtain s' L' where r: "u_wait ?s (MboxWriters mb) True = Inr s'" "kinv s' L'" "msip s'" "mie s' = True" "in_isr s' = in_isr ?s"
    "tcb s' = (tcb ?s)(t := (tcb ?s t)\<lparr>status := STATUS_MBOX_BLOCKED\<rparr>)" "msgs s' = msgs ?s" "mboxes s' = mboxes ?s"
    "sched_threads s' = sched_threads ?s" "sched_active_thread s' = Some t"
    "L' (MboxWriters mb) = insert_waiter ?s t (L (MboxWriters mb))"
    by (rule wait_blocks [OF 0]) (rule that)
  have "u_mbox_put s mb m True = Inr (s', Blocked)"
    using n full c r(1) by (simp add: u_mbox_put_def irq_disable_def)
  moreover have "call_frame s s'" using r(4-10) c by (intro call_frameI) auto
  moreover have "insert_waiter ?s t (L (MboxWriters mb)) = insert_waiter s t (L (MboxWriters mb))"
    by (rule insert_waiter_cong) simp
  moreover have "mbox_msgs s' mb = mbox_msgs s mb" using r(7,8) by (intro mbox_msgs_cong) simp_all
  ultimately show "\<exists>s' L'. u_mbox_put s mb m True = Inr (s', Blocked) \<and> kinv s' L' \<and> msip s' \<and> call_frame s s' \<and>
      status (tcb s' t) = STATUS_MBOX_BLOCKED \<and> L' (MboxWriters mb) = insert_waiter s t (L (MboxWriters mb)) \<and>
      mbox_msgs s' mb = mbox_msgs s mb"
    using r(2,3,6,11) by (intro exI [of _ s'] exI [of _ L']) simp
qed

section \<open>Getting a message\<close>

text \<open>The oldest message is copied to the caller and its slot is free.\<close>

lemma get_first:
  assumes inv: "kinv s L" and q: "queues_ok s" and msg: "mbox_msgs s mb = v # vs"
  obtains c i where "cib_get_unsafe (mbox_cib (mboxes s mb)) = (c, int i)" and "cib_avail (mbox_cib (mboxes s mb)) \<noteq> 0"
    and "msgs s (mbox_array (mboxes s mb), int i) = v" and "queues_ok (set_cib mb c s)"
    and "mbox_msgs (set_cib mb c s) mb = vs" and "cib_size c = cib_size (mbox_cib (mboxes s mb))"
proof -
  let ?c = "mbox_cib (mboxes s mb)"
  have ci: "cib_inv ?c" by (rule queues_ok_mbox [OF q])
  have av: "cib_avail ?c \<noteq> 0" using msg by (auto simp: mbox_msgs_def cib_slots_def)
  let ?c' = "?c\<lparr>read_count := read_count ?c + 1\<rparr>"
  from cib_read_slots [OF ci av] obtain i where i: "sint (read_count ?c AND cib_mask ?c) = int i"
    "cib_slots ?c = i # cib_slots ?c'" "cib_inv ?c'" "cib_size ?c' = cib_size ?c" by blast
  have "cib_get_unsafe ?c = (?c', int i)" using i(1) by (simp add: cib_get_unsafe_def)
  then show thesis using av i msg queues_ok_set_cib [OF q i(3)]
    by (intro that [of ?c' i]) (simp_all add: mbox_msgs_def)
qed

lemma get_takes:
  assumes inv: "kinv s L" and prio: "prio_ok s" and q: "queues_ok s" and act: "sched_active_thread s = Some a"
    and msg: "mbox_msgs s mb = v # vs"
  obtains s' L' where "u_mbox_get s mb m blocking = Inr (s', Done 1)" and "kinv s' L'" and "prio_ok s'" and "call_frame s s'"
    and "msgs s' = (msgs s)(m := v)" and "fst m \<noteq> mbox_array (mboxes s mb) \<Longrightarrow> mbox_msgs s' mb = vs"
    and "L' (MboxWriters mb) = tl (L (MboxWriters mb))"
    and "\<And>w ws. L (MboxWriters mb) = w # ws \<Longrightarrow> status (tcb s' w) = STATUS_PENDING"
    and "\<And>l. \<not> is_runqueue l \<Longrightarrow> l \<noteq> MboxWriters mb \<Longrightarrow> L' l = L l"
    and "cib_size (mbox_cib (mboxes s' mb)) = cib_size (mbox_cib (mboxes s mb))"
    and "sched_threads s' = sched_threads s" and "queues_ok s'"
    and "\<And>w ws. L (MboxWriters mb) = w # ws \<Longrightarrow> on_runqueue (status (tcb s a)) \<Longrightarrow>
           priority (tcb s a) \<le> priority (tcb s w) \<Longrightarrow> msip s' = msip s"
    and "status (tcb s' a) = status (tcb s a) \<or> \<not> on_runqueue (status (tcb s a))"
    and "mbox_array (mboxes s' mb) = mbox_array (mboxes s mb)"
proof -
  obtain c i where g: "cib_get_unsafe (mbox_cib (mboxes s mb)) = (c, int i)" "cib_avail (mbox_cib (mboxes s mb)) \<noteq> 0"
    "msgs s (mbox_array (mboxes s mb), int i) = v" "queues_ok (set_cib mb c s)" "mbox_msgs (set_cib mb c s) mb = vs"
    "cib_size c = cib_size (mbox_cib (mboxes s mb))"
    by (rule get_first [OF inv q msg]) (rule that)
  let ?l = "MboxWriters mb" and ?s = "put_msg m v (set_cib mb c s\<lparr>mie := False\<rparr>)"
  have 0: "kinv ?s L" "prio_ok ?s" "queues_ok ?s" "sched_active_thread ?s = Some a" using inv prio g(4) act by simp_all
  have mm: "fst m \<noteq> mbox_array (mboxes s mb) \<Longrightarrow> mbox_msgs (put_msg m v (set_cib mb c s)) mb = vs" using g(5) by simp
  show thesis
  proof (cases "L ?l")
    case Nil
    then have "list_remove_head (links s) ?l = Inr (links s, Null)" by (intro no_mbox_waiter [OF inv]) simp_all
    moreover have "?s\<lparr>links := links s\<rparr> = ?s" by (simp add: put_msg_def set_cib_def)
    ultimately have e: "u_mbox_get s mb m blocking = Inr (put_msg m v (set_cib mb c s)\<lparr>mie := mie s\<rparr>, Done 1)"
      using g by (simp add: u_mbox_get_def irq_disable_def mbox_elem_def Let_def)
    have "call_frame s (put_msg m v (set_cib mb c s)\<lparr>mie := mie s\<rparr>)"
      using g(4) by (intro call_frameI_queues) simp_all
    then show thesis using 0 Nil mm g(4,6) by (intro that [OF e, of L]) simp_all
  next
    case (Cons w ws)
    obtain h where h: "list_remove_head (links ?s) ?l = Inr (h, Ptr (RqEntry w))"
      "kinv (?s\<lparr>links := h\<rparr>) (L(?l := ws))" "\<And>l'. w \<notin> set ((L(?l := ws)) l')"
      by (rule kinv_remove_head [where l = ?l, OF 0(1) _ Cons], simp) (rule that)
    let ?s1 = "?s\<lparr>links := h\<rparr>"
    have "prio_ok ?s1" using 0(2) by (rule prio_ok_cong) (simp_all add: switch_pending_def)
    then have 1: "prio_ok ?s1" "sched_active_thread ?s1 = Some a" "live ?s1 w" "status (tcb ?s1 w) = STATUS_MBOX_BLOCKED"
      using act kinv_waiter [OF inv, of w ?l] Cons by simp_all
    obtain s' L' where r: "u_wake_waiter ?s1 w (mie s) = Inr s'" "kinv s' L'" "prio_ok s'"
      "tcb s' = (tcb ?s1)(w := (tcb ?s1 w)\<lparr>status := STATUS_PENDING\<rparr>)" "msgs s' = msgs ?s1" "mboxes s' = mboxes ?s1"
      "sched_threads s' = sched_threads ?s1" "sched_active_thread s' = Some a" "mie s' = mie s" "in_isr s' = in_isr ?s1"
      "\<And>l. \<not> is_runqueue l \<Longrightarrow> L' l = (L(?l := ws)) l"
      "on_runqueue (status (tcb ?s1 a)) \<Longrightarrow> priority (tcb ?s1 a) \<le> priority (tcb ?s1 w) \<Longrightarrow> msip s' = msip ?s1"
      by (rule wake_waiter_wakes [where L = "L(?l := ws)", OF h(2) 1 h(3)]) (rule that)
    have e: "u_mbox_get s mb m blocking = Inr (s', Done 1)"
      using g h(1) r(1) by (simp add: u_mbox_get_def irq_disable_def mbox_elem_def Let_def)
    have qs: "queues_ok s'" by (rule queues_ok_cong [OF 0(3)]) (use r(4,6,7) in \<open>auto simp: live_def\<close>)
    have "call_frame s s'" using r(4,7-10) act qs by (intro call_frameI_queues) auto
    moreover have "mbox_msgs s' mb = mbox_msgs (put_msg m v (set_cib mb c s)) mb" using r(5,6) by (intro mbox_msgs_cong) simp_all
    moreover have "status (tcb s' a) = status (tcb s a) \<or> \<not> on_runqueue (status (tcb s a))"
      using r(4) 1(4) by auto
    ultimately show thesis using r qs Cons mm g(6) by (intro that [OF e, of L']) simp_all
  qed
qed

lemma get_empty:
  assumes inv: "kinv s L" and q: "queues_ok s" and none: "mbox_msgs s mb = []"
  shows "u_mbox_get s mb m False = Inr (s, Done 0)"
    and "thread_context s t \<Longrightarrow> \<exists>s' L'. u_mbox_get s mb m True = Inr (s', Blocked) \<and> kinv s' L' \<and> msip s' \<and> call_frame s s' \<and>
      tcb s' t = (tcb s t)\<lparr>wait_data := MsgPtr m, status := STATUS_MBOX_BLOCKED\<rparr> \<and>
      L' (MboxReaders mb) = insert_waiter s t (L (MboxReaders mb))"
proof -
  have "length (mbox_msgs s mb) = 0" using none by simp
  then have av: "cib_avail (mbox_cib (mboxes s mb)) = 0" by (simp add: unat_eq_zero)
  then show "u_mbox_get s mb m False = Inr (s, Done 0)" by (simp add: u_mbox_get_def irq_disable_def)
  assume ctx: "thread_context s t"
  note c = thread_contextD [OF ctx]
  let ?s = "upd_thread t (set_wait_data (MsgPtr m)) s\<lparr>mie := False\<rparr>" and ?l = "MboxReaders mb"
  obtain ts where ts: "L (RunQueue (priority (tcb s t))) = t # ts" using kinv_active(3) [OF inv c(1,2,6)] by auto
  have 0: "kinv ?s L" using kinv_upd_wait_data [OF inv c(2), of "set_wait_data (MsgPtr m)"] by simp
  have 1: "sched_active_thread ?s = Some t" "on_runqueue (status (tcb ?s t))" "L (RunQueue (priority (tcb ?s t))) = t # ts"
    "?l = MboxWriters mb \<or> ?l = MboxReaders mb \<and> is_msg (wait_data (tcb ?s t))"
    using c ts by simp_all
  obtain s' L' where r: "u_wait ?s ?l True = Inr s'" "kinv s' L'" "msip s'" "mie s' = True" "in_isr s' = in_isr ?s"
    "tcb s' = (tcb ?s)(t := (tcb ?s t)\<lparr>status := STATUS_MBOX_BLOCKED\<rparr>)" "msgs s' = msgs ?s" "mboxes s' = mboxes ?s"
    "sched_threads s' = sched_threads ?s" "sched_active_thread s' = Some t" "L' ?l = insert_waiter ?s t (L ?l)"
    by (rule wait_blocks [OF 0 1]) (rule that)
  have "u_mbox_get s mb m True = Inr (s', Blocked)"
    using av c r(1) by (simp add: u_mbox_get_def irq_disable_def)
  moreover have "call_frame s s'" using r(4-10) c by (intro call_frameI) auto
  moreover have "insert_waiter ?s t (L ?l) = insert_waiter s t (L ?l)" by (rule insert_waiter_cong) simp
  ultimately show "\<exists>s' L'. u_mbox_get s mb m True = Inr (s', Blocked) \<and> kinv s' L' \<and> msip s' \<and> call_frame s s' \<and>
      tcb s' t = (tcb s t)\<lparr>wait_data := MsgPtr m, status := STATUS_MBOX_BLOCKED\<rparr> \<and>
      L' (MboxReaders mb) = insert_waiter s t (L (MboxReaders mb))"
    using r(2,3,6,11) by (intro exI [of _ s'] exI [of _ L']) (simp add: set_wait_data_def)
qed

section \<open>The calls keep their contract\<close>

definition mbox_ctx :: "kernel \<Rightarrow> bool \<Rightarrow> bool" where
  "mbox_ctx s blocking \<longleftrightarrow>
     queues_ok s \<and> sched_active_thread s \<noteq> None \<and> (blocking \<longrightarrow> (\<exists>t. thread_context s t))"

interpretation mbox_init: kernel_call
  "\<lambda>s L. L (MboxReaders mb) = [] \<and> L (MboxWriters mb) = [] \<and> cib_inv (CIB_INIT num)"
  "\<lambda>s. Inr (mbox_init s mb arr num, ())" for mb arr num
proof unfold_locales
  fix s L
  assume inv: "kinv s L" and prio: "prio_ok s"
    and ctx: "L (MboxReaders mb) = [] \<and> L (MboxWriters mb) = [] \<and> cib_inv (CIB_INIT num)"
  let ?s = "s\<lparr>mboxes := (mboxes s)(mb := \<lparr>mbox_cib = CIB_INIT num, mbox_array = arr\<rparr>)\<rparr>"
  have "links s (MboxReaders mb) = Null" "links s (MboxWriters mb) = Null"
    using ctx by (intro kinv_no_waiter [OF inv]; simp)+
  then have "mbox_init s mb arr num = ?s" by (simp add: mbox_init_def fun_upd_idem)
  moreover have "kinv ?s L" by (rule kinv_cong [OF inv]) simp_all
  moreover have "prio_ok ?s" by (rule prio_ok_cong [OF prio]) (simp_all add: runnable_def)
  moreover have "call_frame s ?s" by (rule call_frameI_queues) (use ctx in \<open>auto simp: queues_ok_def\<close>)
  ultimately show "\<exists>s' r L'. Inr (mbox_init s mb arr num, ()) = Inr (s', r) \<and> kinv s' L' \<and> prio_ok s' \<and> call_frame s s'"
    by auto
qed

interpretation mbox_put: kernel_call "\<lambda>s L. mbox_ctx s blocking" "\<lambda>s. u_mbox_put s mb m blocking" for mb m blocking
proof unfold_locales
  fix s L
  assume inv: "kinv s L" and prio: "prio_ok s" and ctx: "mbox_ctx s blocking"
  then obtain a where q: "queues_ok s" and a: "sched_active_thread s = Some a" by (auto simp: mbox_ctx_def)
  show "\<exists>s' r L'. u_mbox_put s mb m blocking = Inr (s', r) \<and> kinv s' L' \<and> prio_ok s' \<and> call_frame s s'"
  proof (cases "L (MboxReaders mb)")
    case (Cons w ws)
    obtain s' L' where "u_mbox_put s mb m blocking = Inr (s', Done 1)" "kinv s' L'" "prio_ok s'" "call_frame s s'"
      by (rule put_hands_over [OF inv prio a Cons]) (rule that)
    then show ?thesis by blast
  next
    case Nil
    show ?thesis
    proof (cases "cib_full (mbox_cib (mboxes s mb))")
      case False
      obtain s' where "u_mbox_put s mb m blocking = Inr (s', Done 1)" "kinv s' L" "prio_ok s'" "call_frame s s'"
        by (rule put_stores [OF inv prio q Nil False]) (rule that)
      then show ?thesis by blast
    next
      case True
      from ctx obtain t where "blocking \<Longrightarrow> thread_context s t" by (auto simp: mbox_ctx_def)
      then show ?thesis using put_full(1) [OF inv Nil True, of m] put_full(2) [OF inv Nil True, of t m] inv prio
        by (cases blocking) (auto intro: prio_ok_msip)
    qed
  qed
qed

interpretation mbox_get: kernel_call "\<lambda>s L. mbox_ctx s blocking" "\<lambda>s. u_mbox_get s mb m blocking" for mb m blocking
proof unfold_locales
  fix s L
  assume inv: "kinv s L" and prio: "prio_ok s" and ctx: "mbox_ctx s blocking"
  then obtain a where q: "queues_ok s" and a: "sched_active_thread s = Some a" by (auto simp: mbox_ctx_def)
  show "\<exists>s' r L'. u_mbox_get s mb m blocking = Inr (s', r) \<and> kinv s' L' \<and> prio_ok s' \<and> call_frame s s'"
  proof (cases "mbox_msgs s mb")
    case Nil
    from ctx obtain t where "blocking \<Longrightarrow> thread_context s t" by (auto simp: mbox_ctx_def)
    then show ?thesis using get_empty(1) [OF inv q Nil, of m] get_empty(2) [OF inv q Nil, of t m] inv prio
      by (cases blocking) (auto intro: prio_ok_msip)
  next
    case (Cons v vs)
    obtain s' L' where "u_mbox_get s mb m blocking = Inr (s', Done 1)" "kinv s' L'" "prio_ok s'" "call_frame s s'"
      by (rule get_takes [OF inv prio q a Cons]) (rule that)
    then show ?thesis by blast
  qed
qed

text \<open>A writer that waited may store its message if there is still room when it runs; the code does not check.\<close>

interpretation mbox_put_resume: kernel_call
  "\<lambda>s L. queues_ok s \<and> (\<exists>t. thread_context s t) \<and> \<not> cib_full (mbox_cib (mboxes s mb))" "\<lambda>s. mbox_put_resume s mb m" for mb m
proof unfold_locales
  fix s L
  assume inv: "kinv s L" and prio: "prio_ok s"
    and ctx: "queues_ok s \<and> (\<exists>t. thread_context s t) \<and> \<not> cib_full (mbox_cib (mboxes s mb))"
  let ?s = "s\<lparr>mie := False\<rparr>"
  have 0: "kinv ?s L" "queues_ok ?s" "\<not> cib_full (mbox_cib (mboxes ?s mb))" using inv ctx by simp_all
  obtain s' where s': "mbox_store ?s mb m (mie s) = Inr (s'\<lparr>mie := mie s\<rparr>, Done 1)" "kinv s' L" "queues_ok s'"
    "prio_ok s' = prio_ok ?s" "tcb s' = tcb ?s" "sched_threads s' = sched_threads ?s"
    "sched_active_thread s' = sched_active_thread ?s" "in_isr s' = in_isr ?s"
    by (rule mbox_store_appends [OF 0]) (rule that)
  have "call_frame s (s'\<lparr>mie := mie s\<rparr>)" using s'(3,5-8) by (intro call_frameI_queues) auto
  then show "\<exists>s' r L'. mbox_put_resume s mb m = Inr (s', r) \<and> kinv s' L' \<and> prio_ok s' \<and> call_frame s s'"
    using s'(1,2,4) prio by (intro exI [of _ "s'\<lparr>mie := mie s\<rparr>"]) (auto simp: mbox_put_resume_def irq_disable_def)
qed

section \<open>Properties\<close>

text \<open>
  C14: A mailbox is a bounded FIFO queue: \<open>mbox_put\<close> hands the message to the first thread that waits
  for one; otherwise it appends it, unless the mailbox holds as many messages as it has slots,
  when the caller waits in the list of writers behind the threads at least as urgent.
\<close>

theorem mbox_put_appends:
  assumes "kinv s L" and "prio_ok s" and "queues_ok s" and "thread_context s t" and "fst m \<noteq> mbox_array (mboxes s mb)"
  shows "\<exists>s' L'. kinv s' L' \<and> prio_ok s' \<and>
    (case L (MboxReaders mb) of
       w # ws \<Rightarrow> mbox_put s mb m = Inr (s', Done 1) \<and> L' (MboxReaders mb) = ws \<and> status (tcb s' w) = STATUS_PENDING \<and>
         (\<exists>q. wait_data (tcb s w) = MsgPtr q \<and> msgs s' q = msgs s m)
     | [] \<Rightarrow>
         if length (mbox_msgs s mb) < cib_size (mbox_cib (mboxes s mb)) then
           mbox_put s mb m = Inr (s', Done 1) \<and> L' = L \<and>
           mbox_msgs s' mb = mbox_msgs s mb @ [(msgs s m)\<lparr>sender_pid := sched_active_pid s\<rparr>]
         else
           mbox_put s mb m = Inr (s', Blocked) \<and> status (tcb s' t) = STATUS_MBOX_BLOCKED \<and> switch_pending s' \<and>
           L' (MboxWriters mb) = insert_waiter s t (L (MboxWriters mb)) \<and> mbox_msgs s' mb = mbox_msgs s mb)"
proof (cases "L (MboxReaders mb)")
  case (Cons w ws)
  obtain q s' L' where "wait_data (tcb s w) = MsgPtr q" "u_mbox_put s mb m True = Inr (s', Done 1)" "kinv s' L'" "prio_ok s'"
    "L' (MboxReaders mb) = ws" "msgs s' = (msgs s)(q := msgs s m)"
    "tcb s' = (tcb s)(w := (tcb s w)\<lparr>status := STATUS_PENDING\<rparr>)"
    by (rule put_hands_over [OF assms(1,2) thread_contextD(1) [OF assms(4)] Cons]) (rule that)
  then show ?thesis using Cons by (intro exI [of _ s'] exI [of _ L']) (simp add: mbox_put_def)
next
  case Nil
  note ci = queues_ok_mbox [OF assms(3), of mb]
  have full: "cib_full (mbox_cib (mboxes s mb)) \<longleftrightarrow> \<not> length (mbox_msgs s mb) < cib_size (mbox_cib (mboxes s mb))"
    using cib_full_iff [OF ci] cib.length_slots [OF ci] by auto
  show ?thesis
  proof (cases "cib_full (mbox_cib (mboxes s mb))")
    case False
    obtain s' where "u_mbox_put s mb m True = Inr (s', Done 1)" "kinv s' L" "prio_ok s'"
      "mbox_msgs s' mb = mbox_msgs (set_sender m (sched_active_pid s) s) mb @ [stamped s m]"
      by (rule put_stores [OF assms(1-3) Nil False]) (rule that)
    then show ?thesis using Nil False full assms(5)
      by (intro exI [of _ s'] exI [of _ L]) (simp add: mbox_put_def stamped_def)
  next
    case True
    then show ?thesis using put_full(2) [OF assms(1) Nil True assms(4), where m = m] Nil full
      by (auto simp: mbox_put_def switch_pending_def prio_ok_msip)
  qed
qed

theorem mbox_put_appends_witness:
  "\<exists>s' L'. kinv s' L' \<and> prio_ok s' \<and> mbox_put demo 3 (7, 0) = Inr (s', Done 1) \<and>
     mbox_msgs s' 3 = [(msgs demo (7, 0))\<lparr>sender_pid := 2\<rparr>]"
proof -
  have "fst (7, 0 :: int) \<noteq> mbox_array (mboxes demo 3)" "length (mbox_msgs demo 3) < cib_size (mbox_cib (mboxes demo 3))"
    by (simp_all add: demo_def CIB_INIT_def cib_avail_def cib_size_def)
  moreover have "mbox_msgs demo 3 = []" by (simp add: mbox_msgs_def demo_def CIB_INIT_def cib_slots_def cib_avail_def)
  ultimately show ?thesis
    using mbox_put_appends [OF demo_kinv demo_prio_ok demo_queues_ok demo_context, of "(7, 0)" 3] by auto
qed

text \<open>
  C15: \<open>mbox_get\<close> copies the oldest message to the caller, keeps the others in their order and makes the
  first waiting writer runnable; with no message the caller waits in the list of readers.
\<close>

theorem mbox_get_oldest:
  assumes "kinv s L" and "prio_ok s" and "queues_ok s" and "thread_context s t" and "fst m \<noteq> mbox_array (mboxes s mb)"
  shows "\<exists>s' L'. kinv s' L' \<and> prio_ok s' \<and>
    (case mbox_msgs s mb of
       v # vs \<Rightarrow> mbox_get s mb m = Inr (s', Done 1) \<and> msgs s' m = v \<and> mbox_msgs s' mb = vs \<and>
         L' (MboxWriters mb) = tl (L (MboxWriters mb)) \<and>
         (\<forall>w. w \<in> set (take 1 (L (MboxWriters mb))) \<longrightarrow> status (tcb s' w) = STATUS_PENDING)
     | [] \<Rightarrow> mbox_get s mb m = Inr (s', Blocked) \<and> status (tcb s' t) = STATUS_MBOX_BLOCKED \<and>
         wait_data (tcb s' t) = MsgPtr m \<and> L' (MboxReaders mb) = insert_waiter s t (L (MboxReaders mb)))"
proof (cases "mbox_msgs s mb")
  case Nil
  then show ?thesis using get_empty(2) [OF assms(1,3) Nil assms(4), where m = m] by (auto simp: mbox_get_def prio_ok_msip)
next
  case (Cons v vs)
  obtain s' L' where "u_mbox_get s mb m True = Inr (s', Done 1)" "kinv s' L'" "prio_ok s'" "msgs s' = (msgs s)(m := v)"
    "fst m \<noteq> mbox_array (mboxes s mb) \<Longrightarrow> mbox_msgs s' mb = vs" "L' (MboxWriters mb) = tl (L (MboxWriters mb))"
    "\<And>w ws. L (MboxWriters mb) = w # ws \<Longrightarrow> status (tcb s' w) = STATUS_PENDING"
    by (rule get_takes [OF assms(1-3) thread_contextD(1) [OF assms(4)] Cons]) (rule that)
  then show ?thesis using Cons assms(5)
    by (intro exI [of _ s'] exI [of _ L']) (cases "L (MboxWriters mb)"; simp add: mbox_get_def)
qed

theorem mbox_get_oldest_witness:
  "\<exists>s' L'. kinv s' L' \<and> prio_ok s' \<and> mbox_get demo 2 (7, 0) = Inr (s', Done 1) \<and>
     msgs s' (7, 0) = msgs demo (20, 0) \<and> mbox_msgs s' 2 = [msgs demo (20, 1)] \<and> status (tcb s' 600) = STATUS_PENDING"
proof -
  have "fst (7, 0 :: int) \<noteq> mbox_array (mboxes demo 2)" by (simp add: demo_def)
  moreover have "mbox_msgs demo 2 = [msgs demo (20, 0), msgs demo (20, 1)]"
    by (simp add: mbox_msgs_def demo_def cib_slots_def cib_avail_def upt_rec)
  ultimately show ?thesis
    using mbox_get_oldest [OF demo_kinv demo_prio_ok demo_queues_ok demo_context, of "(7, 0)" 2] by auto
qed

text \<open>Storing in a full mailbox: the slot is that of the oldest message, and the counters no longer fit.\<close>

lemma store_when_full:
  assumes q: "queues_ok s" and full: "cib_full (mbox_cib (mboxes s mb))" and some: "mbox_msgs s mb \<noteq> []"
  defines "p \<equiv> (mbox_array (mboxes s mb), int (hd (cib_slots (mbox_cib (mboxes s mb)))))"
  obtains s' where "mbox_store s mb m b = Inr (s', Done 1)" and "msgs s' p = stamped s m" and "\<not> queues_ok s'"
proof -
  let ?c = "mbox_cib (mboxes s mb)" and ?s = "set_sender m (sched_active_pid s) s"
  have ci: "cib_inv ?c" by (rule queues_ok_mbox [OF q])
  have av: "unat (cib_avail ?c) = cib_size ?c" using full cib_full_iff [OF ci] by simp
  have "cib_size ?c \<noteq> 0" using some av by (auto simp: mbox_msgs_def cib_slots_def)
  with ci obtain k where k: "k \<le> 30" "cib_mask ?c = mask k" "cib_size ?c = 2 ^ k" by (cases rule: cib_cases) auto
  let ?r = "unat (read_count ?c)" and ?c' = "?c\<lparr>write_count := write_count ?c + 1\<rparr>"
  have "cib_slots ?c = map (\<lambda>i. (?r + i) mod 2 ^ k) [0..<2 ^ k]" using cib_slots_pow [OF k(1,2)] av k(3) by simp
  then have hd: "hd (cib_slots ?c) = ?r mod 2 ^ k" by (simp add: hd_map)
  have "cib_avail ?c = of_nat (2 ^ k)" using av k(3) by (metis of_nat_unat ucast_id)
  then have "write_count ?c = read_count ?c + of_nat (2 ^ k)" by (simp add: cib_avail_def algebra_simps)
  then have "unat (write_count ?c) mod 2 ^ k = ?r mod 2 ^ k"
    using unat_add_of_nat_mod [of k "read_count ?c" "2 ^ k"] k(1) by simp
  then have i: "sint (write_count ?c AND cib_mask ?c) = int (hd (cib_slots ?c))"
    using sint_slot [OF k(1), of "write_count ?c"] k(2) hd by simp
  let ?s' = "put_msg p (stamped s m) (set_cib mb ?c' ?s)\<lparr>mie := b\<rparr>"
  have "mbox_store s mb m b = Inr (?s', Done 1)"
    using i by (simp add: mbox_store_def cib_put_unsafe_def mbox_elem_def Let_def stamped_def p_def)
  moreover have "\<not> cib_inv ?c'"
  proof -
    have "(2::nat) ^ k \<le> 2 ^ 30" using k(1) by (intro power_increasing) simp_all
    moreover have "cib_avail ?c' = cib_avail ?c + 1" by (simp add: cib_avail_def)
    ultimately have "unat (cib_avail ?c') = Suc (2 ^ k)" using av k(3) by (simp add: unat_word_ariths)
    then show ?thesis using k(3) by (simp add: cib_inv_def cib_size_def)
  qed
  then have "\<not> queues_ok ?s'" by (auto simp: queues_ok_def)
  ultimately show thesis by (intro that [of ?s']) simp_all
qed

text \<open>
  C39: A writer that had to wait stores its message without looking at the mailbox again. If the
  thread that took a message and so woke the writer puts one itself before the writer runs (it
  keeps running unless the writer is more urgent), the writer overwrites the oldest message.
\<close>

theorem mbox_put_race:
  assumes "kinv s L" and "prio_ok s" and "queues_ok s" and "thread_context s t" and "mbox_msgs s mb = v # vs"
    and "cib_full (mbox_cib (mboxes s mb))" and "L (MboxReaders mb) = []" and "L (MboxWriters mb) = w # ws"
    and "priority (tcb s t) \<le> priority (tcb s w)" and "fst m \<noteq> mbox_array (mboxes s mb)" and "fst m' \<noteq> mbox_array (mboxes s mb)"
  shows "\<exists>s1 s2. mbox_try_get s mb m = Inr (s1, Done 1) \<and> thread_context s1 t \<and> runnable s1 w \<and>
    mbox_try_put s1 mb m' = Inr (s2, Done 1) \<and>
    (\<forall>s3 n. queues_ok s3 \<longrightarrow> mboxes s3 = mboxes s2 \<longrightarrow>
       (\<exists>s4. mbox_put_resume s3 mb n = Inr (s4, Done 1) \<and> \<not> queues_ok s4 \<and>
          msgs s4 (mbox_array (mboxes s2 mb), int (hd (cib_slots (mbox_cib (mboxes s2 mb))))) = stamped s3 n))"
proof -
  note c = thread_contextD [OF assms(4)]
  obtain s1 L1 where g: "u_mbox_get s mb m False = Inr (s1, Done 1)" "kinv s1 L1" "prio_ok s1" "call_frame s s1"
    "fst m \<noteq> mbox_array (mboxes s mb) \<Longrightarrow> mbox_msgs s1 mb = vs"
    "\<And>w ws. L (MboxWriters mb) = w # ws \<Longrightarrow> status (tcb s1 w) = STATUS_PENDING"
    "\<And>l. \<not> is_runqueue l \<Longrightarrow> l \<noteq> MboxWriters mb \<Longrightarrow> L1 l = L l"
    "cib_size (mbox_cib (mboxes s1 mb)) = cib_size (mbox_cib (mboxes s mb))" "sched_threads s1 = sched_threads s" "queues_ok s1"
    "\<And>w ws. L (MboxWriters mb) = w # ws \<Longrightarrow> on_runqueue (status (tcb s t)) \<Longrightarrow>
       priority (tcb s t) \<le> priority (tcb s w) \<Longrightarrow> msip s1 = msip s"
    "status (tcb s1 t) = status (tcb s t) \<or> \<not> on_runqueue (status (tcb s t))"
    "mbox_array (mboxes s1 mb) = mbox_array (mboxes s mb)"
    by (rule get_takes [OF assms(1-3) c(1) assms(5)]) (rule that)
  have ctx1: "thread_context s1 t"
    using g(4,12) g(11) [OF assms(8) c(2) assms(9)] c by (auto simp: thread_context_def call_frame_def)
  have run: "runnable s1 w"
    using g(6) [OF assms(8)] g(9) kinv_waiter [OF assms(1), of w "MboxWriters mb"] assms(8) by (simp add: runnable_def live_def)
  let ?n = "\<lambda>s. cib_size (mbox_cib (mboxes s mb))"
  have sz: "length (mbox_msgs s mb) = ?n s"
    using cib_full_iff [OF queues_ok_mbox [OF assms(3)]] assms(6) by simp
  then have n1: "Suc (length (mbox_msgs s1 mb)) = ?n s1" using g(5) assms(5,10) g(8) by (metis length_Cons)
  then have room: "\<not> cib_full (mbox_cib (mboxes s1 mb))"
    using cib_full_iff [OF queues_ok_mbox [OF g(10)], of mb] by simp
  have none: "L1 (MboxReaders mb) = []" using g(7) [of "MboxReaders mb"] assms(7) by simp
  obtain s2 where p: "u_mbox_put s1 mb m' False = Inr (s2, Done 1)"
    "mbox_msgs s2 mb = mbox_msgs (set_sender m' (sched_active_pid s1) s1) mb @ [stamped s1 m']"
    "?n s2 = ?n s1" "queues_ok s2"
    by (rule put_stores [OF g(2,3,10) none room]) (rule that)
  have "length (mbox_msgs s2 mb) = ?n s2" using p(2,3) n1 by simp
  then have full2: "cib_full (mbox_cib (mboxes s2 mb))" and ne2: "unat (cib_avail (mbox_cib (mboxes s2 mb))) \<noteq> 0"
    using cib_full_iff [OF queues_ok_mbox [OF p(4)], of mb] p(3) n1 by simp_all
  have "\<exists>s4. mbox_put_resume s3 mb n = Inr (s4, Done 1) \<and> \<not> queues_ok s4 \<and>
      msgs s4 (mbox_array (mboxes s2 mb), int (hd (cib_slots (mbox_cib (mboxes s2 mb))))) = stamped s3 n"
    if "queues_ok s3" "mboxes s3 = mboxes s2" for s3 n
  proof -
    let ?s = "s3\<lparr>mie := False\<rparr>"
    have "length (mbox_msgs ?s mb) \<noteq> 0" unfolding length_mbox_msgs using ne2 that(2) by simp
    then have "mbox_msgs ?s mb \<noteq> []" by (simp only: length_0_conv not_False_eq_True)
    then have 0: "queues_ok ?s" "cib_full (mbox_cib (mboxes ?s mb))" "mbox_msgs ?s mb \<noteq> []" using that full2 by simp_all
    obtain s4 where "mbox_store ?s mb n (mie s3) = Inr (s4, Done 1)"
      "msgs s4 (mbox_array (mboxes ?s mb), int (hd (cib_slots (mbox_cib (mboxes ?s mb))))) = stamped ?s n" "\<not> queues_ok s4"
      by (rule store_when_full [OF 0]) (rule that)
    then show ?thesis using that(2) by (intro exI [of _ s4]) (simp add: mbox_put_resume_def irq_disable_def stamped_def)
  qed
  then show ?thesis using g(1) ctx1 run p(1) by (auto simp: mbox_try_get_def mbox_try_put_def)
qed

theorem mbox_put_race_witness:
  "\<exists>s1 s2. mbox_try_get demo 2 (7, 0) = Inr (s1, Done 1) \<and> thread_context s1 200 \<and> runnable s1 600 \<and>
    mbox_try_put s1 2 (7, 1) = Inr (s2, Done 1)"
proof -
  have m: "mbox_msgs demo 2 = [msgs demo (20, 0), msgs demo (20, 1)]"
    by (simp add: mbox_msgs_def demo_def cib_slots_def cib_avail_def upt_rec)
  have f: "cib_full (mbox_cib (mboxes demo 2))" by (simp add: demo_def cib_full_def cib_avail_def)
  have l: "demo_layout (MboxReaders 2) = []" "demo_layout (MboxWriters 2) = [600]"
    "priority (tcb demo 200) \<le> priority (tcb demo 600)" "fst (7, 0 :: int) \<noteq> mbox_array (mboxes demo 2)"
    "fst (7, 1 :: int) \<noteq> mbox_array (mboxes demo 2)" by (simp_all add: demo_def)
  show ?thesis
    using mbox_put_race [OF demo_kinv demo_prio_ok demo_queues_ok demo_context m f l] by blast
qed

end
