(* ===== verification/System.thy ===== *)
theory System
  imports Cond Msg_Receive Mbox
begin

text \<open>
  The kernel as a whole: the trap entry of the processor (\<open>cpu/riscv_common/intr.S\<close> and the
  interrupt part of \<open>handle_trap\<close>), and the steps of a system in which threads call the kernel,
  blocked calls continue after a switch, and interrupts arrive between any two of these steps.
\<close>

section \<open>Traps\<close>

text \<open>
  \<open>context_switch\<close> clears the software interrupt and runs the scheduler. The registers it saves
  on the stack of the old thread and loads from the stack of the new one are not part of the
  model: which thread continues is \<open>sched_active_thread\<close>.
\<close>

definition context_switch :: "kernel \<Rightarrow> fault + kernel" where
  "context_switch s = bindE (sched_run (s\<lparr>msip := False\<rparr>)) (\<lambda>(s, _). Inr s)"

text \<open>The processor disables interrupts when it takes a trap, and \<open>mret\<close> enables them again.\<close>

definition software_interrupt :: "kernel \<Rightarrow> fault + kernel" where
  "software_interrupt s = bindE (context_switch (s\<lparr>mie := False\<rparr>)) (\<lambda>s. Inr (s\<lparr>mie := True\<rparr>))"

definition interrupt_entry :: "kernel \<Rightarrow> kernel" where
  "interrupt_entry s = s\<lparr>mie := False, in_isr := True\<rparr>"

definition interrupt_exit :: "kernel \<Rightarrow> fault + kernel" where
  "interrupt_exit s =
     (let s = s\<lparr>in_isr := False\<rparr> in
      bindE (if sched_context_switch_request s then context_switch s else Inr s) (\<lambda>s.
        Inr (s\<lparr>mie := True\<rparr>)))"

lemma sched_run_msip:
  "sched_run (s\<lparr>msip := b\<rparr>) = bindE (sched_run s) (\<lambda>(s', sw). Inr (s'\<lparr>msip := b\<rparr>, sw))"
  unfolding sched_run_def
  by (auto simp: Let_def upd_thread_def bindE_assoc split: option.split intro!: bindE_cong)

lemma sched_run_frame:
  assumes "sched_run s = Inr (s', sw)"
  shows "same_queues s s'"
  using assms unfolding sched_run_def
  by (auto simp: Let_def bindE_eq_Inr split: option.splits if_splits)

text \<open>A switch needs no more than the invariant of a state in which a switch is pending.\<close>

lemma kinv_msip_off:
  assumes "kinv s L" and "sched_active_thread s = Some n" and "L (RunQueue (priority (tcb s n))) = n # ts"
  shows "kinv (s\<lparr>msip := False\<rparr>) L"
  using assms unfolding kinv_def
  by (simp add: threads_ok_def runq_ok_def cache_ok_def waiters_ok_def active_ok_def data_ok_def)

lemma context_switch_runs:
  assumes inv: "kinv (s\<lparr>msip := True\<rparr>) L" and run: "runnable s u"
  obtains s' n where "context_switch s = Inr s'" and "kinv s' L" and "prio_ok s'"
    and "sched_active_thread s' = Some n" and "\<And>t. runnable s' t = runnable s t"
    and "\<not> msip s'" and "mie s' = mie s" and "in_isr s' = in_isr s" and "\<not> sched_context_switch_request s'"
    and "sched_threads s' = sched_threads s" and "queues_ok s' = queues_ok s" and "runnable s n"
    and "\<And>t. runnable s t \<Longrightarrow> priority (tcb s n) \<le> priority (tcb s t)"
    and "\<And>t. priority (tcb s' t) = priority (tcb s t)"
    and "\<exists>ts. L (RunQueue (priority (tcb s n))) = n # ts"
proof -
  let ?s = "s\<lparr>msip := True\<rparr>"
  let ?n = "sched_next ?s L"
  have run': "runnable ?s u" using run by simp
  obtain s' sw where s': "sched_run ?s = Inr (s', sw)" "kinv s' L" "sched_active_thread s' = Some ?n"
    "\<And>t. runnable s' t = runnable ?s t" "\<And>t. priority (tcb s' t) = priority (tcb ?s t)"
    "sched_threads s' = sched_threads ?s" "\<not> sched_context_switch_request s'" "mie s' = mie ?s"
    "in_isr s' = in_isr ?s"
    by (rule sched_run_next [OF inv run']) (rule that)
  obtain ts where ts: "L (RunQueue (priority (tcb ?s ?n))) = ?n # ts"
    using sched_next(3,5) [OF inv run'] by metis
  have urgent: "priority (tcb s ?n) \<le> priority (tcb s v)" if "runnable s v" for v
    using sched_next(3,4) [OF inv, of v] that by simp
  have "sched_run (s\<lparr>msip := False\<rparr>) = Inr (s'\<lparr>msip := False\<rparr>, sw)"
    using sched_run_msip [where s = ?s and b = False] s'(1) by simp
  then have "context_switch s = Inr (s'\<lparr>msip := False\<rparr>)" by (simp add: context_switch_def)
  moreover have "kinv (s'\<lparr>msip := False\<rparr>) L" using ts by (intro kinv_msip_off [OF s'(2,3), where ts = ts]) (simp add: s'(5))
  moreover have "runnable s ?n" using sched_next(2) [OF inv run'] by simp
  moreover have "queues_ok s' = queues_ok s"
    using sched_run_frame [OF s'(1)] s'(6) by (auto simp: queues_ok_def thread_queue_ok_def live_def)
  moreover have "prio_ok (s'\<lparr>msip := False\<rparr>)"
    using urgent \<open>runnable s ?n\<close> by (auto simp: prio_ok_def s'(3,4,5))
  ultimately show thesis using ts s' urgent by (intro that [of "s'\<lparr>msip := False\<rparr>" ?n]) simp_all
qed

section \<open>The calls of the kernel\<close>

text \<open>
  Every call a thread or an interrupt handler makes, with its arguments. The last group stands for
  the rest of a call that blocked: what it does once its thread runs again.
\<close>

datatype (plugins only: code) kcall =
    Yield
  | Sleep
  | Wakeup int
  | Create abi_t int int u8 bool
  | Mutex_init int
  | Mutex_lock int
  | Mutex_trylock int
  | Mutex_unlock int
  | Mutex_unlock_and_sleep int
  | Rmutex_lock int
  | Rmutex_trylock int
  | Rmutex_unlock int
  | Cond_init int
  | Cond_wait int int
  | Cond_signal int
  | Cond_broadcast int
  | Flags_set tid u16
  | Flags_clear u16
  | Flags_wait_any u16
  | Flags_wait_one u16
  | Flags_wait_all u16
  | Msg_send maddr int
  | Msg_try_send maddr int
  | Msg_send_receive maddr maddr int
  | Msg_reply maddr maddr
  | Msg_reply_int maddr maddr
  | Msg_receive maddr
  | Msg_try_receive maddr
  | Msg_init_queue int u32
  | Mbox_init int int u32
  | Mbox_put int maddr
  | Mbox_try_put int maddr
  | Mbox_get int maddr
  | Mbox_try_get int maddr
  | Rmutex_lock_rest int
  | Cond_wait_rest int
  | Flags_wait_any_rest u16
  | Flags_wait_one_rest u16
  | Flags_wait_all_rest u16
  | Msg_receive_rest
  | Mbox_put_rest int maddr

text \<open>The value a call returns does not matter to the kernel, only whether the caller is blocked.\<close>

definition answer :: "('a \<Rightarrow> bool) \<Rightarrow> fault + (kernel \<times> 'a) \<Rightarrow> fault + (kernel \<times> bool)" where
  "answer f m = bindE m (\<lambda>(s, r). Inr (s, f r))"

fun blocked :: "'a outcome \<Rightarrow> bool" where
  "blocked Blocked = True"
| "blocked (Done x) = False"

abbreviation returns :: "fault + (kernel \<times> 'a) \<Rightarrow> fault + (kernel \<times> bool)" where
  "returns \<equiv> answer (\<lambda>_. False)"

primrec invoke :: "kcall \<Rightarrow> kernel \<Rightarrow> fault + (kernel \<times> bool)" where
  "invoke Yield = (\<lambda>s. returns (noval (thread_yield s)))"
| "invoke Sleep = (\<lambda>s. returns (noval (thread_sleep s)))"
| "invoke (Wakeup p) = (\<lambda>s. returns (thread_wakeup s p))"
| "invoke (Create abi stack sz pr sleeping) = (\<lambda>s. returns (thread_create abi s stack sz pr \<lparr>CREATE_SLEEPING = sleeping, CREATE_WOUT_YIELD = False\<rparr>))"
| "invoke (Mutex_init m) = (\<lambda>s. returns (Inr (mutex_init s m, ())))"
| "invoke (Mutex_lock m) = (\<lambda>s. answer blocked (mutex_lock s m))"
| "invoke (Mutex_trylock m) = (\<lambda>s. answer blocked (mutex_trylock s m))"
| "invoke (Mutex_unlock m) = (\<lambda>s. returns (noval (mutex_unlock s m)))"
| "invoke (Mutex_unlock_and_sleep m) = (\<lambda>s. returns (noval (mutex_unlock_and_sleep s m)))"
| "invoke (Rmutex_lock m) = (\<lambda>s. answer blocked (rmutex_lock s m))"
| "invoke (Rmutex_trylock m) = (\<lambda>s. answer blocked (rmutex_trylock s m))"
| "invoke (Rmutex_unlock m) = (\<lambda>s. returns (noval (rmutex_unlock s m)))"
| "invoke (Cond_init c) = (\<lambda>s. returns (Inr (cond_init s c, ())))"
| "invoke (Cond_wait c m) = (\<lambda>s. answer blocked (cond_wait s c m))"
| "invoke (Cond_signal c) = (\<lambda>s. returns (noval (cond_signal s c)))"
| "invoke (Cond_broadcast c) = (\<lambda>s. returns (noval (cond_broadcast s c)))"
| "invoke (Flags_set t f) = (\<lambda>s. returns (noval (thread_flags_set s t f)))"
| "invoke (Flags_clear f) = (\<lambda>s. returns (thread_flags_clear s f))"
| "invoke (Flags_wait_any f) = (\<lambda>s. answer blocked (thread_flags_wait_any s f))"
| "invoke (Flags_wait_one f) = (\<lambda>s. answer blocked (thread_flags_wait_one s f))"
| "invoke (Flags_wait_all f) = (\<lambda>s. answer blocked (thread_flags_wait_all s f))"
| "invoke (Msg_send m p) = (\<lambda>s. answer blocked (msg_send s m p))"
| "invoke (Msg_try_send m p) = (\<lambda>s. answer blocked (msg_try_send s m p))"
| "invoke (Msg_send_receive m reply p) = (\<lambda>s. answer blocked (msg_send_receive s m reply p))"
| "invoke (Msg_reply m reply) = (\<lambda>s. returns (msg_reply s m reply))"
| "invoke (Msg_reply_int m reply) = (\<lambda>s. returns (msg_reply_int s m reply))"
| "invoke (Msg_receive m) = (\<lambda>s. answer blocked (msg_receive s m))"
| "invoke (Msg_try_receive m) = (\<lambda>s. answer blocked (msg_try_receive s m))"
| "invoke (Msg_init_queue a n) = (\<lambda>s. returns (noval (msg_init_queue s a n)))"
| "invoke (Mbox_init mb a n) = (\<lambda>s. returns (Inr (mbox_init s mb a n, ())))"
| "invoke (Mbox_put mb m) = (\<lambda>s. answer blocked (mbox_put s mb m))"
| "invoke (Mbox_try_put mb m) = (\<lambda>s. answer blocked (mbox_try_put s mb m))"
| "invoke (Mbox_get mb m) = (\<lambda>s. answer blocked (mbox_get s mb m))"
| "invoke (Mbox_try_get mb m) = (\<lambda>s. answer blocked (mbox_try_get s mb m))"
| "invoke (Rmutex_lock_rest m) = (\<lambda>s. returns (Inr (rmutex_take s m, ())))"
| "invoke (Cond_wait_rest m) = (\<lambda>s. answer blocked (cond_wait_resume s m))"
| "invoke (Flags_wait_any_rest f) = (\<lambda>s. returns (wait_any_resume s f))"
| "invoke (Flags_wait_one_rest f) = (\<lambda>s. returns (wait_one_resume s f))"
| "invoke (Flags_wait_all_rest f) = (\<lambda>s. returns (wait_all_resume s f))"
| "invoke Msg_receive_rest = (\<lambda>s. returns (msg_receive_resume s))"
| "invoke (Mbox_put_rest mb m) = (\<lambda>s. answer blocked (mbox_put_resume s mb m))"

text \<open>What is left of a call when it blocks.\<close>

definition rest_of :: "kcall \<Rightarrow> kcall option" where
  "rest_of c =
     (case c of
        Rmutex_lock m \<Rightarrow> Some (Rmutex_lock_rest m)
      | Cond_wait c m \<Rightarrow> Some (Cond_wait_rest m)
      | Flags_wait_any f \<Rightarrow> Some (Flags_wait_any_rest f)
      | Flags_wait_one f \<Rightarrow> Some (Flags_wait_one_rest f)
      | Flags_wait_all f \<Rightarrow> Some (Flags_wait_all_rest f)
      | Msg_receive m \<Rightarrow> Some Msg_receive_rest
      | Mbox_put mb m \<Rightarrow> Some (Mbox_put_rest mb m)
      | _ \<Rightarrow> None)"

text \<open>
  What the caller must see to. \<open>Mbox_put_rest\<close> is the exception: that there is room when a writer
  continues is not the caller's to ensure, and \<open>mbox_put\<close> does not check it.
\<close>

definition obligation :: "kcall \<Rightarrow> kernel \<Rightarrow> layout \<Rightarrow> bool" where [simp]:
  "obligation c s L =
     (case c of
        Create abi stack sz pr sleeping \<Rightarrow> (\<not> live s (thread_create_at abi stack sz))
      | Mutex_init m \<Rightarrow> (L (MutexQueue m) = [])
      | Cond_init c \<Rightarrow> (L (CondQueue c) = [])
      | Mbox_init mb a n \<Rightarrow> (L (MboxReaders mb) = [] \<and> L (MboxWriters mb) = [] \<and> cib_inv (CIB_INIT n))
      | Rmutex_unlock m \<Rightarrow> (owner (rmutexes s m) = sched_active_pid s \<and> 0 < refcount (rmutexes s m))
      | Flags_set t f \<Rightarrow> live s t
      | Msg_send m p \<Rightarrow> (0 \<le> p \<and> p \<le> KERNEL_PID_LAST \<and> (in_isr s \<or> (\<forall>u. sched_threads s p = Some u \<longrightarrow> \<not> flag_wakes s u)))
      | Msg_try_send m p \<Rightarrow> (0 \<le> p \<and> p \<le> KERNEL_PID_LAST \<and> (in_isr s \<or> (\<forall>u. sched_threads s p = Some u \<longrightarrow> \<not> flag_wakes s u)))
      | Msg_send_receive m reply p \<Rightarrow> (p \<noteq> sched_active_pid s \<and> (\<exists>u. sched_threads s p = Some u))
      | Msg_reply m reply \<Rightarrow> reply_ctx s L m
      | Msg_reply_int m reply \<Rightarrow> reply_ctx s L m
      | Msg_init_queue a n \<Rightarrow> (\<exists>k \<le> 30. n = 2 ^ k)
      | Mbox_put_rest mb m \<Rightarrow> (\<not> cib_full (mbox_cib (mboxes s mb)))
      | _ \<Rightarrow> True)"

text \<open>
  The calls an interrupt handler may make. Those that end in \<open>sched_switch\<close> look at the active
  thread, and there is none between the end of a thread and the next switch.
\<close>

definition isr_call :: "kcall \<Rightarrow> kernel \<Rightarrow> bool" where [simp]:
  "isr_call c s =
     (case c of
        Wakeup p \<Rightarrow> (sched_active_thread s \<noteq> None)
      | Create abi stack sz pr sleeping \<Rightarrow> (sched_active_thread s \<noteq> None)
      | Mutex_trylock m \<Rightarrow> True
      | Mutex_unlock m \<Rightarrow> (sched_active_thread s \<noteq> None)
      | Cond_signal c \<Rightarrow> (sched_active_thread s \<noteq> None)
      | Cond_broadcast c \<Rightarrow> (sched_active_thread s \<noteq> None)
      | Flags_set t f \<Rightarrow> True
      | Msg_send m p \<Rightarrow> True
      | Msg_try_send m p \<Rightarrow> True
      | Msg_reply_int m reply \<Rightarrow> True
      | Mbox_try_put mb m \<Rightarrow> (sched_active_thread s \<noteq> None)
      | Mbox_try_get mb m \<Rightarrow> (sched_active_thread s \<noteq> None)
      | _ \<Rightarrow> False)"

definition thread_call :: "kcall \<Rightarrow> bool" where
  "thread_call c =
     (case c of
        Msg_reply_int m reply \<Rightarrow> False
      | _ \<Rightarrow> True)"

definition permitted :: "kcall \<Rightarrow> kernel \<Rightarrow> layout \<Rightarrow> bool" where
  "permitted c s L \<longleftrightarrow>
     queues_ok s \<and> obligation c s L \<and>
     (if in_isr s then isr_call c s else thread_call c \<and> (\<exists>t. thread_context s t))"

lemma answer_call:
  assumes "kernel_call ctx call" and "\<And>s L. ctx' s L \<Longrightarrow> ctx s L"
  shows "kernel_call ctx' (\<lambda>s. answer f (call s))"
proof
  fix s L
  assume "kinv s L" "prio_ok s" "ctx' s L"
  then show "\<exists>s' r L'. answer f (call s) = Inr (s', r) \<and> kinv s' L' \<and> prio_ok s' \<and> call_frame s s'"
    using kernel_call.safe [OF assms(1)] assms(2) by (fastforce simp: answer_def)
qed

lemmas kernel_calls =
  yield.kernel_call_axioms sleep.kernel_call_axioms wakeup.kernel_call_axioms create.kernel_call_axioms
  minit.kernel_call_axioms lock.kernel_call_axioms trylock.kernel_call_axioms unlock.kernel_call_axioms
  unlock_and_sleep.kernel_call_axioms rlock.kernel_call_axioms runlock.kernel_call_axioms
  rtake.kernel_call_axioms cinit.kernel_call_axioms cond_wait.kernel_call_axioms
  cond_wait_resume.kernel_call_axioms signal.kernel_call_axioms flags_set.kernel_call_axioms
  flags_clear.kernel_call_axioms wait_any.kernel_call_axioms wait_one.kernel_call_axioms
  wait_all.kernel_call_axioms wait_any_resume.kernel_call_axioms wait_one_resume.kernel_call_axioms
  wait_all_resume.kernel_call_axioms msg_send.kernel_call_axioms msg_try_send.kernel_call_axioms
  msg_send_receive.kernel_call_axioms msg_reply.kernel_call_axioms msg_reply_int.kernel_call_axioms
  msg_receive.kernel_call_axioms msg_try_receive.kernel_call_axioms msg_receive_resume.kernel_call_axioms
  msg_init_queue.kernel_call_axioms mbox_init.kernel_call_axioms mbox_put.kernel_call_axioms
  mbox_get.kernel_call_axioms mbox_put_resume.kernel_call_axioms

text \<open>Every call, made where it is permitted, keeps the contract of the kernel.\<close>

interpretation call: kernel_call "permitted c" "invoke c" for c
  by (cases c; simp only: invoke.simps rmutex_lock_def rmutex_trylock_def cond_signal_def cond_broadcast_def
      mbox_put_def mbox_try_put_def mbox_get_def mbox_try_get_def; rule answer_call, rule kernel_calls;
      auto simp: permitted_def thread_call_def send_ctx_def mbox_ctx_def dest: thread_contextD split: if_splits)

section \<open>The system\<close>

text \<open>
  A state of the system: the kernel, and for every thread that is blocked inside a call what is
  left of that call.
\<close>

record system =
  kern :: kernel
  rests :: "tid \<Rightarrow> kcall option"

definition fresh_call :: "kcall \<Rightarrow> bool" where
  "fresh_call c \<longleftrightarrow>
     (case c of Rmutex_lock_rest m \<Rightarrow> False | Cond_wait_rest m \<Rightarrow> False | Flags_wait_any_rest f \<Rightarrow> False
      | Flags_wait_one_rest f \<Rightarrow> False | Flags_wait_all_rest f \<Rightarrow> False | Msg_receive_rest \<Rightarrow> False
      | Mbox_put_rest mb m \<Rightarrow> False | _ \<Rightarrow> thread_call c)"

text \<open>
  The thread \<open>t\<close> continues the call it was blocked in, or makes a new one. The idle thread
  only waits for interrupts and makes none.
\<close>

definition next_call :: "tid \<Rightarrow> system \<Rightarrow> tid \<Rightarrow> kcall \<Rightarrow> bool" where
  "next_call idle \<sigma> t c \<longleftrightarrow>
     t \<noteq> idle \<and> (rests \<sigma> t = Some c \<or> rests \<sigma> t = None \<and> fresh_call c)"

definition meets :: "kcall \<Rightarrow> kernel \<Rightarrow> bool" where
  "meets c s \<longleftrightarrow> (\<forall>L. kinv s L \<longrightarrow> obligation c s L)"

inductive step :: "tid \<Rightarrow> system \<Rightarrow> system \<Rightarrow> bool" for idle where
  thread_step:
    "thread_context (kern \<sigma>) t \<Longrightarrow> next_call idle \<sigma> t c \<Longrightarrow> meets c (kern \<sigma>) \<Longrightarrow>
     invoke c (kern \<sigma>) = Inr (k, b) \<Longrightarrow>
     step idle \<sigma> (\<sigma>\<lparr>kern := k, rests := (rests \<sigma>)(t := if b then rest_of c else None)\<rparr>)"
| thread_end:
    "thread_context (kern \<sigma>) t \<Longrightarrow> t \<noteq> idle \<Longrightarrow> rests \<sigma> t = None \<Longrightarrow>
     sched_task_exit (kern \<sigma>) = Inr k \<Longrightarrow> step idle \<sigma> (\<sigma>\<lparr>kern := k\<rparr>)"
| switch:
    "msip (kern \<sigma>) \<Longrightarrow> mie (kern \<sigma>) \<Longrightarrow> software_interrupt (kern \<sigma>) = Inr k \<Longrightarrow> step idle \<sigma> (\<sigma>\<lparr>kern := k\<rparr>)"
| interrupt:
    "mie (kern \<sigma>) \<Longrightarrow> step idle \<sigma> (\<sigma>\<lparr>kern := interrupt_entry (kern \<sigma>)\<rparr>)"
| isr_step:
    "in_isr (kern \<sigma>) \<Longrightarrow> isr_call c (kern \<sigma>) \<Longrightarrow> meets c (kern \<sigma>) \<Longrightarrow> invoke c (kern \<sigma>) = Inr (k, b) \<Longrightarrow>
     step idle \<sigma> (\<sigma>\<lparr>kern := k\<rparr>)"
| isr_end:
    "in_isr (kern \<sigma>) \<Longrightarrow> interrupt_exit (kern \<sigma>) = Inr k \<Longrightarrow> step idle \<sigma> (\<sigma>\<lparr>kern := k\<rparr>)"

text \<open>The system starts when \<open>kernel_init\<close> has created the idle and the main thread.\<close>

definition booted :: "tid \<Rightarrow> system \<Rightarrow> bool" where
  "booted idle \<sigma> \<longleftrightarrow>
     (\<exists>abi istack isz mstack msz s.
        boot_state s \<and> (\<forall>m. cib_inv (mbox_cib (mboxes s m))) \<and> idle = thread_create_at abi istack isz \<and>
        idle \<noteq> thread_create_at abi mstack msz \<and>
        kernel_init abi istack isz mstack msz s = Inr (kern \<sigma>) \<and> rests \<sigma> = (\<lambda>t. None))"

definition sys_inv :: "tid \<Rightarrow> system \<Rightarrow> bool" where
  "sys_inv idle \<sigma> \<longleftrightarrow>
     (\<exists>L. kinv (kern \<sigma>) L) \<and> prio_ok (kern \<sigma>) \<and> queues_ok (kern \<sigma>) \<and> runnable (kern \<sigma>) idle \<and>
     (in_isr (kern \<sigma>) \<longleftrightarrow> \<not> mie (kern \<sigma>)) \<and> rests \<sigma> idle = None \<and> (\<forall>t c. rests \<sigma> t = Some c \<longrightarrow> thread_call c)"

lemma booted_inv: "booted idle \<sigma> \<Longrightarrow> sys_inv idle \<sigma>"
proof -
  assume "booted idle \<sigma>"
  then obtain abi istack isz mstack msz s where b: "boot_state s" "\<And>m. cib_inv (mbox_cib (mboxes s m))"
    "idle = thread_create_at abi istack isz" "idle \<noteq> thread_create_at abi mstack msz"
    "kernel_init abi istack isz mstack msz s = Inr (kern \<sigma>)" "rests \<sigma> = (\<lambda>t. None)"
    unfolding booted_def by blast
  have "queues_ok s" using b(1,2) by (auto simp: queues_ok_def boot_state_def live_def)
  then show ?thesis
    by (rule_tac kernel_init_boots [OF b(1,3) refl b(4)])
      (use b(5,6) in \<open>auto simp: sys_inv_def prio_ok_def switch_pending_def\<close>)
qed

lemma next_call_thread:
  "next_call idle \<sigma> t c \<Longrightarrow> (\<forall>t c. rests \<sigma> t = Some c \<longrightarrow> thread_call c) \<Longrightarrow> thread_call c"
  unfolding next_call_def fresh_call_def by (auto split: kcall.splits)

lemma rest_of_thread: "rest_of c = Some c' \<Longrightarrow> thread_call c'"
  by (auto simp: rest_of_def thread_call_def split: kcall.splits)

lemma invoke_inv:
  assumes inv: "sys_inv idle \<sigma>" and c: "meets c (kern \<sigma>)" "invoke c (kern \<sigma>) = Inr (k, b)"
    and ctx: "if in_isr (kern \<sigma>) then isr_call c (kern \<sigma>) else thread_call c \<and> (\<exists>t \<noteq> idle. thread_context (kern \<sigma>) t)"
  shows "sys_inv idle (\<sigma>\<lparr>kern := k\<rparr>)"
proof -
  from inv obtain L where L: "kinv (kern \<sigma>) L" and i: "prio_ok (kern \<sigma>)" "queues_ok (kern \<sigma>)"
    "runnable (kern \<sigma>) idle" "in_isr (kern \<sigma>) \<longleftrightarrow> \<not> mie (kern \<sigma>)"
    "rests \<sigma> idle = None" "\<And>t c. rests \<sigma> t = Some c \<Longrightarrow> thread_call c"
    by (auto simp: sys_inv_def)
  have p: "permitted c (kern \<sigma>) L"
    using c(1) L ctx i(2) unfolding permitted_def meets_def by (auto split: if_splits)
  have "in_isr (kern \<sigma>) \<or> sched_active_thread (kern \<sigma>) \<noteq> Some idle"
    using ctx by (auto split: if_splits dest: thread_contextD(1))
  then show ?thesis
    using call.keeps [OF L i(1) p c(2)] i by (auto simp: sys_inv_def call_frame_def)
qed

lemma task_exit_inv:
  assumes inv: "sys_inv idle \<sigma>" and t: "thread_context (kern \<sigma>) t" "t \<noteq> idle"
    and e: "sched_task_exit (kern \<sigma>) = Inr k"
  shows "sys_inv idle (\<sigma>\<lparr>kern := k\<rparr>)"
proof -
  from inv obtain L where L: "kinv (kern \<sigma>) L" and i: "queues_ok (kern \<sigma>)"
    "runnable (kern \<sigma>) idle" "in_isr (kern \<sigma>) \<longleftrightarrow> \<not> mie (kern \<sigma>)"
    "rests \<sigma> idle = None" "\<And>t c. rests \<sigma> t = Some c \<Longrightarrow> thread_call c"
    by (auto simp: sys_inv_def)
  let ?p = "priority (tcb (kern \<sigma>) t)"
  have k: "kinv k (L(RunQueue ?p := tl (L (RunQueue ?p))))" "msip k" "mie k" "in_isr k = in_isr (kern \<sigma>)"
    "\<And>u. live k u \<longleftrightarrow> live (kern \<sigma>) u \<and> u \<noteq> t" "\<And>u. u \<noteq> t \<Longrightarrow> tcb k u = tcb (kern \<sigma>) u"
    by (rule sched_task_exit_exits [OF L t(1)], simp add: e)+
  have "mboxes k = mboxes (kern \<sigma>)"
    using e unfolding sched_task_exit_def sched_set_status_def cpu_switch_context_exit_def
    by (auto simp: Let_def bindE_eq_Inr irq_disable_def irq_enable_def thread_yield_higher_def thread_yield_def
        split: if_splits option.splits)
  then have "queues_ok k" using i(1) k(5,6) by (auto simp: queues_ok_def)
  then show ?thesis
    using k i t(2) thread_contextD(3) [OF t(1)]
    by (auto simp: sys_inv_def runnable_def prio_ok_def switch_pending_def)
qed

text \<open>A switch, and the end of an interrupt handler, leave the most urgent thread active.\<close>

lemma switch_inv:
  assumes inv: "kinv (s\<lparr>msip := True\<rparr>) L" and run: "runnable s idle" and q: "queues_ok s" and "\<not> in_isr s"
    and e: "bindE (context_switch s) (\<lambda>s. Inr (s\<lparr>mie := True\<rparr>)) = Inr k"
  shows "(\<exists>L. kinv k L) \<and> prio_ok k \<and> queues_ok k \<and> runnable k idle \<and> \<not> in_isr k \<and> mie k"
  by (rule context_switch_runs [OF inv run]) (use assms in auto)

lemma software_interrupt_inv:
  assumes inv: "sys_inv idle \<sigma>" and "mie (kern \<sigma>)" and e: "software_interrupt (kern \<sigma>) = Inr k"
  shows "sys_inv idle (\<sigma>\<lparr>kern := k\<rparr>)"
proof -
  let ?s = "(kern \<sigma>)\<lparr>mie := False\<rparr>"
  from inv obtain L where L: "kinv (kern \<sigma>) L" by (auto simp: sys_inv_def)
  have "kinv (?s\<lparr>msip := True\<rparr>) L" using L by (intro kinv_yield) simp
  moreover have "runnable ?s idle" "queues_ok ?s" "\<not> in_isr ?s" using inv assms(2) by (auto simp: sys_inv_def)
  ultimately show ?thesis
    using switch_inv [of ?s L idle k] e inv by (auto simp: sys_inv_def software_interrupt_def)
qed

lemma interrupt_entry_inv:
  assumes inv: "sys_inv idle \<sigma>"
  shows "sys_inv idle (\<sigma>\<lparr>kern := interrupt_entry (kern \<sigma>)\<rparr>)"
proof -
  let ?k = "interrupt_entry (kern \<sigma>)"
  from inv obtain L where L: "kinv (kern \<sigma>) L" and p: "prio_ok (kern \<sigma>)" by (auto simp: sys_inv_def)
  have "kinv ?k L" by (rule kinv_cong [OF L]) (auto simp: interrupt_entry_def switch_pending_def)
  moreover have "prio_ok ?k"
    by (rule prio_ok_cong [OF p]) (auto simp: interrupt_entry_def switch_pending_def runnable_def live_def)
  ultimately show ?thesis
    using inv by (auto simp: sys_inv_def interrupt_entry_def queues_ok_def runnable_def live_def)
qed

lemma interrupt_exit_inv:
  assumes inv: "sys_inv idle \<sigma>" and isr: "in_isr (kern \<sigma>)" and e: "interrupt_exit (kern \<sigma>) = Inr k"
  shows "sys_inv idle (\<sigma>\<lparr>kern := k\<rparr>)"
proof -
  let ?s = "(kern \<sigma>)\<lparr>in_isr := False\<rparr>"
  from inv obtain L where L: "kinv (kern \<sigma>) L" and p: "prio_ok (kern \<sigma>)" by (auto simp: sys_inv_def)
  have q: "queues_ok ?s" "runnable ?s idle" "\<not> in_isr ?s"
    using inv by (auto simp: sys_inv_def queues_ok_def runnable_def live_def)
  show ?thesis
  proof (cases "sched_context_switch_request (kern \<sigma>)")
    case True
    have "kinv (?s\<lparr>msip := True\<rparr>) L" by (rule kinv_cong [OF L]) (auto simp: switch_pending_def)
    then show ?thesis
      using switch_inv [of ?s L idle k] e inv q True by (auto simp: sys_inv_def interrupt_exit_def)
  next
    case False
    then have k: "k = ?s\<lparr>mie := True\<rparr>" using e by (simp add: interrupt_exit_def)
    have "kinv ?s L" by (rule kinv_cong [OF L]) (use False in \<open>auto simp: switch_pending_def\<close>)
    moreover have "prio_ok ?s"
      by (rule prio_ok_cong [OF p]) (use False in \<open>auto simp: switch_pending_def runnable_def live_def\<close>)
    ultimately show ?thesis using inv q by (auto simp: k sys_inv_def)
  qed
qed

lemma step_inv:
  assumes inv: "sys_inv idle \<sigma>" and "step idle \<sigma> \<sigma>'"
  shows "sys_inv idle \<sigma>'"
  using assms(2)
proof cases
  case (thread_step t c k b)
  have "thread_call c"
    using thread_step(3) inv next_call_thread unfolding sys_inv_def by blast
  then have "sys_inv idle (\<sigma>\<lparr>kern := k\<rparr>)"
    using thread_step thread_contextD(3) [OF thread_step(2)]
    by (intro invoke_inv [OF inv, of c]) (auto simp: next_call_def)
  then show ?thesis using thread_step by (auto simp: sys_inv_def next_call_def rest_of_thread split: if_splits)
next
  case (thread_end t k)
  then show ?thesis using task_exit_inv [OF inv] by blast
next
  case (switch k)
  then show ?thesis using software_interrupt_inv [OF inv] by blast
next
  case interrupt
  then show ?thesis using interrupt_entry_inv [OF inv] by blast
next
  case (isr_step c k b)
  then show ?thesis by (simp only:) (rule invoke_inv [OF inv]; simp)
next
  case (isr_end k)
  then show ?thesis using interrupt_exit_inv [OF inv] by blast
qed

interpretation sys: inductive_invariant "booted idle" "step idle" "sys_inv idle" for idle
  by unfold_locales (auto intro: booted_inv step_inv)

lemma software_interrupt_runs:
  assumes inv: "sys_inv idle \<sigma>" and "mie (kern \<sigma>)"
  obtains k n where "software_interrupt (kern \<sigma>) = Inr k" and "thread_context k n" and "runnable k n"
    and "\<And>u. runnable k u = runnable (kern \<sigma>) u"
    and "\<And>u. runnable k u \<Longrightarrow> priority (tcb k n) \<le> priority (tcb k u)"
    and "\<And>u. priority (tcb k u) = priority (tcb (kern \<sigma>) u)"
proof -
  let ?s = "(kern \<sigma>)\<lparr>mie := False\<rparr>"
  from inv obtain L where L: "kinv (kern \<sigma>) L" by (auto simp: sys_inv_def)
  have 1: "kinv (?s\<lparr>msip := True\<rparr>) L" using L by (intro kinv_yield) simp
  have 2: "runnable ?s idle" "\<not> in_isr ?s" using inv assms(2) by (auto simp: sys_inv_def)
  obtain k n where k: "context_switch ?s = Inr k" "sched_active_thread k = Some n"
    "\<And>t. runnable k t = runnable ?s t" "\<not> msip k" "in_isr k = in_isr ?s" "runnable ?s n"
    "\<And>t. runnable ?s t \<Longrightarrow> priority (tcb ?s n) \<le> priority (tcb ?s t)"
    "\<And>t. priority (tcb k t) = priority (tcb ?s t)"
    by (rule context_switch_runs [OF 1 2(1)]) (rule that)
  have "on_runqueue (status (tcb k n))" using k(3) [of n] k(6) by (simp add: runnable_def)
  with k 2(2) show thesis
    by (intro that [of "k\<lparr>mie := True\<rparr>" n]) (simp_all add: software_interrupt_def thread_context_def)
qed

text \<open>A handler that ends leaves interrupts enabled; a switch it requested is done by then.\<close>

lemma interrupt_exit_returns:
  assumes inv: "sys_inv idle \<sigma>" and "in_isr (kern \<sigma>)"
  obtains k where "interrupt_exit (kern \<sigma>) = Inr k" and "\<And>u. runnable k u = runnable (kern \<sigma>) u"
    and "\<And>u. priority (tcb k u) = priority (tcb (kern \<sigma>) u)"
proof -
  let ?s = "(kern \<sigma>)\<lparr>in_isr := False\<rparr>"
  from inv obtain L where L: "kinv (kern \<sigma>) L" by (auto simp: sys_inv_def)
  have r: "runnable ?s u = runnable (kern \<sigma>) u" for u by (simp add: runnable_def live_def)
  show thesis
  proof (cases "sched_context_switch_request (kern \<sigma>)")
    case True
    have 1: "kinv (?s\<lparr>msip := True\<rparr>) L" by (rule kinv_cong [OF L]) (auto simp: switch_pending_def)
    have 2: "runnable ?s idle" using inv r by (auto simp: sys_inv_def)
    obtain k where "context_switch ?s = Inr k" "\<And>t. runnable k t = runnable ?s t"
      "\<And>t. priority (tcb k t) = priority (tcb ?s t)"
      by (rule context_switch_runs [OF 1 2]) (rule that)
    then show thesis using True r by (intro that [of "k\<lparr>mie := True\<rparr>"]) (simp_all add: interrupt_exit_def)
  next
    case False
    then show thesis using r by (intro that [of "?s\<lparr>mie := True\<rparr>"]) (simp_all add: interrupt_exit_def)
  qed
qed


section \<open>A system that has booted\<close>

definition boot_abi :: abi_t where
  "boot_abi = \<lparr>align_of_ptr = 8, align_of_thread = 8, sizeof_thread = 80\<rparr>"

definition boot_system :: system where
  "boot_system =
     \<lparr>kern = (case kernel_init boot_abi 1000 256 2000 1024 reset_state of Inr k \<Rightarrow> k | Inl e \<Rightarrow> reset_state),
      rests = (\<lambda>t. None)\<rparr>"

definition main_system :: system where
  "main_system =
     boot_system\<lparr>kern := case software_interrupt (kern boot_system) of Inr k \<Rightarrow> k | Inl e \<Rightarrow> reset_state\<rparr>"

lemma boot_threads: "thread_create_at boot_abi 1000 256 = 1176" "thread_create_at boot_abi 2000 1024 = 2944"
  by (simp_all add: thread_create_at_def boot_abi_def)

lemma reset_boot_state: "boot_state reset_state"
  by (simp add: boot_state_def reset_state_def)

lemma reset_mboxes: "cib_inv (mbox_cib (mboxes reset_state m))"
  using demo_queues_ok by (simp add: queues_ok_def reset_state_def)

lemma boot_system_kern:
  obtains "kernel_init boot_abi 1000 256 2000 1024 reset_state = Inr (kern boot_system)"
    and "msip (kern boot_system)" and "mie (kern boot_system)"
    and "\<And>u. runnable (kern boot_system) u \<longleftrightarrow> u = 1176 \<or> u = 2944"
    and "priority (tcb (kern boot_system) 1176) = 15" and "priority (tcb (kern boot_system) 2944) = 7"
proof -
  have ne: "(1176::tid) \<noteq> 2944" by simp
  obtain s' where s': "kernel_init boot_abi 1000 256 2000 1024 reset_state = Inr s'" "msip s'" "mie s'"
    "runnable s' 1176" "runnable s' 2944" "sched_threads s' = (\<lambda>p. None)(1 \<mapsto> 1176, 2 \<mapsto> 2944)"
    "priority (tcb s' 1176) = THREAD_PRIORITY_IDLE" "priority (tcb s' 2944) = THREAD_PRIORITY_MAIN"
    by (rule kernel_init_boots [OF reset_boot_state boot_threads [symmetric] ne]) (rule that)
  have "live s' u \<Longrightarrow> u = 1176 \<or> u = 2944" for u
    by (auto simp: live_def s'(6) split: if_splits)
  then have "runnable s' u \<longleftrightarrow> u = 1176 \<or> u = 2944" for u
    using s'(4,5) by (auto simp: runnable_def)
  moreover have "kern boot_system = s'" by (simp add: boot_system_def s'(1))
  ultimately show thesis using s' by (intro that) (simp_all add: kernel_consts)
qed

lemma boot_system_booted: "booted 1176 boot_system"
proof (rule boot_system_kern)
  assume "kernel_init boot_abi 1000 256 2000 1024 reset_state = Inr (kern boot_system)"
  moreover have "rests boot_system = (\<lambda>t. None)" by (simp add: boot_system_def)
  ultimately show ?thesis
    unfolding booted_def using reset_boot_state reset_mboxes boot_threads
    by (intro exI [of _ boot_abi] exI [of _ 1000] exI [of _ 256] exI [of _ 2000] exI [of _ 1024]
        exI [of _ reset_state]) auto
qed

text \<open>The first switch starts the main thread.\<close>

lemma main_system_runs: "(step 1176)\<^sup>*\<^sup>* boot_system main_system" "thread_context (kern main_system) 2944"
  "rests main_system = (\<lambda>t. None)"
proof -
  note inv = sys.start [OF boot_system_booted]
  show "rests main_system = (\<lambda>t. None)" by (simp add: main_system_def boot_system_def)
  have *: "(step 1176)\<^sup>*\<^sup>* boot_system main_system \<and> thread_context (kern main_system) 2944"
  proof (rule boot_system_kern)
    assume b: "msip (kern boot_system)" "mie (kern boot_system)"
      "\<And>u. runnable (kern boot_system) u \<longleftrightarrow> u = 1176 \<or> u = 2944"
      "priority (tcb (kern boot_system) 1176) = 15" "priority (tcb (kern boot_system) 2944) = 7"
    obtain k n where k: "software_interrupt (kern boot_system) = Inr k" "thread_context k n" "runnable k n"
      "\<And>u. runnable k u = runnable (kern boot_system) u"
      "\<And>u. runnable k u \<Longrightarrow> priority (tcb k n) \<le> priority (tcb k u)"
      "\<And>u. priority (tcb k u) = priority (tcb (kern boot_system) u)"
      by (rule software_interrupt_runs [OF inv b(2)]) (rule that)
    have "n = 2944" using k(3,4) k(5) [of 2944] b by (auto simp: k(6))
    moreover have m: "main_system = boot_system\<lparr>kern := k\<rparr>" by (simp add: main_system_def k(1))
    ultimately show ?thesis unfolding m using k(1,2) step.switch [of boot_system k 1176] b(1,2) by auto
  qed
  then show "(step 1176)\<^sup>*\<^sup>* boot_system main_system" "thread_context (kern main_system) 2944" by simp_all
qed

section \<open>Threads of the same priority take turns\<close>

definition yield_switch :: "kernel \<Rightarrow> fault + kernel" where
  "yield_switch s = bindE (thread_yield s) software_interrupt"

lemma yield_switch_next:
  assumes inv: "kinv s L" and prio: "prio_ok s" and ctx: "thread_context s t"
  defines "p \<equiv> priority (tcb s t)"
  obtains s' where "yield_switch s = Inr s'" and "kinv s' (L(RunQueue p := rotate1 (L (RunQueue p))))"
    and "prio_ok s'" and "thread_context s' (hd (rotate1 (L (RunQueue p))))"
    and "\<And>u. priority (tcb s' u) = priority (tcb s u)"
    and "priority (tcb s (hd (rotate1 (L (RunQueue p))))) = p"
proof -
  note c = thread_contextD [OF ctx]
  let ?L = "L(RunQueue p := rotate1 (L (RunQueue p)))"
  obtain h where h: "thread_yield s = Inr (s\<lparr>links := h, msip := True\<rparr>)"
    "kinv (s\<lparr>links := h, msip := True\<rparr>) ?L"
    by (rule thread_yield_rotates [OF inv ctx, folded p_def]) (rule that)
  let ?s = "s\<lparr>links := h, msip := True, mie := False\<rparr>"
  have run: "runnable s t" using kinv_active(1) [OF inv c(1)] c(2) by (simp add: runnable_def)
  have "kinv (?s\<lparr>msip := True\<rparr>) ?L" by (rule kinv_cong [OF h(2)]) (simp_all add: switch_pending_def)
  then have 1: "kinv (?s\<lparr>msip := True\<rparr>) ?L" "runnable ?s t" using run by simp_all
  obtain s' n where s': "context_switch ?s = Inr s'" "kinv s' ?L" "prio_ok s'" "sched_active_thread s' = Some n"
    "\<And>u. runnable s' u = runnable ?s u" "\<not> msip s'" "in_isr s' = in_isr ?s" "runnable ?s n"
    "\<And>u. runnable ?s u \<Longrightarrow> priority (tcb ?s n) \<le> priority (tcb ?s u)"
    "\<And>u. priority (tcb s' u) = priority (tcb ?s u)" "\<exists>ts. ?L (RunQueue (priority (tcb ?s n))) = n # ts"
    by (rule context_switch_runs [OF 1]) (rule that)
  have "priority (tcb s t) \<le> priority (tcb s n)" using prio c(1,6) s'(8) by (auto simp: prio_ok_def)
  then have pn: "priority (tcb s n) = p" using s'(9) [OF 1(2)] by (simp add: p_def)
  then have hd: "n = hd (rotate1 (L (RunQueue p)))" using s'(11) by auto
  have "on_runqueue (status (tcb s' n))" using s'(5) [of n] s'(8) by (simp add: runnable_def)
  then have "thread_context (s'\<lparr>mie := True\<rparr>) n" using s'(4,6,7) c(3) by (simp add: thread_context_def)
  then show thesis
    using s' h(1) pn unfolding hd
    by (intro that [of "s'\<lparr>mie := True\<rparr>"]) (simp_all add: yield_switch_def software_interrupt_def)
qed

lemma yield_switch_turns:
  assumes "kinv s L" and "prio_ok s" and "thread_context s t" and "L (RunQueue (priority (tcb s t))) = ts"
  shows "\<exists>s'. iterE i yield_switch s = Inr s' \<and> thread_context s' (ts ! (i mod length ts))"
  using assms
proof (induction i arbitrary: s L t ts)
  case 0
  then obtain us where "ts = t # us" using kinv_active(3) thread_contextD by metis
  then show ?case using 0 by simp
next
  case (Suc i)
  let ?p = "priority (tcb s t)" and ?L = "L(RunQueue (priority (tcb s t)) := rotate1 ts)"
  obtain s' where s': "yield_switch s = Inr s'" "kinv s' ?L" "prio_ok s'" "thread_context s' (hd (rotate1 ts))"
    "\<And>u. priority (tcb s' u) = priority (tcb s u)" "priority (tcb s (hd (rotate1 ts))) = ?p"
    by (rule yield_switch_next [OF Suc.prems(1-3), unfolded Suc.prems(4)]) (rule that)
  have "?L (RunQueue (priority (tcb s' (hd (rotate1 ts))))) = rotate1 ts" using s'(5,6) by simp
  from Suc.IH [OF s'(2-4) this] obtain s'' where "iterE i yield_switch s' = Inr s''"
    "thread_context s'' (rotate1 ts ! (i mod length ts))" by auto
  moreover have "ts \<noteq> []" using kinv_active(3) [OF Suc.prems(1)] thread_contextD [OF Suc.prems(3)] Suc.prems(4) by auto
  then have "rotate1 ts ! (i mod length ts) = ts ! (Suc i mod length ts)" by (simp add: nth_rotate1 mod_Suc_eq)
  ultimately show ?case using s'(1) by simp
qed

section \<open>Properties\<close>

text \<open>
  C1: No reachable state of the system faults. Whatever interrupts and calls came before, a
  thread that runs can continue the call it was blocked in or make any new one whose obligations it
  meets, and the call returns without a bad pointer, an index out of bounds or a failed assertion;
  so do the calls of an interrupt handler, the end of the handler, the switch, and the end of a thread.
\<close>

theorem kernel_never_faults:
  assumes "booted idle \<sigma>\<^sub>0" and "(step idle)\<^sup>*\<^sup>* \<sigma>\<^sub>0 \<sigma>"
  shows "(\<forall>t c. thread_context (kern \<sigma>) t \<and> next_call idle \<sigma> t c \<and> meets c (kern \<sigma>) \<longrightarrow>
           (\<exists>k b. invoke c (kern \<sigma>) = Inr (k, b))) \<and>
    (\<forall>c. in_isr (kern \<sigma>) \<and> isr_call c (kern \<sigma>) \<and> meets c (kern \<sigma>) \<longrightarrow> (\<exists>k b. invoke c (kern \<sigma>) = Inr (k, b))) \<and>
    (\<forall>t. thread_context (kern \<sigma>) t \<longrightarrow> (\<exists>k. sched_task_exit (kern \<sigma>) = Inr k)) \<and>
    (mie (kern \<sigma>) \<longrightarrow> (\<exists>k. software_interrupt (kern \<sigma>) = Inr k)) \<and>
    (in_isr (kern \<sigma>) \<longrightarrow> (\<exists>k. interrupt_exit (kern \<sigma>) = Inr k))"
proof -
  have inv: "sys_inv idle \<sigma>" by (rule sys.reached [OF assms])
  then obtain L where L: "kinv (kern \<sigma>) L" "prio_ok (kern \<sigma>)" "queues_ok (kern \<sigma>)"
    and r: "\<forall>t c. rests \<sigma> t = Some c \<longrightarrow> thread_call c" by (auto simp: sys_inv_def)
  have c: "\<exists>k b. invoke c (kern \<sigma>) = Inr (k, b)"
    if "meets c (kern \<sigma>)" "if in_isr (kern \<sigma>) then isr_call c (kern \<sigma>)
       else thread_call c \<and> (\<exists>t. thread_context (kern \<sigma>) t)" for c
  proof -
    have "permitted c (kern \<sigma>) L" using that L unfolding permitted_def meets_def by blast
    then show ?thesis using call.safe [OF L(1,2)] by blast
  qed
  show ?thesis
  proof (intro conjI allI impI)
    fix t c
    assume "thread_context (kern \<sigma>) t \<and> next_call idle \<sigma> t c \<and> meets c (kern \<sigma>)"
    moreover from this have "thread_call c" using next_call_thread r by blast
    ultimately show "\<exists>k b. invoke c (kern \<sigma>) = Inr (k, b)"
      using thread_contextD(3) [of "kern \<sigma>" t] by (intro c) (blast, simp only: if_False, blast)
  next
    fix c
    assume "in_isr (kern \<sigma>) \<and> isr_call c (kern \<sigma>) \<and> meets c (kern \<sigma>)"
    then show "\<exists>k b. invoke c (kern \<sigma>) = Inr (k, b)" by (intro c) (simp_all only: if_True)
  next
    fix t
    assume t: "thread_context (kern \<sigma>) t"
    show "\<exists>k. sched_task_exit (kern \<sigma>) = Inr k" by (rule sched_task_exit_exits [OF L(1) t]) blast
  next
    assume "mie (kern \<sigma>)"
    then show "\<exists>k. software_interrupt (kern \<sigma>) = Inr k" by (rule software_interrupt_runs [OF inv]) blast
  next
    assume "in_isr (kern \<sigma>)"
    then show "\<exists>k. interrupt_exit (kern \<sigma>) = Inr k" by (rule interrupt_exit_returns [OF inv]) blast
  qed
qed

theorem kernel_never_faults_witness:
  "booted 1176 boot_system \<and> (step 1176)\<^sup>*\<^sup>* boot_system main_system \<and> thread_context (kern main_system) 2944 \<and>
   (\<exists>k b. invoke (Mutex_lock 1) (kern main_system) = Inr (k, b)) \<and>
   (\<exists>k. sched_task_exit (kern main_system) = Inr k)"
proof -
  have "next_call 1176 main_system 2944 (Mutex_lock 1)" "meets (Mutex_lock 1) (kern main_system)"
    using main_system_runs(3) by (simp_all add: next_call_def fresh_call_def thread_call_def meets_def)
  then show ?thesis
    using kernel_never_faults [OF boot_system_booted main_system_runs(1)] boot_system_booted main_system_runs
    by blast
qed





text \<open>
  C26: Threads of the most urgent priority that keep yielding take turns: when the active thread and
  those that run after it call \<open>thread_yield\<close> one after the other, every call and the switch after it
  succeed, and after \<open>i\<close> of them the thread at position \<open>i\<close> of the run queue (counted around) runs.
\<close>

theorem yield_is_fair:
  assumes "kinv s L" and "prio_ok s" and "thread_context s t" and "L (RunQueue (priority (tcb s t))) = ts"
  shows "\<exists>s'. iterE i yield_switch s = Inr s' \<and> thread_context s' (ts ! (i mod length ts))"
  by (rule yield_switch_turns [OF assms])

theorem yield_is_fair_witness:
  "\<exists>s'. iterE 3 yield_switch demo = Inr s' \<and> thread_context s' ([200] ! (3 mod length [200 :: tid]))"
  by (rule yield_is_fair [OF demo_kinv demo_prio_ok demo_context]) simp

end
