(* ===== verification/Event.thy ===== *)
theory Event
  imports Thread_Flags
begin

text \<open>
  Event queues, \<open>sys/event/event.c\<close>: circular lists of events, each with a thread that waits for
  them with a thread flag. The \<open>next\<close> fields of events and queues are a heap of their own beside the
  state of the kernel; an event is in a queue exactly when its \<open>next\<close> field is not \<open>NULL\<close>.
\<close>

section \<open>The operations\<close>

datatype ev_node = EventQueue int | EventNode int

record events =
  ev_kernel :: kernel
  ev_next :: "ev_node links"
  ev_waiter :: "int \<Rightarrow> tid option"

definition THREAD_FLAG_EVENT :: u16 where "THREAD_FLAG_EVENT = 0x1"

definition event_queue_init_detached :: "events \<Rightarrow> int \<Rightarrow> events" where
  "event_queue_init_detached s queue =
     s\<lparr>ev_next := (ev_next s)(EventQueue queue := Null), ev_waiter := (ev_waiter s)(queue := None)\<rparr>"

definition event_queue_init :: "events \<Rightarrow> int \<Rightarrow> events" where
  "event_queue_init s queue =
     (let s = s\<lparr>ev_next := (ev_next s)(EventQueue queue := Null)\<rparr>
      in s\<lparr>ev_waiter := (ev_waiter s)(queue := sched_active_thread (ev_kernel s))\<rparr>)"

definition event_queue_claim :: "events \<Rightarrow> int \<Rightarrow> fault + events" where
  "event_queue_claim s queue =
     assertE (ev_waiter s queue = None)
       (s\<lparr>ev_waiter := (ev_waiter s)(queue := sched_active_thread (ev_kernel s))\<rparr>)"

definition event_post :: "events \<Rightarrow> int \<Rightarrow> int \<Rightarrow> fault + events" where
  "event_post s queue event =
     (let (k, state) = irq_disable (ev_kernel s) in
      bindE (if ev_next s (EventNode event) = Null
             then clist_rpush (ev_next s) (EventQueue queue) (EventNode event)
             else Inr (ev_next s)) (\<lambda>h.
      let waiter = ev_waiter s queue; k = irq_restore state k; s = s\<lparr>ev_kernel := k, ev_next := h\<rparr> in
      case waiter of
        None \<Rightarrow> Inr s
      | Some w \<Rightarrow> bindE (thread_flags_set k w THREAD_FLAG_EVENT) (\<lambda>k. Inr (s\<lparr>ev_kernel := k\<rparr>))))"

definition event_cancel :: "events \<Rightarrow> int \<Rightarrow> int \<Rightarrow> fault + events" where
  "event_cancel s queue event =
     (let (k, state) = irq_disable (ev_kernel s) in
      case clist_remove (ev_next s) (EventQueue queue) (EventNode event) of
        None \<Rightarrow> Inl NoReturn
      | Some (Inl e) \<Rightarrow> Inl e
      | Some (Inr (h, _)) \<Rightarrow>
          Inr (s\<lparr>ev_kernel := irq_restore state k, ev_next := h(EventNode event := Null)\<rparr>))"

text \<open>The first event of the queue, if there is one, with interrupts off.\<close>

definition event_pop :: "events \<Rightarrow> int \<Rightarrow> fault + (events \<times> ev_node ptr)" where
  "event_pop s queue =
     (let (k, state) = irq_disable (ev_kernel s) in
      bindE (clist_lpop (ev_next s) (EventQueue queue)) (\<lambda>(h, result).
        Inr (s\<lparr>ev_kernel := irq_restore state k, ev_next := h\<rparr>, result)))"

definition event_get :: "events \<Rightarrow> int \<Rightarrow> fault + (events \<times> ev_node ptr)" where
  "event_get s queue =
     bindE (event_pop s queue) (\<lambda>(s, result).
       if result \<noteq> Null
       then bindE (the_node result) (\<lambda>n. Inr (s\<lparr>ev_next := (ev_next s)(n := Null)\<rparr>, result))
       else Inr (s, result))"

partial_function (option) event_wait_loop ::
    "events \<Rightarrow> int \<Rightarrow> (fault + (events \<times> ev_node ptr outcome)) option" where
  "event_wait_loop s queue =
     (case event_pop s queue of
        Inl e \<Rightarrow> Some (Inl e)
      | Inr (s, result) \<Rightarrow>
          if result = Null then
            (case thread_flags_wait_any (ev_kernel s) THREAD_FLAG_EVENT of
               Inl e \<Rightarrow> Some (Inl e)
             | Inr (k, Blocked) \<Rightarrow> Some (Inr (s\<lparr>ev_kernel := k\<rparr>, Blocked))
             | Inr (k, Done _) \<Rightarrow> event_wait_loop (s\<lparr>ev_kernel := k\<rparr>) queue)
          else Some (bindE (the_node result) (\<lambda>n. Inr (s\<lparr>ev_next := (ev_next s)(n := Null)\<rparr>, Done result))))"

definition event_wait :: "events \<Rightarrow> int \<Rightarrow> fault + (events \<times> ev_node ptr outcome)" where
  "event_wait s queue = (case event_wait_loop s queue of None \<Rightarrow> Inl NoReturn | Some r \<Rightarrow> r)"

text \<open>The rest of \<open>event_wait\<close> when the caller has blocked in \<open>thread_flags_wait_any\<close>.\<close>

definition event_wait_resume :: "events \<Rightarrow> int \<Rightarrow> fault + (events \<times> ev_node ptr outcome)" where
  "event_wait_resume s queue =
     bindE (wait_any_resume (ev_kernel s) THREAD_FLAG_EVENT) (\<lambda>(k, _). event_wait (s\<lparr>ev_kernel := k\<rparr>) queue)"

section \<open>The queues\<close>

type_synonym event_layout = "int \<Rightarrow> int list"

definition events_ok :: "events \<Rightarrow> event_layout \<Rightarrow> bool" where
  "events_ok s E \<longleftrightarrow>
     (\<forall>q. clist (ev_next s) (EventQueue q) (map EventNode (E q))) \<and>
     (\<forall>q q' e. e \<in> set (E q) \<longrightarrow> e \<in> set (E q') \<longrightarrow> q = q') \<and>
     (\<forall>e. ev_next s (EventNode e) = Null \<longleftrightarrow> (\<forall>q. e \<notin> set (E q)))"

lemma events_okD:
  assumes "events_ok s E"
  shows "clist (ev_next s) (EventQueue q) (map EventNode (E q))"
    and "e \<in> set (E q) \<Longrightarrow> e \<in> set (E q') \<Longrightarrow> q = q'"
    and "ev_next s (EventNode e) = Null \<longleftrightarrow> (\<forall>q. e \<notin> set (E q))"
  using assms unfolding events_ok_def by blast+

lemma events_ok_kernel [simp]:
  "events_ok (s\<lparr>ev_kernel := k\<rparr>) E = events_ok s E" "events_ok (s\<lparr>ev_waiter := w\<rparr>) E = events_ok s E"
  by (simp_all add: events_ok_def)

lemma chain_next: "chain h p xs r \<Longrightarrow> x \<in> set xs \<Longrightarrow> r \<noteq> Null \<Longrightarrow> h x \<noteq> Null"
proof (induction xs arbitrary: p)
  case (Cons y ys)
  then show ?case by (cases ys) auto
qed simp

lemma clist_next: "clist h l xs \<Longrightarrow> x \<in> set xs \<Longrightarrow> h x \<noteq> Null"
  by (auto simp: clist_def split: if_splits dest: chain_next)

text \<open>A change of one queue, whose events in no other queue change.\<close>

lemma events_ok_change:
  assumes ok: "events_ok s E" and q: "clist h (EventQueue q) (map EventNode xs)"
    and frame: "\<And>m. m \<notin> EventNode ` (set xs \<union> set (E q)) \<Longrightarrow> m \<noteq> EventQueue q \<Longrightarrow> h m = ev_next s m"
    and new: "\<And>e q'. e \<in> set xs \<Longrightarrow> q' \<noteq> q \<Longrightarrow> e \<notin> set (E q')"
    and old: "\<And>e. e \<in> set (E q) \<Longrightarrow> e \<notin> set xs \<Longrightarrow> h (EventNode e) = Null"
  shows "events_ok (s\<lparr>ev_next := h\<rparr>) (E(q := xs))"
proof -
  note o = events_okD [OF ok]
  have other: "h m = ev_next s m" if "q' \<noteq> q" "m \<in> insert (EventQueue q') (EventNode ` set (E q'))" for m q'
  proof (rule frame)
    show "m \<notin> EventNode ` (set xs \<union> set (E q))" using that new o(2) by blast
    show "m \<noteq> EventQueue q" using that by auto
  qed
  have "clist h (EventQueue q') (map EventNode ((E(q := xs)) q'))" for q'
  proof (cases "q' = q")
    case False
    then have "clist h (EventQueue q') (map EventNode (E q')) = clist (ev_next s) (EventQueue q') (map EventNode (E q'))"
      by (intro clist_cong other) auto
    then show ?thesis using False o(1) by simp
  qed (use q in simp)
  moreover have "h (EventNode e) = Null \<longleftrightarrow> (\<forall>q'. e \<notin> set ((E(q := xs)) q'))" for e
  proof (cases "e \<in> set xs")
    case True
    then have "h (EventNode e) \<noteq> Null" by (intro clist_next [OF q]) simp
    then show ?thesis using True by auto
  next
    case out: False
    show ?thesis
    proof (cases "e \<in> set (E q)")
      case True
      then have "\<forall>q'. e \<notin> set ((E(q := xs)) q')" using out o(2) by (metis fun_upd_apply)
      then show ?thesis using old [OF True out] by simp
    next
      case False
      then have "h (EventNode e) = ev_next s (EventNode e)" using out by (intro frame) auto
      then show ?thesis using o(3) [of e] out False by simp (metis)
    qed
  qed
  moreover have "a = b" if "e \<in> set ((E(q := xs)) a)" "e \<in> set ((E(q := xs)) b)" for e a b
    using that new o(2) by (metis fun_upd_apply)
  moreover have "ev_next (s\<lparr>ev_next := h\<rparr>) = h" by simp
  ultimately show ?thesis unfolding events_ok_def by metis
qed

lemma event_pop_Nil:
  "events_ok s E \<Longrightarrow> E q = [] \<Longrightarrow> event_pop s q = Inr (s, Null)"
  using events_okD(1) [of s E q] by (simp add: event_pop_def irq_disable_def)

lemma event_pop_Cons:
  assumes ok: "events_ok s E" and q: "E q = e # es"
  obtains h where "event_pop s q = Inr (s\<lparr>ev_next := h\<rparr>, Ptr (EventNode e))"
    and "events_ok (s\<lparr>ev_next := h(EventNode e := Null)\<rparr>) (E(q := es))"
proof -
  have c: "clist (ev_next s) (EventQueue q) (EventNode e # map EventNode es)"
    using events_okD(1) [OF ok, of q] q by simp
  obtain h where h: "clist_lpop (ev_next s) (EventQueue q) = Inr (h, Ptr (EventNode e))"
      "clist h (EventQueue q) (map EventNode es)"
      "\<And>m. m \<notin> insert (EventQueue q) (set (map EventNode es)) \<Longrightarrow> h m = ev_next s m"
    by (rule clist_lpop_Cons [OF c]) (rule that)
  have "e \<notin> set es" using c by (auto simp: clist_def)
  then have "clist (h(EventNode e := Null)) (EventQueue q) (map EventNode es)"
    using h(2) by (subst clist_cong [of _ _ _ h]) auto
  then have "events_ok (s\<lparr>ev_next := h(EventNode e := Null)\<rparr>) (E(q := es))"
    using h(3) q events_okD(2) [OF ok, of _ q] by (intro events_ok_change [OF ok]) auto
  then show thesis using h(1) by (intro that [of h]) (simp add: event_pop_def irq_disable_def)
qed

lemma event_get_Cons:
  assumes "events_ok s E" and "E q = e # es"
  obtains s' where "event_get s q = Inr (s', Ptr (EventNode e))" and "events_ok s' (E(q := es))"
    and "ev_kernel s' = ev_kernel s" and "ev_waiter s' = ev_waiter s"
proof -
  obtain h where h: "event_pop s q = Inr (s\<lparr>ev_next := h\<rparr>, Ptr (EventNode e))"
      "events_ok (s\<lparr>ev_next := h(EventNode e := Null)\<rparr>) (E(q := es))"
    by (rule event_pop_Cons [OF assms]) (rule that)
  then show thesis by (intro that [of "s\<lparr>ev_next := h(EventNode e := Null)\<rparr>"]) (simp_all add: event_get_def)
qed

lemma event_get_Nil:
  "events_ok s E \<Longrightarrow> E q = [] \<Longrightarrow> event_get s q = Inr (s, Null)"
  by (simp add: event_get_def event_pop_Nil)

lemma remove1_map_inj: "inj f \<Longrightarrow> remove1 (f x) (map f xs) = map f (remove1 x xs)"
  by (induction xs) (auto simp: inj_eq)

lemma event_cancel_removes:
  assumes ok: "events_ok s E" and e: "\<And>q'. e \<in> set (E q') \<Longrightarrow> q' = q"
  obtains s' where "event_cancel s q e = Inr s'" and "events_ok s' (E(q := remove1 e (E q)))"
    and "ev_kernel s' = ev_kernel s"
proof (cases "e \<in> set (E q)")
  case True
  have c: "clist (ev_next s) (EventQueue q) (map EventNode (E q))" by (rule events_okD(1) [OF ok])
  have d: "distinct (E q)" using c by (auto simp: clist_def distinct_map)
  have r: "remove1 (EventNode e) (map EventNode (E q)) = map EventNode (remove1 e (E q))"
    by (rule remove1_map_inj) (simp add: inj_def)
  obtain h where h: "clist_remove (ev_next s) (EventQueue q) (EventNode e) = Some (Inr (h, Ptr (EventNode e)))"
      "clist h (EventQueue q) (map EventNode (remove1 e (E q)))"
      "\<And>m. m \<notin> insert (EventQueue q) (set (map EventNode (remove1 e (E q)))) \<Longrightarrow> h m = ev_next s m"
    using clist_remove_in [OF c, of "EventNode e"] True unfolding r by auto
  have notin: "e \<notin> set (remove1 e (E q))" using d by simp
  then have "clist (h(EventNode e := Null)) (EventQueue q) (map EventNode (remove1 e (E q)))"
    using h(2) by (subst clist_cong [of _ _ _ h]) auto
  then have "events_ok (s\<lparr>ev_next := h(EventNode e := Null)\<rparr>) (E(q := remove1 e (E q)))"
  proof (rule events_ok_change [OF ok])
    show "(h(EventNode e := Null)) m = ev_next s m"
      if "m \<notin> EventNode ` (set (remove1 e (E q)) \<union> set (E q))" "m \<noteq> EventQueue q" for m
      using that h(3) [of m] True by auto
    show "e' \<notin> set (E q')" if "e' \<in> set (remove1 e (E q))" "q' \<noteq> q" for e' q'
      using that events_okD(2) [OF ok, of e' q' q] by (meson notin_set_remove1)
    show "(h(EventNode e := Null)) (EventNode e') = Null" if "e' \<in> set (E q)" "e' \<notin> set (remove1 e (E q))" for e'
      using that d by (auto simp: set_remove1_eq)
  qed
  then show thesis
    using h(1) by (intro that [of "s\<lparr>ev_next := h(EventNode e := Null)\<rparr>"]) (simp_all add: event_cancel_def irq_disable_def)
next
  case False
  then have "ev_next s (EventNode e) = Null" using events_okD(3) [OF ok, of e] e by blast
  then have n: "(ev_next s)(EventNode e := Null) = ev_next s" by auto
  have "clist_remove (ev_next s) (EventQueue q) (EventNode e) = Some (Inr (ev_next s, Null))"
    using False by (intro clist_remove_notin [OF events_okD(1) [OF ok, of q]]) auto
  then show thesis
    using ok False by (intro that [of s]) (simp_all add: event_cancel_def irq_disable_def n remove1_idem)
qed

section \<open>Posting\<close>

definition posted :: "event_layout \<Rightarrow> int \<Rightarrow> int \<Rightarrow> event_layout" where
  "posted E q e = (if \<exists>q'. e \<in> set (E q') then E else E(q := E q @ [e]))"

lemma event_post_list:
  assumes ok: "events_ok s E"
  obtains h where "(if ev_next s (EventNode e) = Null
      then clist_rpush (ev_next s) (EventQueue q) (EventNode e) else Inr (ev_next s)) = Inr h"
    and "events_ok (s\<lparr>ev_next := h\<rparr>) (posted E q e)"
proof (cases "\<exists>q'. e \<in> set (E q')")
  case True
  then have "ev_next s (EventNode e) \<noteq> Null" using events_okD(3) [OF ok, of e] by blast
  then show thesis using ok True by (intro that [of "ev_next s"]) (simp_all add: posted_def)
next
  case False
  then have n: "ev_next s (EventNode e) = Null" using events_okD(3) [OF ok, of e] by blast
  have fresh: "EventNode e \<notin> set (EventQueue q # map EventNode (E q))" using False by auto
  obtain h where h: "clist_rpush (ev_next s) (EventQueue q) (EventNode e) = Inr h"
      "clist h (EventQueue q) (map EventNode (E q) @ [EventNode e])"
      "\<And>m. m \<notin> insert (EventQueue q) (insert (EventNode e) (set (map EventNode (E q)))) \<Longrightarrow> h m = ev_next s m"
    by (rule clist_rpush [OF events_okD(1) [OF ok] fresh]) (rule that)
  have "events_ok (s\<lparr>ev_next := h\<rparr>) (E(q := E q @ [e]))"
  proof (rule events_ok_change [OF ok])
    show "clist h (EventQueue q) (map EventNode (E q @ [e]))" using h(2) by simp
    show "h m = ev_next s m" if "m \<notin> EventNode ` (set (E q @ [e]) \<union> set (E q))" "m \<noteq> EventQueue q" for m
      using that by (intro h(3)) auto
    show "e' \<notin> set (E q')" if "e' \<in> set (E q @ [e])" "q' \<noteq> q" for e' q'
      using that False events_okD(2) [OF ok, of e' q' q] by auto
    show "h (EventNode e') = Null" if "e' \<in> set (E q)" "e' \<notin> set (E q @ [e])" for e'
      using that by simp
  qed
  then show thesis using h(1) n False by (intro that [of h]) (simp_all add: posted_def)
qed

lemma flag_event_set: "(f OR THREAD_FLAG_EVENT) AND THREAD_FLAG_EVENT \<noteq> 0" for f :: u16
proof -
  have "bit ((f OR THREAD_FLAG_EVENT) AND THREAD_FLAG_EVENT) 0"
    by (simp add: THREAD_FLAG_EVENT_def bit_simps)
  then show ?thesis by auto
qed

text \<open>A thread that is blocked in \<open>event_wait\<close>.\<close>

definition awaits_event :: "kernel \<Rightarrow> tid \<Rightarrow> bool" where
  "awaits_event k w \<longleftrightarrow>
     status (tcb k w) = STATUS_FLAG_BLOCKED_ANY \<and> wait_data (tcb k w) = FlagMask THREAD_FLAG_EVENT"

text \<open>
  C21: \<open>event_post\<close> never fails and loses no event and no wake-up: an event that is in no queue is
  appended to the queue, one that is already queued stays where it is; the flag of the waiting
  thread is set, and if that thread is blocked in \<open>event_wait\<close> it becomes runnable and a switch is
  pending. No other thread changes, and the invariants of the kernel and of the queues are kept.
\<close>

theorem event_post_wakes:
  assumes ok: "events_ok s E" and inv: "kinv (ev_kernel s) L" and prio: "prio_ok (ev_kernel s)"
    and w: "ev_waiter s q = Some w" and live: "live (ev_kernel s) w"
  shows "\<exists>s' L'. event_post s q e = Inr s' \<and> events_ok s' (posted E q e) \<and>
    kinv (ev_kernel s') L' \<and> prio_ok (ev_kernel s') \<and>
    flags (tcb (ev_kernel s') w) = flags (tcb (ev_kernel s) w) OR THREAD_FLAG_EVENT \<and>
    (awaits_event (ev_kernel s) w \<longrightarrow> runnable (ev_kernel s') w \<and> switch_pending (ev_kernel s')) \<and>
    (\<forall>u. u \<noteq> w \<longrightarrow> tcb (ev_kernel s') u = tcb (ev_kernel s) u)"
proof -
  let ?k = "ev_kernel s"
  let ?th = "set_flags (flags (tcb ?k w) OR THREAD_FLAG_EVENT) (tcb ?k w)"
  obtain h where h: "(if ev_next s (EventNode e) = Null
      then clist_rpush (ev_next s) (EventQueue q) (EventNode e) else Inr (ev_next s)) = Inr h"
      "events_ok (s\<lparr>ev_next := h\<rparr>) (posted E q e)"
    by (rule event_post_list [OF ok]) (rule that)
  obtain k' L' where k': "thread_flags_set ?k w THREAD_FLAG_EVENT = Inr k'" "kinv k' L'" "prio_ok k'" "call_frame ?k k'"
      "tcb k' w = (if flags_due ?th then set_status STATUS_PENDING ?th else ?th)"
      "\<And>u. u \<noteq> w \<Longrightarrow> tcb k' u = tcb ?k u" "flags_due ?th \<Longrightarrow> switch_pending k'"
    by (rule thread_flags_set_sets [OF inv prio live]) (rule that)
  let ?s = "s\<lparr>ev_next := h, ev_kernel := k'\<rparr>"
  have "event_post s q e = Inr ?s"
    unfolding event_post_def irq_disable_def using w h(1) k'(1) by simp
  moreover have "events_ok ?s (posted E q e)" using h(2) by (simp only: events_ok_kernel)
  moreover have "flags (tcb k' w) = flags (tcb ?k w) OR THREAD_FLAG_EVENT"
    using k'(5) by (simp add: set_status_def)
  moreover have "runnable k' w \<and> switch_pending k'" if "awaits_event ?k w"
  proof -
    have due: "flags_due ?th"
      using that flag_event_set [of "flags (tcb ?k w)"] by (simp add: flags_due_def awaits_event_def)
    then have "status (tcb k' w) = STATUS_PENDING" using k'(5) by (simp add: set_status_def)
    moreover have "live k' w" using k'(4) live by (simp add: call_frame_def)
    ultimately show ?thesis using k'(7) [OF due] by (simp add: runnable_def)
  qed
  ultimately show ?thesis using k'(2,3,6) by (intro exI [of _ ?s] exI [of _ L']) simp
qed

definition demo_events :: events where
  "demo_events = \<lparr>ev_kernel = demo, ev_next = (\<lambda>_. Null), ev_waiter = (\<lambda>q. if q = 1 then Some 1000 else None)\<rparr>"

lemma demo_events_ok: "events_ok demo_events (\<lambda>_. [])"
  by (simp add: events_ok_def demo_events_def clist_def)

theorem event_post_wakes_witness:
  "\<exists>s' L'. event_post demo_events 1 7 = Inr s' \<and> events_ok s' (posted (\<lambda>_. []) 1 7) \<and>
    kinv (ev_kernel s') L' \<and> prio_ok (ev_kernel s') \<and> flags (tcb (ev_kernel s') 1000) = 1"
proof -
  have d: "ev_kernel demo_events = demo" "ev_waiter demo_events 1 = Some 1000" by (simp_all add: demo_events_def)
  have "live demo 1000" by (simp add: demo_live)
  then show ?thesis
    using event_post_wakes [OF demo_events_ok, unfolded d(1), OF demo_kinv demo_prio_ok d(2), of 7]
    by (auto simp: THREAD_FLAG_EVENT_def)
qed

section \<open>Waiting for an event\<close>

lemma event_wait_Cons:
  assumes "events_ok s E" and "E q = e # es"
  obtains s' where "event_wait s q = Inr (s', Done (Ptr (EventNode e)))" and "events_ok s' (E(q := es))"
    and "ev_kernel s' = ev_kernel s"
proof -
  obtain h where h: "event_pop s q = Inr (s\<lparr>ev_next := h\<rparr>, Ptr (EventNode e))"
      "events_ok (s\<lparr>ev_next := h(EventNode e := Null)\<rparr>) (E(q := es))"
    by (rule event_pop_Cons [OF assms]) (rule that)
  then show thesis
    by (intro that [of "s\<lparr>ev_next := h(EventNode e := Null)\<rparr>"])
      (simp_all add: event_wait_def event_wait_loop.simps)
qed

lemma event_wait_block:
  assumes ok: "events_ok s E" and q: "E q = []" and inv: "kinv (ev_kernel s) L" and ctx: "thread_context (ev_kernel s) t"
    and f: "flags (tcb (ev_kernel s) t) AND THREAD_FLAG_EVENT = 0"
  obtains k' L' where "event_wait_loop s q = Some (Inr (s\<lparr>ev_kernel := k'\<rparr>, Blocked))" and "kinv k' L'"
    and "awaits_event k' t" and "switch_pending k'" and "flags (tcb k' t) = flags (tcb (ev_kernel s) t)"
proof (rule wait_any_cases [OF inv ctx, of THREAD_FLAG_EVENT])
  fix k' L'
  assume k': "u_thread_flags_wait_any (ev_kernel s) THREAD_FLAG_EVENT = Inr (k', Blocked)" "kinv k' L'" "msip k'"
    "tcb k' t = set_status STATUS_FLAG_BLOCKED_ANY (set_wait_data (FlagMask THREAD_FLAG_EVENT) (tcb (ev_kernel s) t))"
  then have "event_wait_loop s q = Some (Inr (s\<lparr>ev_kernel := k'\<rparr>, Blocked))"
    by (subst event_wait_loop.simps) (simp add: event_pop_Nil [OF ok q] thread_flags_wait_any_def)
  then show thesis using k' by (intro that [of k' L']) (simp_all add: awaits_event_def switch_pending_def set_status_def)
qed (use f in simp)

lemma and_not_flag: "f AND NOT THREAD_FLAG_EVENT AND THREAD_FLAG_EVENT = 0" for f :: u16
  by (rule bit_word_eqI) (auto simp: bit_simps)

lemma event_wait_Nil:
  assumes ok: "events_ok s E" and q: "E q = []" and inv: "kinv (ev_kernel s) L" and ctx: "thread_context (ev_kernel s) t"
  obtains k' L' where "event_wait s q = Inr (s\<lparr>ev_kernel := k'\<rparr>, Blocked)" and "kinv k' L'"
    and "awaits_event k' t" and "switch_pending k'"
    and "flags (tcb k' t) = flags (tcb (ev_kernel s) t) AND NOT THREAD_FLAG_EVENT"
proof (cases "flags (tcb (ev_kernel s) t) AND THREAD_FLAG_EVENT = 0")
  case True
  have "flags (tcb (ev_kernel s) t) AND NOT THREAD_FLAG_EVENT = flags (tcb (ev_kernel s) t)"
    using bit.conj_disj_distrib [of "flags (tcb (ev_kernel s) t)" THREAD_FLAG_EVENT "NOT THREAD_FLAG_EVENT"] True by simp
  moreover obtain k' L' where "event_wait_loop s q = Some (Inr (s\<lparr>ev_kernel := k'\<rparr>, Blocked))" "kinv k' L'"
      "awaits_event k' t" "switch_pending k'" "flags (tcb k' t) = flags (tcb (ev_kernel s) t)"
    by (rule event_wait_block [OF ok q inv ctx True]) (rule that)
  ultimately show thesis by (intro that [of k' L']) (simp_all add: event_wait_def)
next
  case False
  let ?k = "upd_thread t (set_flags (flags (tcb (ev_kernel s) t) AND NOT THREAD_FLAG_EVENT)) (ev_kernel s)"
  let ?s = "s\<lparr>ev_kernel := ?k\<rparr>"
  have ok': "events_ok ?s E" using ok by simp
  have k: "kinv (ev_kernel ?s) L" "thread_context (ev_kernel ?s) t"
    using inv ctx by (simp_all add: thread_context_def)
  have f: "flags (tcb (ev_kernel ?s) t) AND THREAD_FLAG_EVENT = 0" by (simp add: and_not_flag and.assoc)
  have "u_thread_flags_wait_any (ev_kernel s) THREAD_FLAG_EVENT = Inr (ev_kernel s, Done ())"
    by (rule wait_any_cases [OF inv ctx, of THREAD_FLAG_EVENT]) (use False in simp_all)
  then have "event_wait_loop s q = event_wait_loop ?s q"
    by (subst event_wait_loop.simps)
      (simp add: event_pop_Nil [OF ok q] thread_flags_wait_any_def wait_resume_eq [OF thread_contextD(1) [OF ctx]])
  moreover obtain k' L' where "event_wait_loop ?s q = Some (Inr (?s\<lparr>ev_kernel := k'\<rparr>, Blocked))" "kinv k' L'"
      "awaits_event k' t" "switch_pending k'" "flags (tcb k' t) = flags (tcb (ev_kernel ?s) t)"
    by (rule event_wait_block [where E = E, OF ok' q k f]) (rule that)
  ultimately show thesis by (intro that [of k' L']) (simp_all add: event_wait_def)
qed

text \<open>
  C22: \<open>event_wait\<close> takes the oldest event of the queue, which can be posted again then, without
  blocking; on an empty queue it returns after at most one look at a stale flag, with the caller
  blocked for the flag \<open>event_post\<close> sets and that flag cleared. The same holds for the rest of the call
  when the blocked thread runs again.
\<close>

theorem event_wait_takes_oldest:
  assumes "events_ok s E" and "kinv (ev_kernel s) L" and "thread_context (ev_kernel s) t"
    and "wait = event_wait \<or> wait = event_wait_resume"
  shows "if E q = []
    then \<exists>s' L'. wait s q = Inr (s', Blocked) \<and> events_ok s' E \<and> kinv (ev_kernel s') L' \<and>
      awaits_event (ev_kernel s') t \<and> switch_pending (ev_kernel s') \<and>
      flags (tcb (ev_kernel s') t) = flags (tcb (ev_kernel s) t) AND NOT THREAD_FLAG_EVENT
    else \<exists>s'. wait s q = Inr (s', Done (Ptr (EventNode (hd (E q))))) \<and> events_ok s' (E(q := tl (E q))) \<and>
      kinv (ev_kernel s') L \<and> thread_context (ev_kernel s') t \<and>
      ev_next s' (EventNode (hd (E q))) = Null"
proof -
  define k where "k = (if wait = event_wait then ev_kernel s
    else upd_thread t (set_flags (flags (tcb (ev_kernel s) t) AND NOT THREAD_FLAG_EVENT)) (ev_kernel s))"
  let ?s = "s\<lparr>ev_kernel := k\<rparr>"
  have w: "wait s q = event_wait ?s q"
    using assms(4) wait_resume_eq(1) [OF thread_contextD(1) [OF assms(3)], of THREAD_FLAG_EVENT]
    by (auto simp: event_wait_resume_def k_def)
  have ok: "events_ok ?s E" using assms(1) by simp
  have k: "kinv (ev_kernel ?s) L" "thread_context (ev_kernel ?s) t"
      "flags (tcb k t) AND NOT THREAD_FLAG_EVENT = flags (tcb (ev_kernel s) t) AND NOT THREAD_FLAG_EVENT"
    using assms(2,3) by (simp_all add: k_def thread_context_def and.assoc)
  show ?thesis
  proof (cases "E q")
    case Nil
    obtain k' L' where "event_wait ?s q = Inr (?s\<lparr>ev_kernel := k'\<rparr>, Blocked)" "kinv k' L'"
        "awaits_event k' t" "switch_pending k'"
        "flags (tcb k' t) = flags (tcb (ev_kernel ?s) t) AND NOT THREAD_FLAG_EVENT"
      by (rule event_wait_Nil [OF ok Nil k(1,2)]) (rule that)
    then have "wait s q = Inr (s\<lparr>ev_kernel := k'\<rparr>, Blocked) \<and> kinv k' L' \<and> awaits_event k' t \<and> switch_pending k' \<and>
        flags (tcb k' t) = flags (tcb (ev_kernel s) t) AND NOT THREAD_FLAG_EVENT"
      using w k(3) by simp
    then show ?thesis unfolding if_P [OF Nil]
      using assms(1) by (intro exI [of _ "s\<lparr>ev_kernel := k'\<rparr>"] exI [of _ L']) simp
  next
    case (Cons e es)
    obtain s' where s': "event_wait ?s q = Inr (s', Done (Ptr (EventNode e)))" "events_ok s' (E(q := es))"
        "ev_kernel s' = ev_kernel ?s"
      by (rule event_wait_Cons [OF ok Cons]) (rule that)
    have "\<forall>q'. e \<notin> set ((E(q := es)) q')"
      using events_okD(2) [OF assms(1), of e q] events_okD(1) [OF assms(1), of q] Cons by (auto simp: clist_def)
    then have "ev_next s' (EventNode e) = Null" using events_okD(3) [OF s'(2), of e] by blast
    then show ?thesis using Cons s' w k by simp
  qed
qed

theorem event_wait_takes_oldest_witness:
  "\<exists>s' L'. event_wait demo_events 1 = Inr (s', Blocked) \<and> events_ok s' (\<lambda>_. []) \<and> kinv (ev_kernel s') L' \<and>
      awaits_event (ev_kernel s') 200 \<and> switch_pending (ev_kernel s')"
proof -
  have "ev_kernel demo_events = demo" by (simp add: demo_events_def)
  then show ?thesis
    using event_wait_takes_oldest [OF demo_events_ok, of demo_layout 200 event_wait 1] demo_kinv demo_context by auto
qed

end
