(* ===== verification/Ringbuffer.thy ===== *)
theory Ringbuffer
  imports Prelude
begin

text \<open>
  Ring buffers of bytes: \<open>core/ringbuffer.c\<close> with its start and fill level, and the thread safe
  \<open>sys/tsrb/tsrb.c\<close> with two counters that only grow and wrap around. Both are a first-in
  first-out queue of bounded size; that contract is the locale \<open>byte_fifo\<close>.
\<close>

section \<open>The contract\<close>

text \<open>The loops both files have: put in bytes until the buffer is full, take out until it is empty.\<close>

fun fill :: "('r \<Rightarrow> bool) \<Rightarrow> ('r \<Rightarrow> u8 \<Rightarrow> fault + 'r) \<Rightarrow> u8 list \<Rightarrow> 'r \<Rightarrow> fault + ('r \<times> nat)" where
  "fill full push [] r = Inr (r, 0)"
| "fill full push (c # cs) r =
     (if full r then Inr (r, 0)
      else bindE (push r c) (\<lambda>r. bindE (fill full push cs r) (\<lambda>(r, n). Inr (r, Suc n))))"

fun drain :: "('r \<Rightarrow> bool) \<Rightarrow> ('r \<Rightarrow> fault + ('r \<times> u8)) \<Rightarrow> nat \<Rightarrow> 'r \<Rightarrow> fault + ('r \<times> u8 list)" where
  "drain emp pop 0 r = Inr (r, [])"
| "drain emp pop (Suc n) r =
     (if emp r then Inr (r, [])
      else bindE (pop r) (\<lambda>(r, c). bindE (drain emp pop n r) (\<lambda>(r, cs). Inr (r, c # cs))))"

locale byte_fifo =
  fixes push :: "'r \<Rightarrow> u8 \<Rightarrow> fault + 'r" and pop :: "'r \<Rightarrow> fault + ('r \<times> u8)"
    and full :: "'r \<Rightarrow> bool" and emp :: "'r \<Rightarrow> bool"
    and content :: "'r \<Rightarrow> u8 list" and cap :: "'r \<Rightarrow> nat" and invar :: "'r \<Rightarrow> bool"
  assumes content_cap: "invar r \<Longrightarrow> length (content r) \<le> cap r"
    and full_iff: "invar r \<Longrightarrow> full r \<longleftrightarrow> length (content r) = cap r"
    and emp_iff: "invar r \<Longrightarrow> emp r \<longleftrightarrow> content r = []"
    and push_ok: "invar r \<Longrightarrow> length (content r) < cap r \<Longrightarrow>
      \<exists>r'. push r c = Inr r' \<and> invar r' \<and> cap r' = cap r \<and> content r' = content r @ [c]"
    and pop_ok: "invar r \<Longrightarrow> content r = c # cs \<Longrightarrow>
      \<exists>r'. pop r = Inr (r', c) \<and> invar r' \<and> cap r' = cap r \<and> content r' = cs"
begin

lemma fill_appends:
  assumes "invar r"
  shows "\<exists>r'. fill full push cs r = Inr (r', min (length cs) (cap r - length (content r))) \<and> invar r' \<and>
    cap r' = cap r \<and> content r' = content r @ take (cap r - length (content r)) cs"
  using assms
proof (induction cs arbitrary: r)
  case Nil
  then show ?case by simp
next
  case (Cons c cs)
  show ?case
  proof (cases "full r")
    case True
    then show ?thesis using Cons.prems by (simp add: full_iff)
  next
    case False
    then have less: "length (content r) < cap r" using full_iff content_cap [OF Cons.prems] Cons.prems by fastforce
    then obtain r1 where r1: "push r c = Inr r1" "invar r1" "cap r1 = cap r" "content r1 = content r @ [c]"
      using push_ok Cons.prems by blast
    obtain k where "cap r - length (content r) = Suc k" "cap r - length (content r1) = k"
      using less r1(4) by (metis Suc_diff_Suc length_append_singleton)
    then show ?thesis using Cons.IH [OF r1(2)] r1 False by auto
  qed
qed

lemma drain_takes:
  assumes "invar r"
  shows "\<exists>r'. drain emp pop n r = Inr (r', take n (content r)) \<and> invar r' \<and> cap r' = cap r \<and>
    content r' = drop n (content r)"
  using assms
proof (induction n arbitrary: r)
  case 0
  then show ?case by simp
next
  case (Suc n)
  show ?case
  proof (cases "content r")
    case Nil
    then show ?thesis using Suc.prems by (simp add: emp_iff)
  next
    case (Cons c cs)
    then obtain r1 where r1: "pop r = Inr (r1, c)" "invar r1" "cap r1 = cap r" "content r1 = cs"
      using pop_ok Suc.prems by blast
    then show ?thesis using Suc.IH [OF r1(2)] Cons Suc.prems by (auto simp: emp_iff)
  qed
qed

text \<open>What goes in comes out, in order.\<close>

lemma fill_drain:
  assumes "invar r" and "length (content r) + length cs \<le> cap r"
  shows "\<exists>r' r''. fill full push cs r = Inr (r', length cs) \<and>
    drain emp pop (length (content r) + length cs) r' = Inr (r'', content r @ cs) \<and> content r'' = []"
proof -
  obtain r' where r': "fill full push cs r = Inr (r', min (length cs) (cap r - length (content r)))" "invar r'"
    "content r' = content r @ take (cap r - length (content r)) cs"
    using fill_appends [OF assms(1)] by blast
  moreover have "length cs \<le> cap r - length (content r)" using assms(2) by simp
  moreover obtain r'' where "drain emp pop (length (content r) + length cs) r' =
      Inr (r'', take (length (content r) + length cs) (content r'))"
      "content r'' = drop (length (content r) + length cs) (content r')"
    using drain_takes [OF r'(2)] by blast
  ultimately show ?thesis by (auto simp: min_def)
qed

end

section \<open>\<open>core/ringbuffer.c\<close>\<close>

record ringbuffer_t =
  buf :: "u8 list"
  rb_size :: u32
  rb_start :: u32
  rb_avail :: u32

definition ringbuffer_init :: "u8 list \<Rightarrow> u32 \<Rightarrow> ringbuffer_t" where
  "ringbuffer_init buffer bufsize = \<lparr>buf = buffer, rb_size = bufsize, rb_start = 0, rb_avail = 0\<rparr>"

definition ringbuffer_empty :: "ringbuffer_t \<Rightarrow> bool" where
  "ringbuffer_empty rb \<longleftrightarrow> rb_avail rb = 0"

definition ringbuffer_full :: "ringbuffer_t \<Rightarrow> bool" where
  "ringbuffer_full rb \<longleftrightarrow> rb_avail rb = rb_size rb"

definition ringbuffer_get_free :: "ringbuffer_t \<Rightarrow> u32" where
  "ringbuffer_get_free rb = rb_size rb - rb_avail rb"

definition add_tail :: "ringbuffer_t \<Rightarrow> u8 \<Rightarrow> fault + ringbuffer_t" where
  "add_tail rb c =
     (let pos = rb_start rb + rb_avail rb;
          pos = (if rb_size rb \<le> pos then pos - rb_size rb else pos) in
      if unat pos < length (buf rb)
      then Inr (rb\<lparr>rb_avail := rb_avail rb + 1, buf := (buf rb)[unat pos := c]\<rparr>)
      else Inl OutOfBounds)"

definition get_head :: "ringbuffer_t \<Rightarrow> fault + (ringbuffer_t \<times> u8)" where
  "get_head rb =
     (if length (buf rb) \<le> unat (rb_start rb) then Inl OutOfBounds
      else
        let result = buf rb ! unat (rb_start rb); rb = rb\<lparr>rb_avail := rb_avail rb - 1\<rparr> in
        if rb_avail rb = 0 then Inr (rb\<lparr>rb_start := 0\<rparr>, result)
        else
          let rb = rb\<lparr>rb_start := rb_start rb + 1\<rparr> in
          Inr (if rb_start rb = rb_size rb then rb\<lparr>rb_start := 0\<rparr> else rb, result))"

definition ringbuffer_add :: "ringbuffer_t \<Rightarrow> u8 list \<Rightarrow> fault + (ringbuffer_t \<times> nat)" where
  "ringbuffer_add rb src = fill ringbuffer_full add_tail src rb"

definition ringbuffer_add_one :: "ringbuffer_t \<Rightarrow> u8 \<Rightarrow> fault + (ringbuffer_t \<times> int)" where
  "ringbuffer_add_one rb c =
     bindE (if ringbuffer_full rb
            then bindE (get_head rb) (\<lambda>(rb, x). Inr (rb, uint x))
            else Inr (rb, - 1)) (\<lambda>(rb, result).
     bindE (add_tail rb c) (\<lambda>rb. Inr (rb, result)))"

definition ringbuffer_get_one :: "ringbuffer_t \<Rightarrow> fault + (ringbuffer_t \<times> int)" where
  "ringbuffer_get_one rb =
     (if \<not> ringbuffer_empty rb then bindE (get_head rb) (\<lambda>(rb, x). Inr (rb, uint x))
      else Inr (rb, - 1))"

text \<open>\<open>memcpy (dst, buf + from, n)\<close>: the bytes copied.\<close>

definition copied :: "u8 list \<Rightarrow> u32 \<Rightarrow> u32 \<Rightarrow> fault + u8 list" where
  "copied b from n =
     (if unat from + unat n \<le> length b then Inr (take (unat n) (drop (unat from) b)) else Inl OutOfBounds)"

definition ringbuffer_get :: "ringbuffer_t \<Rightarrow> u32 \<Rightarrow> fault + (ringbuffer_t \<times> u8 list)" where
  "ringbuffer_get rb n =
     (let n = (if rb_avail rb < n then rb_avail rb else n) in
      if n = 0 then Inr (rb, [])
      else
        let bytes_till_end = rb_size rb - rb_start rb in
        if n \<le> bytes_till_end then
          bindE (copied (buf rb) (rb_start rb) n) (\<lambda>dst.
            Inr (rb\<lparr>rb_start := (if bytes_till_end = n then 0 else rb_start rb + n),
                    rb_avail := rb_avail rb - n\<rparr>, dst))
        else
          bindE (copied (buf rb) (rb_start rb) bytes_till_end) (\<lambda>d1.
          let rb = rb\<lparr>rb_start := n - bytes_till_end\<rparr> in
          bindE (copied (buf rb) 0 (rb_start rb)) (\<lambda>d2.
            Inr (rb\<lparr>rb_avail := rb_avail rb - n\<rparr>, d1 @ d2))))"

definition ringbuffer_remove :: "ringbuffer_t \<Rightarrow> u32 \<Rightarrow> ringbuffer_t \<times> u32" where
  "ringbuffer_remove rb n =
     (if rb_avail rb < n then (rb\<lparr>rb_start := 0, rb_avail := 0\<rparr>, rb_avail rb)
      else
        let rb = rb\<lparr>rb_start := rb_start rb + n, rb_avail := rb_avail rb - n\<rparr> in
        (if rb_size rb < rb_start rb then rb\<lparr>rb_start := rb_start rb - rb_size rb\<rparr> else rb, n))"

definition ringbuffer_peek_one :: "ringbuffer_t \<Rightarrow> fault + int" where
  "ringbuffer_peek_one rb = bindE (ringbuffer_get_one rb) (\<lambda>(_, x). Inr x)"

definition ringbuffer_peek :: "ringbuffer_t \<Rightarrow> u32 \<Rightarrow> fault + u8 list" where
  "ringbuffer_peek rb n = bindE (ringbuffer_get rb n) (\<lambda>(_, bs). Inr bs)"

section \<open>\<open>sys/tsrb/tsrb.c\<close>\<close>

record tsrb_t =
  ts_buf :: "u8 list"
  ts_size :: u32
  reads :: u32
  writes :: u32

definition tsrb_init :: "u8 list \<Rightarrow> u32 \<Rightarrow> fault + tsrb_t" where
  "tsrb_init buffer bufsize =
     assertE (bufsize \<noteq> 0 \<and> bufsize AND (NOT bufsize + 1) = bufsize)
       \<lparr>ts_buf = buffer, ts_size = bufsize, reads = 0, writes = 0\<rparr>"

definition tsrb_empty :: "tsrb_t \<Rightarrow> bool" where
  "tsrb_empty rb \<longleftrightarrow> reads rb = writes rb"

definition tsrb_avail :: "tsrb_t \<Rightarrow> u32" where
  "tsrb_avail rb = writes rb - reads rb"

definition tsrb_full :: "tsrb_t \<Rightarrow> bool" where
  "tsrb_full rb \<longleftrightarrow> writes rb - reads rb = ts_size rb"

definition tsrb_free :: "tsrb_t \<Rightarrow> u32" where
  "tsrb_free rb = ts_size rb - writes rb + reads rb"

definition u_push :: "tsrb_t \<Rightarrow> u8 \<Rightarrow> fault + tsrb_t" where
  "u_push rb c =
     (let i = unat (writes rb AND (ts_size rb - 1)) in
      if i < length (ts_buf rb) then Inr (rb\<lparr>writes := writes rb + 1, ts_buf := (ts_buf rb)[i := c]\<rparr>)
      else Inl OutOfBounds)"

definition u_pop :: "tsrb_t \<Rightarrow> fault + (tsrb_t \<times> u8)" where
  "u_pop rb =
     (let i = unat (reads rb AND (ts_size rb - 1)) in
      if i < length (ts_buf rb) then Inr (rb\<lparr>reads := reads rb + 1\<rparr>, ts_buf rb ! i) else Inl OutOfBounds)"

text \<open>\<open>char\<close> is unsigned on RISC-V, so the byte is not extended with its sign.\<close>

definition tsrb_get_one :: "tsrb_t \<Rightarrow> fault + (tsrb_t \<times> int)" where
  "tsrb_get_one rb =
     (if \<not> tsrb_empty rb then bindE (u_pop rb) (\<lambda>(rb, x). Inr (rb, uint x)) else Inr (rb, - 1))"

definition tsrb_get :: "tsrb_t \<Rightarrow> nat \<Rightarrow> fault + (tsrb_t \<times> u8 list)" where
  "tsrb_get rb n = drain tsrb_empty u_pop n rb"

definition tsrb_drop :: "tsrb_t \<Rightarrow> nat \<Rightarrow> fault + (tsrb_t \<times> nat)" where
  "tsrb_drop rb n = bindE (drain tsrb_empty u_pop n rb) (\<lambda>(rb, cs). Inr (rb, length cs))"

definition tsrb_add_one :: "tsrb_t \<Rightarrow> u8 \<Rightarrow> fault + (tsrb_t \<times> int)" where
  "tsrb_add_one rb c =
     (if \<not> tsrb_full rb then bindE (u_push rb c) (\<lambda>rb. Inr (rb, 0)) else Inr (rb, - 1))"

definition tsrb_add :: "tsrb_t \<Rightarrow> u8 list \<Rightarrow> fault + (tsrb_t \<times> nat)" where
  "tsrb_add rb src = fill tsrb_full u_push src rb"

section \<open>Both are queues\<close>

text \<open>\<open>n\<close> elements of an array read around its end, from \<open>s\<close> on.\<close>

definition ring :: "'a list \<Rightarrow> nat \<Rightarrow> nat \<Rightarrow> 'a list" where
  "ring xs s n = map (\<lambda>i. xs ! ((s + i) mod length xs)) [0..<n]"

lemma length_ring [simp]: "length (ring xs s n) = n"
  by (simp add: ring_def)

lemma ring_0 [simp]: "ring xs s 0 = []"
  by (simp add: ring_def)

lemma ring_Suc: "ring xs s (Suc n) = xs ! (s mod length xs) # ring xs (Suc s) n"
  by (simp add: ring_def map_upt_Suc del: upt_Suc)

lemma ring_mod [simp]: "ring xs (s mod length xs) n = ring xs s n"
  by (simp add: ring_def mod_add_left_eq)

lemma ring_wrap: "ring xs (s + length xs) n = ring xs s n"
  using ring_mod [of xs "s + length xs" n] ring_mod [of xs s n] by (metis mod_add_self2)

lemma drop_ring: "drop k (ring xs s n) = ring xs (s + k) (n - k)"
  by (rule nth_equalityI) (simp_all add: ring_def less_diff_conv ac_simps)

lemma ring_put:
  assumes "n < length xs"
  shows "ring (xs[(s + n) mod length xs := c]) s (Suc n) = ring xs s n @ [c]"
proof -
  have "(s + n) mod length xs \<noteq> (s + i) mod length xs" if "i < n" for i
    using add_mod_inj [of s i "length xs" n] that assms by auto
  then have "xs[(s + n) mod length xs := c] ! ((s + i) mod length xs) = xs ! ((s + i) mod length xs)" if "i < n" for i
    using that by (metis nth_list_update_neq)
  moreover have "(s + n) mod length xs < length xs" using assms by (auto intro!: mod_less_divisor)
  ultimately show ?thesis by (simp add: ring_def)
qed

lemma ring_split:
  assumes "s < length xs" and "n \<le> length xs"
  shows "ring xs s n =
    (if s + n \<le> length xs then take n (drop s xs) else drop s xs @ take (n - (length xs - s)) xs)"
proof (rule nth_equalityI)
  show "length (ring xs s n) =
      length (if s + n \<le> length xs then take n (drop s xs) else drop s xs @ take (n - (length xs - s)) xs)"
    using assms by auto
  fix i
  assume "i < length (ring xs s n)"
  then have i: "i < n" by simp
  have "(s + i) mod length xs = (if s + i < length xs then s + i else s + i - length xs)"
    using assms i by (auto simp: mod_if)
  then show "ring xs s n ! i =
      (if s + n \<le> length xs then take n (drop s xs) else drop s xs @ take (n - (length xs - s)) xs) ! i"
    using assms i by (auto simp: ring_def nth_append add.commute)
qed

text \<open>
  A buffer may have up to \<open>2 ^ 31\<close> bytes: beyond that \<open>start + avail\<close> overflows.
\<close>

definition rb_inv :: "ringbuffer_t \<Rightarrow> bool" where
  "rb_inv rb \<longleftrightarrow>
     unat (rb_size rb) = length (buf rb) \<and> length (buf rb) \<le> 2 ^ 31 \<and> rb_avail rb \<le> rb_size rb \<and>
     (rb_start rb < rb_size rb \<or> rb_start rb = 0)"

definition rb_content :: "ringbuffer_t \<Rightarrow> u8 list" where
  "rb_content rb = ring (buf rb) (unat (rb_start rb)) (unat (rb_avail rb))"

lemma length_rb_content [simp]: "length (rb_content rb) = unat (rb_avail rb)"
  by (simp add: rb_content_def)

lemma rb_invD:
  assumes "rb_inv rb"
  shows "unat (rb_size rb) = length (buf rb)" "unat (rb_avail rb) \<le> length (buf rb)"
    "unat (rb_start rb + rb_avail rb) = unat (rb_start rb) + unat (rb_avail rb)"
    "buf rb \<noteq> [] \<Longrightarrow> unat (rb_start rb) < length (buf rb)"
    "unat (rb_start rb) \<le> length (buf rb)" "length (buf rb) \<le> 2 ^ 31"
proof -
  show s: "unat (rb_size rb) = length (buf rb)" "length (buf rb) \<le> 2 ^ 31" using assms by (simp_all add: rb_inv_def)
  show a: "unat (rb_avail rb) \<le> length (buf rb)" using assms s by (simp add: rb_inv_def word_le_nat_alt)
  show "buf rb \<noteq> [] \<Longrightarrow> unat (rb_start rb) < length (buf rb)"
    using assms s by (auto simp: rb_inv_def word_less_nat_alt)
  then show st: "unat (rb_start rb) \<le> length (buf rb)" using assms by (cases "buf rb") (auto simp: rb_inv_def word_less_nat_alt)
  show "unat (rb_start rb + rb_avail rb) = unat (rb_start rb) + unat (rb_avail rb)"
  proof (cases "buf rb = []")
    case True
    then have "rb_start rb = 0" "rb_avail rb = 0" using a st by (simp_all add: unat_eq_0)
    then show ?thesis by simp
  next
    case False
    then have "unat (rb_start rb) + unat (rb_avail rb) < 2 ^ LENGTH(32)"
      using \<open>buf rb \<noteq> [] \<Longrightarrow> unat (rb_start rb) < length (buf rb)\<close> a s(2) by simp
    then show ?thesis by (rule unat_add_lem [THEN iffD1])
  qed
qed

lemma add_tail_appends:
  assumes inv: "rb_inv rb" and room: "unat (rb_avail rb) < length (buf rb)"
  obtains rb' where "add_tail rb c = Inr rb'" and "rb_inv rb'" and "length (buf rb') = length (buf rb)"
    and "rb_content rb' = rb_content rb @ [c]"
proof -
  note d = rb_invD [OF inv]
  let ?len = "length (buf rb)" and ?p = "rb_start rb + rb_avail rb"
  let ?pos = "if rb_size rb \<le> ?p then ?p - rb_size rb else ?p"
  have st: "unat (rb_start rb) < ?len" using d(4) room by (cases "buf rb") auto
  have pos: "unat ?pos = (unat (rb_start rb) + unat (rb_avail rb)) mod ?len"
    using d(1,3) st room by (auto simp: word_le_nat_alt unat_sub mod_if)
  have av: "unat (rb_avail rb + 1) = Suc (unat (rb_avail rb))"
    using room d(6) by (subst unat_add_lem [THEN iffD1]) simp_all
  let ?rb = "rb\<lparr>rb_avail := rb_avail rb + 1, buf := (buf rb)[unat ?pos := c]\<rparr>"
  have "unat ?pos < ?len" unfolding pos using room by (auto intro!: mod_less_divisor)
  then have "add_tail rb c = Inr ?rb" by (simp add: add_tail_def Let_def)
  moreover have "rb_inv ?rb" using inv room d(1) av by (auto simp: rb_inv_def word_le_nat_alt)
  moreover have "rb_content ?rb = rb_content rb @ [c]"
    unfolding rb_content_def pos using ring_put [OF room] by (simp add: av)
  ultimately show thesis by (intro that [of ?rb]) simp_all
qed

lemma get_head_takes:
  assumes inv: "rb_inv rb" and c: "rb_content rb = c # cs"
  obtains rb' where "get_head rb = Inr (rb', c)" and "rb_inv rb'" and "buf rb' = buf rb" and "rb_content rb' = cs"
proof -
  note d = rb_invD [OF inv]
  let ?len = "length (buf rb)" and ?st = "unat (rb_start rb)"
  obtain n where n: "unat (rb_avail rb) = Suc n" using c length_rb_content [of rb] by (cases "unat (rb_avail rb)") auto
  then have ne: "buf rb \<noteq> []" using d(2) by auto
  have hd: "c = buf rb ! ?st" "cs = ring (buf rb) (Suc ?st) n"
    using c d(4) [OF ne] by (simp_all add: rb_content_def n ring_Suc)
  have av: "unat (rb_avail rb - 1) = n" using n by (subst unat_sub) (simp_all add: word_le_nat_alt)
  have st1: "unat (rb_start rb + 1) = Suc ?st"
    using d(4) [OF ne] d(6) by (subst unat_add_lem [THEN iffD1]) simp_all
  let ?rb = "\<lambda>s. rb\<lparr>rb_avail := rb_avail rb - 1, rb_start := s\<rparr>"
  have i0: "rb_inv (?rb 0)" using d(1,2,6) av n by (simp add: rb_inv_def word_le_nat_alt)
  show thesis
  proof (cases "rb_avail rb - 1 = 0 \<or> rb_start rb + 1 = rb_size rb")
    case True
    then have "get_head rb = Inr (?rb 0, c)" using d(4) [OF ne] hd(1) by (auto simp: get_head_def Let_def)
    moreover have "n = 0 \<or> Suc ?st = ?len" using True av st1 d(1) by (metis unat_0)
    then have "rb_content (?rb 0) = cs" using ring_wrap [of "buf rb" 0 n] by (auto simp: rb_content_def hd(2) av)
    ultimately show thesis using i0 by (intro that [of "?rb 0"]) simp_all
  next
    case False
    then have "get_head rb = Inr (?rb (rb_start rb + 1), c)"
      using d(4) [OF ne] hd(1) by (simp add: get_head_def Let_def)
    moreover have "Suc ?st < ?len" using False st1 d(1) d(4) [OF ne] by (metis Suc_lessI word_unat_eq_iff)
    then have "rb_inv (?rb (rb_start rb + 1))" using i0 st1 d(1) by (simp add: rb_inv_def word_less_nat_alt)
    ultimately show thesis
      using hd(2) st1 av by (intro that [of "?rb (rb_start rb + 1)"]) (simp_all add: rb_content_def)
  qed
qed

interpretation rb: byte_fifo add_tail get_head ringbuffer_full ringbuffer_empty rb_content "\<lambda>rb. length (buf rb)" rb_inv
proof unfold_locales
  fix r c
  assume inv: "rb_inv r"
  show "length (rb_content r) \<le> length (buf r)" using rb_invD(2) [OF inv] by simp
  show "ringbuffer_full r \<longleftrightarrow> length (rb_content r) = length (buf r)"
    using rb_invD(1) [OF inv] by (auto simp: ringbuffer_full_def word_unat_eq_iff)
  show "ringbuffer_empty r \<longleftrightarrow> rb_content r = []"
    by (auto simp: ringbuffer_empty_def unat_eq_0 length_0_conv [symmetric] simp del: length_0_conv)
  show "\<exists>r'. add_tail r c = Inr r' \<and> rb_inv r' \<and> length (buf r') = length (buf r) \<and> rb_content r' = rb_content r @ [c]"
    if "length (rb_content r) < length (buf r)"
    using that by (auto elim: add_tail_appends [OF inv])
  show "\<exists>r'. get_head r = Inr (r', c) \<and> rb_inv r' \<and> length (buf r') = length (buf r) \<and> rb_content r' = cs"
    if "rb_content r = c # cs" for cs
    by (rule get_head_takes [OF inv that]) auto
qed

definition ts_inv :: "tsrb_t \<Rightarrow> bool" where
  "ts_inv rb \<longleftrightarrow>
     (\<exists>k < 32. ts_size rb = 2 ^ k \<and> length (ts_buf rb) = 2 ^ k) \<and> unat (writes rb - reads rb) \<le> length (ts_buf rb)"

definition ts_content :: "tsrb_t \<Rightarrow> u8 list" where
  "ts_content rb = ring (ts_buf rb) (unat (reads rb)) (unat (writes rb - reads rb))"

lemma length_ts_content [simp]: "length (ts_content rb) = unat (writes rb - reads rb)"
  by (simp add: ts_content_def)

lemma ts_index:
  assumes "ts_inv rb"
  shows "unat (x AND (ts_size rb - 1)) = unat x mod length (ts_buf rb)"
    and "unat (ts_size rb) = length (ts_buf rb)" and "ts_buf rb \<noteq> []" and "length (ts_buf rb) dvd 2 ^ 32"
proof -
  from assms obtain k where k: "k < 32" "ts_size rb = 2 ^ k" "length (ts_buf rb) = 2 ^ k" by (auto simp: ts_inv_def)
  have "(2 ^ k - 1 :: u32) = mask k" by (simp add: mask_eq_decr_exp)
  then show "unat (x AND (ts_size rb - 1)) = unat x mod length (ts_buf rb)" by (simp add: k unat_and_mask)
  have "(2 :: nat) ^ k < 2 ^ 32" using k(1) by (intro power_strict_increasing) simp_all
  then have "unat (of_nat (2 ^ k) :: u32) = 2 ^ k" unfolding unat_of_nat by simp
  then show "unat (ts_size rb) = length (ts_buf rb)" using k by simp
  show "ts_buf rb \<noteq> []" using k(3) by auto
  show "length (ts_buf rb) dvd 2 ^ 32" unfolding k(3) using k(1) by (intro le_imp_power_dvd) simp
qed

lemma ts_writes:
  assumes "ts_inv rb"
  shows "unat (writes rb) mod length (ts_buf rb) = (unat (reads rb) + unat (writes rb - reads rb)) mod length (ts_buf rb)"
proof -
  have "unat (reads rb + (writes rb - reads rb)) = (unat (reads rb) + unat (writes rb - reads rb)) mod 2 ^ 32"
    by (simp only: unat_word_ariths) simp
  then show ?thesis using ts_index(4) [OF assms] by (simp add: mod_mod_cancel)
qed

interpretation ts: byte_fifo u_push u_pop tsrb_full tsrb_empty ts_content "\<lambda>rb. length (ts_buf rb)" ts_inv
proof unfold_locales
  fix r c
  assume inv: "ts_inv r"
  note x = ts_index [OF inv]
  let ?n = "unat (writes r - reads r)" and ?len = "length (ts_buf r)"
  have le: "?n \<le> ?len" "?len \<le> 2 ^ 31"
    using inv power_increasing [of _ 31 "2 :: nat"] by (auto simp: ts_inv_def)
  then show "length (ts_content r) \<le> ?len" by simp
  show "tsrb_full r \<longleftrightarrow> length (ts_content r) = ?len"
    using x(2) by (auto simp: tsrb_full_def word_unat_eq_iff)
  show "tsrb_empty r \<longleftrightarrow> ts_content r = []"
    by (auto simp: tsrb_empty_def unat_eq_0 length_0_conv [symmetric] simp del: length_0_conv)
  have lt: "unat y mod ?len < ?len" for y :: u32 using x(3) by simp
  show "\<exists>r'. u_push r c = Inr r' \<and> ts_inv r' \<and> length (ts_buf r') = ?len \<and> ts_content r' = ts_content r @ [c]"
    if room: "length (ts_content r) < ?len"
  proof -
    let ?r = "r\<lparr>writes := writes r + 1, ts_buf := (ts_buf r)[unat (writes r) mod ?len := c]\<rparr>"
    have "u_push r c = Inr ?r" using lt by (simp add: u_push_def x(1) Let_def)
    moreover have "writes r + 1 - reads r = (writes r - reads r) + 1" by simp
    then have n: "unat (writes r + 1 - reads r) = Suc ?n"
      using room le by (simp only: length_ts_content) (subst unat_add_lem [THEN iffD1], simp_all)
    moreover have "ts_content ?r = ts_content r @ [c]"
      using ring_put [of ?n "ts_buf r" "unat (reads r)" c] room by (simp add: ts_content_def n ts_writes [OF inv])
    ultimately show ?thesis using inv room by (intro exI [of _ ?r]) (simp add: ts_inv_def)
  qed
  show "\<exists>r'. u_pop r = Inr (r', c) \<and> ts_inv r' \<and> length (ts_buf r') = ?len \<and> ts_content r' = cs"
    if c: "ts_content r = c # cs" for cs
  proof -
    let ?r = "r\<lparr>reads := reads r + 1\<rparr>"
    obtain n where n: "?n = Suc n" using c length_ts_content [of r] by (cases ?n) auto
    then have hd: "c = ts_buf r ! (unat (reads r) mod ?len)" "cs = ring (ts_buf r) (Suc (unat (reads r))) n"
      using c by (simp_all add: ts_content_def ring_Suc)
    have "writes r - (reads r + 1) = (writes r - reads r) - 1" by simp
    then have av: "unat (writes r - (reads r + 1)) = n" using n by (simp only:) (subst unat_sub, simp_all add: word_le_nat_alt)
    have "unat (reads r + 1) mod ?len = Suc (unat (reads r)) mod ?len"
      using x(4) by (simp only: unat_word_ariths) (simp add: mod_mod_cancel)
    then have "ts_content ?r = cs"
      unfolding ts_content_def hd(2) by (simp add: av) (metis ring_mod)
    moreover have "u_pop r = Inr (?r, c)" using lt hd(1) by (simp add: u_pop_def x(1) Let_def)
    ultimately show ?thesis using inv av n by (intro exI [of _ ?r]) (auto simp: ts_inv_def)
  qed
qed

section \<open>Copying in blocks\<close>

lemma rb_advance:
  assumes inv: "rb_inv rb" and n: "unat n \<le> unat (rb_avail rb)"
    and st: "unat st = (unat (rb_start rb) + unat n) mod length (buf rb)" and ne: "buf rb \<noteq> []"
  shows "rb_inv (rb\<lparr>rb_start := st, rb_avail := rb_avail rb - n\<rparr>)"
    and "rb_content (rb\<lparr>rb_start := st, rb_avail := rb_avail rb - n\<rparr>) = drop (unat n) (rb_content rb)"
proof -
  note d = rb_invD [OF inv]
  have av: "unat (rb_avail rb - n) = unat (rb_avail rb) - unat n" using n by (simp add: unat_sub word_le_nat_alt)
  have "unat st < unat (rb_size rb)" unfolding st d(1) using ne by simp
  then show "rb_inv (rb\<lparr>rb_start := st, rb_avail := rb_avail rb - n\<rparr>)"
    using d(1,2,6) av by (simp add: rb_inv_def word_less_nat_alt word_le_nat_alt)
  show "rb_content (rb\<lparr>rb_start := st, rb_avail := rb_avail rb - n\<rparr>) = drop (unat n) (rb_content rb)"
    by (simp add: rb_content_def drop_ring av st)
qed

lemma ringbuffer_get_takes:
  assumes inv: "rb_inv rb"
  obtains rb' where "ringbuffer_get rb n = Inr (rb', take (unat n) (rb_content rb))" and "rb_inv rb'"
    and "buf rb' = buf rb" and "rb_content rb' = drop (unat n) (rb_content rb)"
proof -
  note d = rb_invD [OF inv]
  define m where "m = (if rb_avail rb < n then rb_avail rb else n)"
  let ?st = "unat (rb_start rb)" and ?len = "length (buf rb)" and ?till = "rb_size rb - rb_start rb"
  have n: "unat m \<le> unat (rb_avail rb)" "take (unat n) (rb_content rb) = take (unat m) (rb_content rb)"
    "drop (unat n) (rb_content rb) = drop (unat m) (rb_content rb)"
    by (auto simp: m_def word_less_nat_alt)
  show thesis
  proof (cases "m = 0")
    case True
    then have "unat m = 0" by simp
    then show thesis using True n inv by (intro that [of rb]) (simp_all add: ringbuffer_get_def m_def [symmetric] Let_def)
  next
    case False
    then have ne: "buf rb \<noteq> []" using n(1) d(2) by (metis le_zero_eq length_0_conv unat_eq_0)
    have till: "unat ?till = ?len - ?st" using d(1,5) by (simp add: unat_sub word_le_nat_alt)
    have split: "take (unat m) (rb_content rb) = ring (buf rb) ?st (unat m)"
      using n(1) by (simp add: rb_content_def ring_def take_map)
    note split = split [unfolded ring_split [OF d(4) [OF ne], of "unat m", OF order_trans [OF n(1) d(2)]]]
    show thesis
    proof (cases "m \<le> ?till")
      case True
      let ?s = "if ?till = m then 0 else rb_start rb + m"
      have *: "?st + unat m \<le> ?len" using True till d(5) by (simp add: word_le_nat_alt)
      have "unat ?s = (?st + unat m) mod ?len"
      proof (cases "?till = m")
        case True
        then have "?st + unat m = ?len" using till d(5) by auto
        then show ?thesis using True by simp
      next
        case False
        then have "unat m \<noteq> ?len - ?st" using till by (metis word_unat_eq_iff)
        then have "?st + unat m < ?len" using * by simp
        then show ?thesis using False d(6) by (simp add: unat_add_lem [THEN iffD1])
      qed
      note adv = rb_advance [OF inv n(1) this ne]
      have "ringbuffer_get rb n = Inr (rb\<lparr>rb_start := ?s, rb_avail := rb_avail rb - m\<rparr>, take (unat m) (rb_content rb))"
        using False True * split by (simp add: ringbuffer_get_def m_def [symmetric] Let_def copied_def)
      then show thesis using adv n by (intro that) simp_all
    next
      case wrap: False
      let ?s = "m - ?till"
      have less: "?len - ?st < unat m" using wrap till by (simp add: word_le_nat_alt)
      have s: "unat ?s = unat m - (?len - ?st)" using less till by (simp add: unat_sub word_le_nat_alt)
      have "unat ?s = (?st + unat m) mod ?len"
        using less n(1) d(2) d(4) [OF ne] by (simp add: s mod_if) linarith
      note adv = rb_advance [OF inv n(1) this ne]
      have "unat m + ?st - ?len \<le> ?len" using n(1) d(2) d(4) [OF ne] by linarith
      then have "ringbuffer_get rb n = Inr (rb\<lparr>rb_start := ?s, rb_avail := rb_avail rb - m\<rparr>, take (unat m) (rb_content rb))"
        using False wrap less split s till n(1) d(2) d(4) [OF ne] by (simp add: ringbuffer_get_def m_def [symmetric] Let_def copied_def)
      then show thesis using adv n by (intro that) simp_all
    qed
  qed
qed

lemma ringbuffer_remove_drops:
  assumes inv: "rb_inv rb" and "rb_avail rb < n \<or> unat (rb_start rb) + unat n \<noteq> length (buf rb)"
  shows "rb_inv (fst (ringbuffer_remove rb n))" and "buf (fst (ringbuffer_remove rb n)) = buf rb"
    and "rb_content (fst (ringbuffer_remove rb n)) = drop (unat n) (rb_content rb)"
    and "unat (snd (ringbuffer_remove rb n)) = min (unat n) (length (rb_content rb))"
proof -
  note d = rb_invD [OF inv]
  show "buf (fst (ringbuffer_remove rb n)) = buf rb"
    and "unat (snd (ringbuffer_remove rb n)) = min (unat n) (length (rb_content rb))"
    by (auto simp: ringbuffer_remove_def Let_def word_less_nat_alt)
  have "rb_inv (fst (ringbuffer_remove rb n)) \<and> rb_content (fst (ringbuffer_remove rb n)) = drop (unat n) (rb_content rb)"
  proof (cases "rb_avail rb < n \<or> buf rb = []")
    case True
    then have "rb_avail rb < n \<or> n = 0 \<and> rb_avail rb = 0 \<and> rb_start rb = 0 \<and> rb_size rb = 0"
      using d(1,2,5) by (auto simp: word_less_nat_alt unat_eq_0)
    then show ?thesis
    proof
      assume "rb_avail rb < n"
      then show ?thesis using d(1,6) by (simp add: ringbuffer_remove_def rb_inv_def rb_content_def word_less_nat_alt)
    next
      assume *: "n = 0 \<and> rb_avail rb = 0 \<and> rb_start rb = 0 \<and> rb_size rb = 0"
      then have "fst (ringbuffer_remove rb n) = rb" by (simp add: ringbuffer_remove_def Let_def)
      then show ?thesis using inv * by simp
    qed
  next
    case False
    then have le: "unat n \<le> unat (rb_avail rb)" and ne: "buf rb \<noteq> []" by (simp_all add: word_less_nat_alt)
    have sum: "unat (rb_start rb + n) = unat (rb_start rb) + unat n"
      using le d(2,6) d(4) [OF ne] by (subst unat_add_lem [THEN iffD1]) simp_all
    let ?s = "if rb_size rb < rb_start rb + n then rb_start rb + n - rb_size rb else rb_start rb + n"
    have "unat ?s = (unat (rb_start rb) + unat n) mod length (buf rb)"
      using sum d(1) le d(2) d(4) [OF ne] assms(2) False
      by (auto simp: word_less_nat_alt unat_sub word_le_nat_alt mod_if)
    note adv = rb_advance [OF inv le this ne]
    have "fst (ringbuffer_remove rb n) = rb\<lparr>rb_start := ?s, rb_avail := rb_avail rb - n\<rparr>"
      using False by (simp add: ringbuffer_remove_def Let_def)
    then show ?thesis using adv by simp
  qed
  then show "rb_inv (fst (ringbuffer_remove rb n))"
    and "rb_content (fst (ringbuffer_remove rb n)) = drop (unat n) (rb_content rb)" by simp_all
qed

lemma ringbuffer_add_one_appends:
  assumes "rb_inv rb" and "buf rb \<noteq> []"
  obtains rb' where "ringbuffer_add_one rb c = Inr (rb', if ringbuffer_full rb then uint (hd (rb_content rb)) else - 1)"
    and "rb_inv rb'" and "rb_content rb' = (if ringbuffer_full rb then tl (rb_content rb) else rb_content rb) @ [c]"
proof (cases "ringbuffer_full rb")
  case True
  then have "length (rb_content rb) = length (buf rb)" using rb.full_iff [OF assms(1)] by simp
  then obtain x xs where x: "rb_content rb = x # xs" "length xs < length (buf rb)"
    using assms(2) by (cases "rb_content rb") auto
  obtain r1 where r1: "get_head rb = Inr (r1, x)" "rb_inv r1" "length (buf r1) = length (buf rb)" "rb_content r1 = xs"
    using rb.pop_ok [OF assms(1) x(1)] by blast
  then obtain r2 where "add_tail r1 c = Inr r2" "rb_inv r2" "rb_content r2 = xs @ [c]"
    using rb.push_ok [of r1 c] x(2) by auto
  then show thesis using True r1 x by (intro that [of r2]) (simp_all add: ringbuffer_add_one_def)
next
  case False
  then have "length (rb_content rb) < length (buf rb)" using rb.full_iff rb.content_cap assms(1) by (metis le_neq_implies_less)
  then obtain r2 where "add_tail rb c = Inr r2" "rb_inv r2" "rb_content r2 = rb_content rb @ [c]"
    using rb.push_ok [OF assms(1)] by blast
  then show thesis using False by (intro that [of r2]) (simp_all add: ringbuffer_add_one_def)
qed

section \<open>Properties\<close>

text \<open>
  C27: \<open>ringbuffer_get\<close>, which copies in at most two blocks, takes out the same bytes as taking
  them out one at a time, the oldest first, and leaves the same bytes in the buffer; it never reads
  outside the buffer.
\<close>

theorem ringbuffer_get_blockwise:
  assumes "rb_inv rb"
  shows "\<exists>rb1 rb2 bs. ringbuffer_get rb n = Inr (rb1, bs) \<and>
    drain ringbuffer_empty get_head (unat n) rb = Inr (rb2, bs) \<and> bs = take (unat n) (rb_content rb) \<and>
    rb_content rb1 = drop (unat n) (rb_content rb) \<and> rb_content rb2 = rb_content rb1 \<and> rb_inv rb1 \<and> rb_inv rb2"
proof -
  obtain rb1 where "ringbuffer_get rb n = Inr (rb1, take (unat n) (rb_content rb))" "rb_inv rb1"
    "rb_content rb1 = drop (unat n) (rb_content rb)"
    by (rule ringbuffer_get_takes [OF assms]) (rule that)
  then show ?thesis using rb.drain_takes [OF assms, of "unat n"] by auto
qed

theorem ringbuffer_get_blockwise_witness:
  "let rb = \<lparr>buf = [1, 2, 3, 4], rb_size = 4, rb_start = 3, rb_avail = 3\<rparr> in
   \<exists>rb1 rb2 bs. ringbuffer_get rb 2 = Inr (rb1, bs) \<and>
    drain ringbuffer_empty get_head (unat (2 :: u32)) rb = Inr (rb2, bs) \<and> bs = take (unat (2 :: u32)) (rb_content rb) \<and>
    rb_content rb1 = drop (unat (2 :: u32)) (rb_content rb) \<and> rb_content rb2 = rb_content rb1 \<and> rb_inv rb1 \<and> rb_inv rb2"
  unfolding Let_def by (rule ringbuffer_get_blockwise) (simp add: rb_inv_def)

text \<open>
  C37: \<open>ringbuffer_remove\<close> drops the \<open>n\<close> oldest bytes, except when the bytes dropped end exactly at
  the end of the buffer: then \<open>start\<close> is left equal to \<open>size\<close>, and if bytes remain the
  next read is outside the buffer.
\<close>

theorem ringbuffer_remove_boundary:
  assumes "rb_inv rb"
  shows "(rb_avail rb < n \<or> unat (rb_start rb) + unat n \<noteq> length (buf rb) \<longrightarrow>
       rb_inv (fst (ringbuffer_remove rb n)) \<and>
       rb_content (fst (ringbuffer_remove rb n)) = drop (unat n) (rb_content rb)) \<and>
     (n < rb_avail rb \<and> unat (rb_start rb) + unat n = length (buf rb) \<longrightarrow>
       rb_start (fst (ringbuffer_remove rb n)) = rb_size rb \<and>
       ringbuffer_get_one (fst (ringbuffer_remove rb n)) = Inl OutOfBounds)"
proof (intro conjI impI)
  assume "rb_avail rb < n \<or> unat (rb_start rb) + unat n \<noteq> length (buf rb)"
  from ringbuffer_remove_drops [OF assms this] show "rb_inv (fst (ringbuffer_remove rb n))"
    and "rb_content (fst (ringbuffer_remove rb n)) = drop (unat n) (rb_content rb)" by simp_all
next
  assume *: "n < rb_avail rb \<and> unat (rb_start rb) + unat n = length (buf rb)"
  note d = rb_invD [OF assms]
  have "unat (rb_start rb + n) = length (buf rb)" using * d(6) by (subst unat_add_lem [THEN iffD1]) simp_all
  then have eq: "rb_start rb + n = rb_size rb" using d(1) by (simp add: word_unat_eq_iff)
  have "\<not> rb_avail rb < n" "rb_avail rb - n \<noteq> 0" using * by auto
  then have r: "fst (ringbuffer_remove rb n) = rb\<lparr>rb_start := rb_size rb, rb_avail := rb_avail rb - n\<rparr>"
    by (simp add: ringbuffer_remove_def eq)
  then show "rb_start (fst (ringbuffer_remove rb n)) = rb_size rb" by simp
  show "ringbuffer_get_one (fst (ringbuffer_remove rb n)) = Inl OutOfBounds"
    using \<open>rb_avail rb - n \<noteq> 0\<close> d(1) unfolding r by (simp add: ringbuffer_get_one_def ringbuffer_empty_def get_head_def)
qed

theorem ringbuffer_remove_boundary_witness:
  "let rb = \<lparr>buf = [1, 2, 3, 4], rb_size = 4, rb_start = 3, rb_avail = 3\<rparr> in
     ringbuffer_get_one (fst (ringbuffer_remove rb 1)) = Inl OutOfBounds \<and>
     rb_content (fst (ringbuffer_remove rb 2)) = drop 2 (rb_content rb)"
proof -
  let ?rb = "\<lparr>buf = [1, 2, 3, 4], rb_size = 4, rb_start = 3, rb_avail = 3\<rparr>"
  have i: "rb_inv ?rb" by (simp add: rb_inv_def)
  show ?thesis
    using ringbuffer_remove_boundary [OF i, of 1] ringbuffer_remove_boundary [OF i, of 2] by simp
qed

text \<open>
  C28: Bytes written with \<open>tsrb_add\<close> while they fit come out of \<open>tsrb_get\<close> after those that were
  there before, in order and complete, also when the counters wrap around at \<open>2 ^ 32\<close>.
\<close>

theorem tsrb_add_get:
  assumes "ts_inv rb" and "length (ts_content rb) + length cs \<le> length (ts_buf rb)"
  shows "\<exists>rb1 rb2. tsrb_add rb cs = Inr (rb1, length cs) \<and>
    tsrb_get rb1 (length (ts_content rb) + length cs) = Inr (rb2, ts_content rb @ cs) \<and> ts_content rb2 = []"
  using ts.fill_drain [OF assms] by (simp add: tsrb_add_def tsrb_get_def)

theorem tsrb_add_get_witness:
  "let rb = \<lparr>ts_buf = [1, 2, 3, 4], ts_size = 4, reads = - 1, writes = 1\<rparr> in
   \<exists>rb1 rb2. tsrb_add rb [7, 8] = Inr (rb1, length [7 :: u8, 8]) \<and>
    tsrb_get rb1 (length (ts_content rb) + length [7 :: u8, 8]) = Inr (rb2, ts_content rb @ [7, 8]) \<and> ts_content rb2 = []"
  unfolding Let_def by (rule tsrb_add_get) (auto simp: ts_inv_def intro: exI [of _ 2])

end
