(* ===== verification/Clist_Sort.thy ===== *)
theory Clist_Sort
  imports Lists
begin

text \<open>
  \<open>clist_sort\<close> (\<open>core/clist.c\<close>): a merge sort that relinks the nodes of a circular list from the
  bottom up, without recursion and without memory of its own.
\<close>

section \<open>The loops\<close>

text \<open>\<open>next\<close> of a node of the list that is being sorted, \<open>NULL\<close> when it is the old head again.\<close>

definition next_of :: "'n links \<Rightarrow> 'n \<Rightarrow> 'n \<Rightarrow> 'n ptr" where
  "next_of h oldhead n = (if h n = Ptr oldhead then Null else h n)"

text \<open>\<open>q\<close> goes \<open>insize\<close> places along from \<open>p\<close>; \<open>psize\<close> counts them.\<close>

fun step_along :: "'n links \<Rightarrow> 'n \<Rightarrow> nat \<Rightarrow> 'n ptr \<Rightarrow> nat \<Rightarrow> fault + ('n ptr \<times> nat)" where
  "step_along h oldhead 0 q psize = Inr (q, psize)"
| "step_along h oldhead (Suc i) q psize =
     bindE (the_node q) (\<lambda>n.
       let q = next_of h oldhead n in
       if q = Null then Inr (q, Suc psize) else step_along h oldhead i q (Suc psize))"

definition append_node :: "'n links \<Rightarrow> 'n ptr \<Rightarrow> 'n ptr \<Rightarrow> 'n \<Rightarrow> fault + ('n links \<times> 'n ptr)" where
  "append_node h list tail e =
     (if tail \<noteq> Null then bindE (the_node tail) (\<lambda>t. Inr (h(t := Ptr e), list))
      else Inr (h, Ptr e))"

function merge_loop ::
  "('n \<Rightarrow> 'n \<Rightarrow> int) \<Rightarrow> 'n \<Rightarrow> 'n links \<Rightarrow> 'n ptr \<Rightarrow> nat \<Rightarrow> 'n ptr \<Rightarrow> nat \<Rightarrow> 'n ptr \<Rightarrow> 'n ptr \<Rightarrow>
   fault + ('n links \<times> 'n ptr \<times> 'n ptr \<times> 'n ptr)" where
  "merge_loop cmp oldhead h p psize q qsize list tail =
     (if 0 < psize \<or> 0 < qsize \<and> q \<noteq> Null then
        bindE (if psize = 0 then Inr False
               else if qsize = 0 \<or> q = Null then Inr True
               else bindE (the_node p) (\<lambda>a. bindE (the_node q) (\<lambda>b. Inr (cmp a b \<le> 0)))) (\<lambda>from_p.
        if from_p then
          bindE (the_node p) (\<lambda>e.
          bindE (append_node h list tail e) (\<lambda>(h', list).
            merge_loop cmp oldhead h' (next_of h oldhead e) (psize - 1) q qsize list (Ptr e)))
        else
          bindE (the_node q) (\<lambda>e.
          bindE (append_node h list tail e) (\<lambda>(h', list).
            merge_loop cmp oldhead h' p psize (next_of h oldhead e) (qsize - 1) list (Ptr e))))
      else Inr (h, q, list, tail))"

  by pat_completeness auto

termination
  by (relation "measure (\<lambda>(cmp, oldhead, h, p, psize, q, qsize, list, tail). psize + qsize)")
    (auto split: if_splits)

declare merge_loop.simps [simp del]

text \<open>One pass merges neighbouring runs of \<open>insize\<close> nodes; \<open>nmerges\<close> counts the merges.\<close>

partial_function (option) pass_loop ::
  "('n \<Rightarrow> 'n \<Rightarrow> int) \<Rightarrow> 'n \<Rightarrow> nat \<Rightarrow> 'n links \<Rightarrow> 'n ptr \<Rightarrow> 'n ptr \<Rightarrow> 'n ptr \<Rightarrow> nat \<Rightarrow>
   (fault + ('n links \<times> 'n ptr \<times> 'n ptr \<times> nat)) option" where
  "pass_loop cmp oldhead insize h p list tail nmerges =
     (if p = Null then Some (Inr (h, list, tail, nmerges))
      else
        (case bindE (step_along h oldhead insize p 0) (\<lambda>(q, psize).
                merge_loop cmp oldhead h p psize q insize list tail) of
           Inl e \<Rightarrow> Some (Inl e)
         | Inr (h, q, list, tail) \<Rightarrow> pass_loop cmp oldhead insize h q list tail (Suc nmerges)))"

text \<open>\<open>insize\<close> stays below the length of the list, so the \<open>int\<close> of the code does not overflow.\<close>

partial_function (option) sort_loop ::
  "('n \<Rightarrow> 'n \<Rightarrow> int) \<Rightarrow> nat \<Rightarrow> 'n links \<Rightarrow> 'n ptr \<Rightarrow> (fault + ('n links \<times> 'n ptr)) option" where
  "sort_loop cmp insize h list =
     (case the_node list of
        Inl e \<Rightarrow> Some (Inl e)
      | Inr oldhead \<Rightarrow>
          (case pass_loop cmp oldhead insize h list Null Null 0 of
             None \<Rightarrow> None
           | Some (Inl e) \<Rightarrow> Some (Inl e)
           | Some (Inr (h, list, tail, nmerges)) \<Rightarrow>
               (case the_node tail of
                  Inl e \<Rightarrow> Some (Inl e)
                | Inr t \<Rightarrow>
                    let h = h(t := list) in
                    if nmerges \<le> 1 then Some (Inr (h, tail)) else sort_loop cmp (insize * 2) h list)))"

definition u_clist_sort :: "'n links \<Rightarrow> 'n ptr \<Rightarrow> ('n \<Rightarrow> 'n \<Rightarrow> int) \<Rightarrow> (fault + ('n links \<times> 'n ptr)) option" where
  "u_clist_sort h list cmp = (if list = Null then Some (Inr (h, Null)) else sort_loop cmp 1 h list)"

definition clist_sort :: "'n links \<Rightarrow> 'n \<Rightarrow> ('n \<Rightarrow> 'n \<Rightarrow> int) \<Rightarrow> (fault + 'n links) option" where
  "clist_sort h list cmp =
     (if h list \<noteq> Null then
        (case the_node (h list) of
           Inl e \<Rightarrow> Some (Inl e)
         | Inr lst \<Rightarrow>
             (case u_clist_sort h (h lst) cmp of
                None \<Rightarrow> None
              | Some (Inl e) \<Rightarrow> Some (Inl e)
              | Some (Inr (h, tail)) \<Rightarrow> Some (Inr (h(list := tail)))))
      else Some (Inr h))"

section \<open>What the loops do to the list\<close>

fun merge :: "('n \<Rightarrow> 'n \<Rightarrow> int) \<Rightarrow> 'n list \<Rightarrow> 'n list \<Rightarrow> 'n list" where
  "merge cmp [] ys = ys"
| "merge cmp (x # xs) [] = x # xs"
| "merge cmp (x # xs) (y # ys) =
     (if cmp x y \<le> 0 then x # merge cmp xs (y # ys) else y # merge cmp (x # xs) ys)"

lemma merge_Nil2 [simp]: "merge cmp xs [] = xs"
  by (cases xs) auto

lemma mset_merge: "mset (merge cmp xs ys) = mset xs + mset ys"
  by (induction cmp xs ys rule: merge.induct) auto

lemma set_merge [simp]: "set (merge cmp xs ys) = set xs \<union> set ys"
  by (metis mset_merge set_mset_mset set_mset_union)

text \<open>The pointer to a list of nodes, and the nodes that are still linked as they were.\<close>

definition ptr_of :: "'n list \<Rightarrow> 'n ptr" where
  "ptr_of xs = (case xs of [] \<Rightarrow> Null | x # _ \<Rightarrow> Ptr x)"

lemma ptr_of_simps [simp]: "ptr_of [] = Null" "ptr_of (x # xs) = Ptr x" "ptr_of xs = Null \<longleftrightarrow> xs = []"
  by (auto simp: ptr_of_def split: list.split)

definition left_over :: "'n links \<Rightarrow> 'n \<Rightarrow> 'n list \<Rightarrow> bool" where
  "left_over h oldhead xs \<longleftrightarrow> chain h (Ptr (hd (xs @ [oldhead]))) xs (Ptr oldhead)"

lemma left_over_Cons:
  assumes "left_over h o' (x # xs)" and "o' \<notin> set xs"
  shows "next_of h o' x = ptr_of xs" and "left_over h o' xs"
  using assms by (cases xs; auto simp: left_over_def next_of_def)+

text \<open>The nodes that are sorted in already, from \<open>list\<close> to \<open>tail\<close>.\<close>

definition built :: "'n links \<Rightarrow> 'n ptr \<Rightarrow> 'n ptr \<Rightarrow> 'n list \<Rightarrow> bool" where
  "built h list tail ds \<longleftrightarrow>
     (if ds = [] then tail = Null
      else list = Ptr (hd ds) \<and> tail = Ptr (last ds) \<and> chain h list (butlast ds) tail)"

lemma append_node_built:
  assumes "built h list tail ds" and "distinct ds"
  obtains h' list' where "append_node h list tail e = Inr (h', list')" and "built h' list' (Ptr e) (ds @ [e])"
    and "\<And>x. x \<notin> set ds \<Longrightarrow> h' x = h x"
proof (cases ds rule: rev_cases)
  case Nil
  with assms show thesis by (intro that [of h "Ptr e"]) (simp_all add: append_node_def built_def)
next
  case (snoc cs d)
  with assms show thesis
    by (intro that [of "h(d := Ptr e)" list])
      (auto simp: append_node_def built_def chain_snoc hd_append butlast_append)
qed

lemma step_along_splits:
  assumes "left_over h o' (x # xs)" and "o' \<notin> set xs" and "0 < k"
  shows "step_along h o' k (Ptr x) n = Inr (ptr_of (drop k (x # xs)), n + min k (length (x # xs)))"
  using assms
proof (induction k arbitrary: x xs n)
  case (Suc k)
  note lo = left_over_Cons [OF Suc.prems(1,2)]
  show ?case
  proof (cases xs)
    case Nil
    then show ?thesis using lo by simp
  next
    case (Cons y ys)
    then show ?thesis using lo Suc.IH [of y ys "Suc n"] Suc.prems by (cases k) auto
  qed
qed simp

text \<open>What the merge loop needs and what it does, \<open>k\<close> being the value of \<open>qsize\<close>.\<close>

definition merge_pre ::
  "'n links \<Rightarrow> 'n \<Rightarrow> 'n ptr \<Rightarrow> nat \<Rightarrow> 'n ptr \<Rightarrow> 'n ptr \<Rightarrow> 'n list \<Rightarrow> 'n list \<Rightarrow> 'n list \<Rightarrow> 'n list \<Rightarrow> bool" where
  "merge_pre h o' p k list tail ds ps qs rs \<longleftrightarrow>
     distinct (ds @ ps @ qs @ rs) \<and> o' \<notin> set (tl ps @ qs @ rs) \<and> built h list tail ds \<and>
     (ps \<noteq> [] \<longrightarrow> p = Ptr (hd ps) \<and> (\<exists>r. chain h p ps r)) \<and> left_over h o' (qs @ rs) \<and>
     length qs \<le> k \<and> (rs \<noteq> [] \<longrightarrow> length qs = k)"

definition merge_post ::
  "('n \<Rightarrow> 'n \<Rightarrow> int) \<Rightarrow> 'n links \<Rightarrow> 'n \<Rightarrow> 'n list \<Rightarrow> 'n list \<Rightarrow> 'n list \<Rightarrow> 'n list \<Rightarrow>
   fault + ('n links \<times> 'n ptr \<times> 'n ptr \<times> 'n ptr) \<Rightarrow> bool" where
  "merge_post cmp h o' ds ps qs rs m \<longleftrightarrow>
     (\<exists>h' list' tail'. m = Inr (h', ptr_of rs, list', tail') \<and> built h' list' tail' (ds @ merge cmp ps qs) \<and>
        left_over h' o' rs \<and> (\<forall>x. x \<notin> set (ds @ ps @ qs) \<longrightarrow> h' x = h x))"

lemma left_over_cong: "left_over h o' xs \<Longrightarrow> (\<And>x. x \<in> set xs \<Longrightarrow> h' x = h x) \<Longrightarrow> left_over h' o' xs"
  using chain_cong [of xs h' h] by (auto simp: left_over_def)

lemma merge_take_p:
  assumes pre: "merge_pre h o' p k list tail ds (a # ps) qs rs"
    and m: "merge cmp (a # ps) qs = a # merge cmp ps qs"
    and IH: "\<And>h' list'. merge_pre h' o' (next_of h o' a) k list' (Ptr a) (ds @ [a]) ps qs rs \<Longrightarrow>
      merge_post cmp h' o' (ds @ [a]) ps qs rs (f h' list')"
  shows "merge_post cmp h o' ds (a # ps) qs rs
    (bindE (append_node h list tail a) (\<lambda>(h', list'). f h' list'))"
proof -
  have b: "built h list tail ds" "distinct ds" using pre by (auto simp: merge_pre_def)
  obtain h1 list1 where h1: "append_node h list tail a = Inr (h1, list1)" "built h1 list1 (Ptr a) (ds @ [a])"
    "\<And>x. x \<notin> set ds \<Longrightarrow> h1 x = h x"
    by (rule append_node_built [OF b]) (rule that)
  obtain r where r: "chain h (h a) ps r" using pre by (auto simp: merge_pre_def)
  have nx: "next_of h o' a = Ptr (hd ps)" "h a = Ptr (hd ps)" if "ps \<noteq> []"
    using that pre chain_hd [OF r that] by (auto simp: merge_pre_def next_of_def)
  have "set ds \<inter> set ps = {}" using pre by (auto simp: merge_pre_def)
  then have "chain h1 (h a) ps r = chain h (h a) ps r" by (intro chain_cong h1(3)) blast
  with r have "chain h1 (h a) ps r" by simp
  moreover have "left_over h1 o' (qs @ rs)"
    using pre h1(3) by (rule_tac left_over_cong [of h]) (auto simp: merge_pre_def)
  ultimately have "merge_pre h1 o' (next_of h o' a) k list1 (Ptr a) (ds @ [a]) ps qs rs"
    using pre h1(2) nx by (cases ps) (auto simp: merge_pre_def)
  from IH [OF this] show ?thesis using h1(1,3) by (auto simp: merge_post_def m)
qed

lemma next_of_q: "merge_pre h o' p k list tail ds ps (b # qs) rs \<Longrightarrow> next_of h o' b = ptr_of (qs @ rs)"
  using left_over_Cons(1) [of h o' b "qs @ rs"] by (auto simp: merge_pre_def)

lemma merge_take_q:
  assumes pre: "merge_pre h o' p k list tail ds ps (b # qs) rs"
    and m: "merge cmp ps (b # qs) = b # merge cmp ps qs"
    and IH: "\<And>h' list'. merge_pre h' o' p (k - 1) list' (Ptr b) (ds @ [b]) ps qs rs \<Longrightarrow>
      merge_post cmp h' o' (ds @ [b]) ps qs rs (f h' list')"
  shows "merge_post cmp h o' ds ps (b # qs) rs
    (bindE (append_node h list tail b) (\<lambda>(h', list'). f h' list'))"
proof -
  have b: "built h list tail ds" "distinct ds" using pre by (auto simp: merge_pre_def)
  obtain h1 list1 where h1: "append_node h list tail b = Inr (h1, list1)" "built h1 list1 (Ptr b) (ds @ [b])"
    "\<And>x. x \<notin> set ds \<Longrightarrow> h1 x = h x"
    by (rule append_node_built [OF b]) (rule that)
  have lo: "next_of h o' b = ptr_of (qs @ rs)" "left_over h o' (qs @ rs)"
    using left_over_Cons [of h o' b "qs @ rs"] pre by (auto simp: merge_pre_def)
  have "left_over h1 o' (qs @ rs)"
    using pre h1(3) lo(2) by (rule_tac left_over_cong [of h]) (auto simp: merge_pre_def)
  moreover have "chain h1 p ps r = chain h p ps r" for r
    using pre h1(3) by (intro chain_cong) (auto simp: merge_pre_def)
  ultimately have "merge_pre h1 o' p (k - 1) list1 (Ptr b) (ds @ [b]) ps qs rs"
    using pre h1(2) by (auto simp: merge_pre_def)
  from IH [OF this] show "merge_post cmp h o' ds ps (b # qs) rs
    (bindE (append_node h list tail b) (\<lambda>(h', list'). f h' list'))"
    using h1(1,3) by (auto simp: merge_post_def m)
qed

lemma merge_loop_merges:
  "merge_pre h o' p k list tail ds ps qs rs \<Longrightarrow>
     merge_post cmp h o' ds ps qs rs (merge_loop cmp o' h p (length ps) (ptr_of (qs @ rs)) k list tail)"
proof (induction "length ps + length qs" arbitrary: ds ps qs p h list tail k)
  case 0
  then show ?case by (subst merge_loop.simps) (auto simp: merge_pre_def merge_post_def)
next
  case (Suc n)
  note pre = Suc.prems
  have take_p: ?case if ps: "ps = a # ps'" and m: "merge cmp ps qs = a # merge cmp ps' qs"
    and c: "qs = [] \<or> cmp a (hd qs) \<le> 0" for a ps'
  proof -
    have e: "merge_loop cmp o' h p (length ps) (ptr_of (qs @ rs)) k list tail =
      bindE (append_node h list tail a) (\<lambda>(h', list').
        merge_loop cmp o' h' (next_of h o' a) (length ps') (ptr_of (qs @ rs)) k list' (Ptr a))"
      using pre c ps by (subst merge_loop.simps) (cases qs; auto simp: merge_pre_def)
    have n: "n = length ps' + length qs" using Suc.hyps(2) ps by simp
    show ?thesis
      unfolding e unfolding ps
      by (rule merge_take_p [OF pre [unfolded ps] m [unfolded ps]], rule Suc.hyps(1) [OF n])
  qed
  have take_q: ?case if qs: "qs = b # qs'" and m: "merge cmp ps qs = b # merge cmp ps qs'"
    and c: "ps = [] \<or> \<not> cmp (hd ps) b \<le> 0" for b qs'
  proof -
    have e: "merge_loop cmp o' h p (length ps) (ptr_of (qs @ rs)) k list tail =
      bindE (append_node h list tail b) (\<lambda>(h', list').
        merge_loop cmp o' h' p (length ps) (ptr_of (qs' @ rs)) (k - 1) list' (Ptr b))"
      using pre c qs next_of_q [of h o' p k list tail ds ps b qs' rs]
      by (subst merge_loop.simps) (cases ps; auto simp: merge_pre_def)
    have n: "n = length ps + length qs'" using Suc.hyps(2) qs by simp
    show ?thesis
      unfolding e unfolding qs
      by (rule merge_take_q [OF pre [unfolded qs] m [unfolded qs]], rule Suc.hyps(1) [OF n])
  qed
  show ?case
  proof (cases ps)
    case Nil
    then obtain b qs' where "qs = b # qs'" using Suc.hyps(2) by (cases qs) auto
    then show ?thesis using take_q Nil by simp
  next
    case ps: (Cons a ps')
    show ?thesis
    proof (cases qs)
      case Nil
      then show ?thesis using take_p [OF ps] ps by simp
    next
      case (Cons b qs')
      then show ?thesis using take_p [OF ps] take_q [OF Cons] ps by (cases "cmp a b \<le> 0") simp_all
    qed
  qed
qed

section \<open>A pass\<close>

function merge_pass :: "('n \<Rightarrow> 'n \<Rightarrow> int) \<Rightarrow> nat \<Rightarrow> 'n list \<Rightarrow> 'n list" where
  "merge_pass cmp k xs =
     (if xs = [] \<or> k = 0 then [] else merge cmp (take k xs) (take k (drop k xs)) @ merge_pass cmp k (drop (2 * k) xs))"
  by pat_completeness auto
termination by (relation "measure (\<lambda>(cmp, k, xs). length xs)") auto

function merges :: "nat \<Rightarrow> 'n list \<Rightarrow> nat" where
  "merges k xs = (if xs = [] \<or> k = 0 then 0 else Suc (merges k (drop (2 * k) xs)))"
  by pat_completeness auto
termination by (relation "measure (\<lambda>(k, xs). length xs)") auto

declare merge_pass.simps [simp del] merges.simps [simp del]

lemma left_over_drop: "left_over h o' us \<Longrightarrow> left_over h o' (drop k us)"
proof -
  assume "left_over h o' us"
  then have "chain h (Ptr (hd (us @ [o']))) (take k us @ drop k us) (Ptr o')" by (simp add: left_over_def)
  then obtain r where "chain h r (drop k us) (Ptr o')" by (auto simp only: chain_append)
  then show ?thesis unfolding left_over_def by (cases "drop k us") auto
qed

lemma merge_pre_pass:
  assumes "left_over h o' us" and "o' \<notin> set (tl us)" and "distinct (ds @ us)" and "built h list tail ds"
    and "0 < k" and "us \<noteq> []"
  shows "merge_pre h o' (ptr_of us) k list tail ds (take k us) (take k (drop k us)) (drop (2 * k) us)"
proof -
  obtain x xs where us: "us = x # xs" using assms(6) by (cases us) auto
  obtain j where k: "k = Suc j" using assms(5) by (cases k) auto
  have parts: "us = take k us @ take k (drop k us) @ drop (2 * k) us"
    by (metis append_take_drop_id drop_drop mult_2)
  have o: "o' \<notin> set xs" using assms(2) us by simp
  have "chain h (Ptr x) (take k us @ drop k us) (Ptr o')" using assms(1) us by (simp add: left_over_def)
  then have "\<exists>r. chain h (Ptr x) (take k us) r" by (simp only: chain_append) blast
  moreover have "left_over h o' (take k (drop k us) @ drop (2 * k) us)"
    using left_over_drop [OF assms(1), of k] by (metis append_take_drop_id drop_drop mult_2)
  moreover have "o' \<notin> set (tl (take k us) @ take k (drop k us) @ drop (2 * k) us)"
    using o us k by (auto dest: in_set_takeD in_set_dropD)
  moreover have "distinct (ds @ take k us @ take k (drop k us) @ drop (2 * k) us)" using assms(3) parts by metis
  ultimately show ?thesis using assms(4) us k unfolding merge_pre_def by auto
qed

lemma pass_loop_merges:
  assumes "left_over h o' us" and "o' \<notin> set (tl us)" and "distinct (ds @ us)" and "built h list tail ds" and k: "0 < k"
  shows "\<exists>h' list' tail'. pass_loop cmp o' k h (ptr_of us) list tail n =
      Some (Inr (h', list', tail', n + merges k us)) \<and> built h' list' tail' (ds @ merge_pass cmp k us) \<and>
      (\<forall>x. x \<notin> set (ds @ us) \<longrightarrow> h' x = h x)"
  using assms
proof (induction us arbitrary: h ds list tail n rule: measure_induct_rule [of length])
  case (less us)
  show ?case
  proof (cases "us = []")
    case True
    then show ?thesis using less.prems by (subst pass_loop.simps) (auto simp: merges.simps merge_pass.simps)
  next
    case False
    let ?ps = "take k us" and ?qs = "take k (drop k us)" and ?rs = "drop (2 * k) us"
    obtain x xs where us: "us = x # xs" using False by (cases us) auto
    have parts: "?qs @ ?rs = drop k us" by (metis append_take_drop_id drop_drop mult_2)
    note pre = merge_pre_pass [OF less.prems(1-4) k False]
    have step: "step_along h o' k (ptr_of us) 0 = Inr (ptr_of (?qs @ ?rs), length ?ps)"
      unfolding parts using step_along_splits [of h o' x xs k 0] less.prems us by (simp add: min.commute)
    obtain h1 list1 tail1 where h1: "merge_loop cmp o' h (ptr_of us) (length ?ps) (ptr_of (?qs @ ?rs)) k list tail =
        Inr (h1, ptr_of ?rs, list1, tail1)" "built h1 list1 tail1 (ds @ merge cmp ?ps ?qs)" "left_over h1 o' ?rs"
      "\<And>x. x \<notin> set (ds @ ?ps @ ?qs) \<Longrightarrow> h1 x = h x"
      using merge_loop_merges [OF pre, of cmp] unfolding merge_post_def by blast
    have "o' \<notin> set ?rs" using pre by (simp add: merge_pre_def)
    then have 1: "o' \<notin> set (tl ?rs)" by (cases ?rs) auto
    have "distinct (ds @ ?ps @ ?qs @ ?rs)" using pre by (simp add: merge_pre_def)
    then have 2: "distinct ((ds @ merge cmp ?ps ?qs) @ ?rs)"
      using mset_merge [of cmp ?ps ?qs] by (auto simp: mset_eq_imp_distinct_iff [of _ "?ps @ ?qs"])
    have "length ?rs < length us" using k False by (cases us) auto
    from less.IH [OF this h1(3) 1 2 h1(2) k, of "Suc n"] obtain h' list' tail' where
      h': "pass_loop cmp o' k h1 (ptr_of ?rs) list1 tail1 (Suc n) = Some (Inr (h', list', tail', Suc n + merges k ?rs))"
      "built h' list' tail' ((ds @ merge cmp ?ps ?qs) @ merge_pass cmp k ?rs)"
      "\<forall>x. x \<notin> set ((ds @ merge cmp ?ps ?qs) @ ?rs) \<longrightarrow> h' x = h1 x" by blast
    have sets: "set ?ps \<union> set ?qs \<union> set ?rs = set us" by (metis Un_assoc parts append_take_drop_id set_append)
    have "pass_loop cmp o' k h (ptr_of us) list tail n = pass_loop cmp o' k h1 (ptr_of ?rs) list1 tail1 (Suc n)"
      using False step h1(1) by (subst pass_loop.simps) simp
    moreover have "merges k us = Suc (merges k ?rs)" "merge_pass cmp k us = merge cmp ?ps ?qs @ merge_pass cmp k ?rs"
      using False k by (simp_all add: merges.simps [of k us] merge_pass.simps [of cmp k us])
    moreover have "h' x = h x" if "x \<notin> set (ds @ us)" for x
      using h'(3) h1(4) that sets by auto
    ultimately show ?thesis using h'(1,2) by auto
  qed
qed

section \<open>Sortedness and stability\<close>

lemma sorted_merge:
  assumes cmp: "\<And>a b. cmp a b \<le> 0 \<longleftrightarrow> f a \<le> (f b :: 'k::linorder)"
    and "sorted (map f xs)" and "sorted (map f ys)"
  shows "sorted (map f (merge cmp xs ys))"
  using assms
proof (induction cmp xs ys rule: merge.induct)
  case (3 cmp x xs y ys)
  then show ?case by (auto simp: not_le)
qed simp_all

lemma filter_merge:
  assumes cmp: "\<And>a b. cmp a b \<le> 0 \<longleftrightarrow> f a \<le> (f b :: 'k::linorder)"
    and "sorted (map f xs)"
  shows "filter (\<lambda>x. f x = v) (merge cmp xs ys) = filter (\<lambda>x. f x = v) xs @ filter (\<lambda>x. f x = v) ys"
  using assms
proof (induction cmp xs ys rule: merge.induct)
  case (3 cmp x xs y ys)
  have "filter (\<lambda>x. f x = v) (x # xs) = []" if "f y < f x" "f y = v"
    using that "3.prems"(2) by (auto simp: filter_empty_conv)
  then show ?case using 3 by (auto simp: not_le)
qed simp_all

function run_sorted :: "('n \<Rightarrow> 'k::linorder) \<Rightarrow> nat \<Rightarrow> 'n list \<Rightarrow> bool" where
  "run_sorted f k xs = (if xs = [] \<or> k = 0 then True else sorted (map f (take k xs)) \<and> run_sorted f k (drop k xs))"
  by pat_completeness auto
termination by (relation "measure (\<lambda>(f, k, xs). length xs)") auto

declare run_sorted.simps [simp del]

lemma run_sortedD:
  "run_sorted f k xs \<Longrightarrow> 0 < k \<Longrightarrow> sorted (map f (take k xs))" "run_sorted f k xs \<Longrightarrow> 0 < k \<Longrightarrow> run_sorted f k (drop k xs)"
  by (cases "xs = []"; simp add: run_sorted.simps [of f k xs]; simp add: run_sorted.simps)+

lemma run_sorted_1: "run_sorted f 1 xs"
  by (induction xs) (simp_all add: run_sorted.simps)

lemma length_merge [simp]: "length (merge cmp xs ys) = length xs + length ys"
  by (induction cmp xs ys rule: merge.induct) auto

lemma merge_pass_sorts:
  assumes cmp: "\<And>a b. cmp a b \<le> 0 \<longleftrightarrow> f a \<le> (f b :: 'k::linorder)" and k: "0 < k" and "run_sorted f k xs"
  shows "run_sorted f (2 * k) (merge_pass cmp k xs)" and "mset (merge_pass cmp k xs) = mset xs"
    and "filter (\<lambda>x. f x = v) (merge_pass cmp k xs) = filter (\<lambda>x. f x = v) xs"
proof -
  have "run_sorted f (2 * k) (merge_pass cmp k xs) \<and> mset (merge_pass cmp k xs) = mset xs \<and>
    filter (\<lambda>x. f x = v) (merge_pass cmp k xs) = filter (\<lambda>x. f x = v) xs"
    using assms(3)
  proof (induction xs rule: measure_induct_rule [of length])
    case (less xs)
    show ?case
    proof (cases "xs = []")
      case True
      then show ?thesis by (simp add: merge_pass.simps run_sorted.simps)
    next
      case False
      let ?ps = "take k xs" and ?qs = "take k (drop k xs)" and ?rs = "drop (2 * k) xs"
      have parts: "xs = ?ps @ ?qs @ ?rs" by (metis append_take_drop_id drop_drop mult_2)
      note r = run_sortedD [OF less.prems k]
      note r2 = run_sortedD [OF r(2) k, unfolded drop_drop mult_2 [symmetric]]
      have "length ?rs < length xs" using False k by (cases xs) auto
      note IH = less.IH [OF this r2(2)]
      have m: "merge_pass cmp k xs = merge cmp ?ps ?qs @ merge_pass cmp k ?rs"
        using False k by (simp add: merge_pass.simps [of cmp k xs])
      have "?rs = [] \<or> length (merge cmp ?ps ?qs) = 2 * k" by auto
      moreover have "length (merge cmp ?ps ?qs) \<le> 2 * k" by simp
      ultimately have "take (2 * k) (merge_pass cmp k xs) = merge cmp ?ps ?qs"
        "drop (2 * k) (merge_pass cmp k xs) = merge_pass cmp k ?rs"
        unfolding m by (auto simp: merge_pass.simps)
      then have "run_sorted f (2 * k) (merge_pass cmp k xs)"
        using sorted_merge [OF cmp r(1) r2(1)] IH by (simp add: run_sorted.simps [of f "2 * k" "merge_pass cmp k xs"])
      moreover have "mset (merge_pass cmp k xs) = mset xs"
        using IH parts unfolding m mset_append mset_merge by (metis mset_append add.assoc)
      moreover have "filter (\<lambda>x. f x = v) (merge_pass cmp k xs) = filter (\<lambda>x. f x = v) xs"
        using IH parts unfolding m filter_append filter_merge [OF cmp r(1)] by (metis filter_append append.assoc)
      ultimately show ?thesis by blast
    qed
  qed
  then show "run_sorted f (2 * k) (merge_pass cmp k xs)" "mset (merge_pass cmp k xs) = mset xs"
    "filter (\<lambda>x. f x = v) (merge_pass cmp k xs) = filter (\<lambda>x. f x = v) xs" by blast+
qed

lemma merges_le_1: "0 < k \<Longrightarrow> merges k xs \<le> 1 \<longleftrightarrow> length xs \<le> 2 * k"
  by (auto simp: merges.simps [of k xs] merges.simps [of k "drop (2 * k) xs"])

lemma sort_loop_sorts:
  assumes cmp: "\<And>a b. cmp a b \<le> 0 \<longleftrightarrow> f a \<le> (f b :: 'k::linorder)"
    and "0 < k" and "xs \<noteq> []" and "distinct xs" and "left_over h (hd xs) xs" and "run_sorted f k xs"
  shows "\<exists>h' ys. sort_loop cmp k h (Ptr (hd xs)) = Some (Inr (h', Ptr (last ys))) \<and> ys = sort_key f xs \<and>
    left_over h' (hd ys) ys \<and> (\<forall>x. x \<notin> set xs \<longrightarrow> h' x = h x)"
  using assms(2-)
proof (induction "length xs - k" arbitrary: xs h k rule: less_induct)
  case less
  let ?o = "hd xs" and ?ys = "merge_pass cmp k xs"
  have 0: "?o \<notin> set (tl xs)" "distinct ([] @ xs)" "built h Null Null []"
    using less.prems(2,3) by (cases xs; simp add: built_def)+
  obtain h1 list1 tail1 where h1: "pass_loop cmp ?o k h (ptr_of xs) Null Null 0 = Some (Inr (h1, list1, tail1, 0 + merges k xs))"
    "built h1 list1 tail1 ([] @ ?ys)" "\<And>x. x \<notin> set xs \<Longrightarrow> h1 x = h x"
    using pass_loop_merges [OF less.prems(4) 0 less.prems(1), of cmp 0] by auto
  note p = merge_pass_sorts [OF cmp less.prems(1,5)]
  have ne: "?ys \<noteq> []" using p(2) less.prems(2) by (metis mset.simps(1) mset_zero_iff_right)
  have len: "length ?ys = length xs" "set ?ys = set xs" "distinct ?ys"
    using p(2) less.prems(3) by (metis size_mset, metis set_mset_mset, metis mset_eq_imp_distinct_iff)
  have b: "list1 = Ptr (hd ?ys)" "tail1 = Ptr (last ?ys)" "chain h1 (Ptr (hd ?ys)) (butlast ?ys) (Ptr (last ?ys))"
    using h1(2) ne by (auto simp: built_def)
  let ?h = "h1(last ?ys := list1)"
  have "last ?ys \<notin> set (butlast ?ys)" using len(3) ne by (cases ?ys rule: rev_cases) auto
  then have "chain ?h (Ptr (hd ?ys)) (butlast ?ys @ [last ?ys]) (Ptr (hd ?ys))" using b by (simp add: chain_snoc)
  then have lo: "left_over ?h (hd ?ys) ?ys" using ne by (simp add: left_over_def)
  have same: "?h x = h x" if "x \<notin> set xs" for x using that h1(3) len(2) ne by (metis fun_upd_other last_in_set)
  have loop: "sort_loop cmp k h (Ptr (hd xs)) =
    (if merges k xs \<le> 1 then Some (Inr (?h, tail1)) else sort_loop cmp (k * 2) ?h (Ptr (hd ?ys)))"
    using h1(1) less.prems(2) b(1,2) by (subst sort_loop.simps) (cases xs; simp)
  have flip: "filter (\<lambda>x. f v = f x) zs = filter (\<lambda>x. f x = f v) zs" for v zs by (simp add: eq_commute)
  have key: "sort_key f ?ys = sort_key f xs"
    by (rule properties_for_sort_key) (simp_all add: p(2,3) flip sort_key_stable)
  show ?case
  proof (cases "length xs \<le> 2 * k")
    case True
    then have "sorted (map f ?ys)" using run_sortedD(1) [OF p(1)] less.prems(1) len(1) by simp
    then have "sort_key f ?ys = ?ys" by (intro properties_for_sort_key) simp_all
    then have "?ys = sort_key f xs" using key by simp
    then show ?thesis using loop True merges_le_1 [OF less.prems(1)] b(2) lo same by metis
  next
    case False
    have "length ?ys - k * 2 < length xs - k" using False less.prems(1) len(1) by simp
    from less.hyps [OF this _ ne len(3) lo] p(1) less.prems(1) obtain h' where
      "sort_loop cmp (k * 2) ?h (Ptr (hd ?ys)) = Some (Inr (h', Ptr (last (sort_key f ?ys))))"
      "left_over h' (hd (sort_key f ?ys)) (sort_key f ?ys)" "\<forall>x. x \<notin> set ?ys \<longrightarrow> h' x = ?h x"
      by (auto simp: mult.commute)
    then show ?thesis using loop False merges_le_1 [OF less.prems(1)] same len(2) unfolding key by metis
  qed
qed

section \<open>Properties\<close>

text \<open>
  C18: \<open>clist_sort\<close> returns on every circular list, without a fault, and leaves the same nodes
  linked as a circular list in the order of a stable sort; it changes no link of any other node.
  The comparison orders the nodes by some key, as its documentation asks for.
\<close>

theorem clist_sort_stable_sort:
  assumes "clist h l xs" and "\<And>a b. cmp a b \<le> 0 \<longleftrightarrow> f a \<le> (f b :: 'k::linorder)"
  shows "\<exists>h'. clist_sort h l cmp = Some (Inr h') \<and> clist h' l (sort_key f xs) \<and>
    (\<forall>m. m \<notin> insert l (set xs) \<longrightarrow> h' m = h m)"
proof (cases "xs = []")
  case True
  then show ?thesis using assms(1) by (simp add: clist_sort_def clist_Nil)
next
  case False
  note r = clist_round [OF assms(1) False]
  have d: "distinct (l # xs)" using assms(1) by (simp add: clist_def)
  have lo: "left_over h (hd xs) xs" "distinct xs" using r False d by (simp_all add: left_over_def)
  obtain h' ys where h': "sort_loop cmp 1 h (Ptr (hd xs)) = Some (Inr (h', Ptr (last ys)))" "ys = sort_key f xs"
    "left_over h' (hd ys) ys" "\<forall>x. x \<notin> set xs \<longrightarrow> h' x = h x"
    using sort_loop_sorts [where cmp = cmp and f = f, OF assms(2) zero_less_one False lo(2,1) run_sorted_1] by blast
  let ?h = "h'(l := Ptr (last ys))"
  have ys: "set ys = set xs" "distinct ys" "ys \<noteq> []"
    using h'(2) False d by (simp_all, metis length_0_conv length_sort)
  then have "clist ?h l ys" using h'(3) d by (simp add: clist_def left_over_def)
  moreover have "clist_sort h l cmp = Some (Inr ?h)"
    using r h'(1) by (simp add: clist_sort_def u_clist_sort_def)
  ultimately show ?thesis using h'(2,4) by auto
qed

definition three_nodes :: "nat links" where
  "three_nodes = (\<lambda>n. Null)(0 := Ptr 3, 3 := Ptr 1, 1 := Ptr 2, 2 := Ptr 3)"

theorem clist_sort_stable_sort_witness:
  "\<exists>h'. clist_sort three_nodes 0 (\<lambda>a b. int (b mod 2) - int (a mod 2)) = Some (Inr h') \<and>
     clist h' 0 (sort_key (\<lambda>n. 1 - n mod 2) [1, 2, 3 :: nat]) \<and>
     (\<forall>m. m \<notin> insert 0 (set [1, 2, 3]) \<longrightarrow> h' m = three_nodes m)"
proof (rule clist_sort_stable_sort)
  show "clist three_nodes 0 [1, 2, 3]" by (simp add: clist_def three_nodes_def)
  fix a b :: nat
  have "a mod 2 = 0 \<or> a mod 2 = 1" "b mod 2 = 0 \<or> b mod 2 = 1" by auto
  then show "int (b mod 2) - int (a mod 2) \<le> 0 \<longleftrightarrow> 1 - a mod 2 \<le> 1 - b mod 2" by auto
qed

end
