(* ===== verification/Buffers.thy ===== *)
theory Buffers
  imports Prelude
begin

text \<open>
  Arrays and \<open>for\<close> loops over them, as the C library code uses them: an array is the list of
  its elements, a read or write outside of it is the fault \<open>OutOfBounds\<close>, and
  \<open>for (i = 0; i < n; i++)\<close> runs its body on the indices \<open>[0..<n]\<close>.
\<close>

section \<open>Checked access\<close>

definition readE :: "'a list \<Rightarrow> nat \<Rightarrow> fault + 'a" where
  "readE xs i = (if i < length xs then Inr (xs ! i) else Inl OutOfBounds)"

definition writeE :: "'a list \<Rightarrow> nat \<Rightarrow> 'a \<Rightarrow> fault + 'a list" where
  "writeE xs i v = (if i < length xs then Inr (xs[i := v]) else Inl OutOfBounds)"

lemma readE_ok [simp]: "i < length xs \<Longrightarrow> readE xs i = Inr (xs ! i)"
  by (simp add: readE_def)

lemma writeE_ok [simp]: "i < length xs \<Longrightarrow> writeE xs i v = Inr (xs[i := v])"
  by (simp add: writeE_def)

lemma writeE_length: "writeE xs i v = Inr ys \<Longrightarrow> length ys = length xs"
  by (auto simp: writeE_def split: if_splits)

section \<open>Loops\<close>

fun foldE :: "('i \<Rightarrow> 's \<Rightarrow> fault + 's) \<Rightarrow> 'i list \<Rightarrow> 's \<Rightarrow> fault + 's" where
  "foldE f [] s = Inr s"
| "foldE f (i # is) s = bindE (f i s) (foldE f is)"

lemma foldE_append: "foldE f (is @ js) s = bindE (foldE f is s) (foldE f js)"
  by (induction "is" arbitrary: s) (auto simp: bindE_assoc cong: bindE_cong)

text \<open>A loop whose body succeeds on every state that satisfies the loop's invariant.\<close>

lemma foldE_upt:
  assumes "I 0 s"
    and "\<And>i s. i < n \<Longrightarrow> I i s \<Longrightarrow> \<exists>s'. f i s = Inr s' \<and> I (Suc i) s'"
  shows "\<exists>s'. foldE f [0..<n] s = Inr s' \<and> I n s'"
  using assms(2)
proof (induction n)
  case 0
  show ?case using assms(1) by simp
next
  case (Suc n)
  obtain s' where s': "foldE f [0..<n] s = Inr s'" "I n s'"
    using Suc.IH Suc.prems less_SucI by meson
  obtain s'' where "f n s' = Inr s''" "I (Suc n) s''"
    using Suc.prems [OF lessI s'(2)] by blast
  then show ?case using s'(1) by (simp add: foldE_append)
qed

text \<open>The loop that sets element \<open>off + i\<close> in pass \<open>i\<close> and reads only elements it has not set.\<close>

lemma foldE_update:
  assumes "off + n \<le> length xs"
    and "\<And>i ys. i < n \<Longrightarrow> length ys = length xs \<Longrightarrow>
      (\<And>j. j < length xs \<Longrightarrow> j < off \<or> off + i \<le> j \<Longrightarrow> ys ! j = xs ! j) \<Longrightarrow>
      f i ys = Inr (ys[off + i := g i])"
  shows "foldE f [0..<n] xs = Inr (take off xs @ map g [0..<n] @ drop (off + n) xs)"
proof -
  let ?I = "\<lambda>i ys. ys = take off xs @ map g [0..<i] @ drop (off + i) xs"
  have "\<exists>ys. foldE f [0..<n] xs = Inr ys \<and> ?I n ys"
  proof (rule foldE_upt [of ?I])
    fix i ys assume i: "i < n" and ys: "?I i ys"
    have len: "length ys = length xs" using i assms(1) by (simp add: ys)
    have same: "ys ! j = xs ! j" if "j < length xs" "j < off \<or> off + i \<le> j" for j
      using that i assms(1) by (auto simp: ys nth_append)
    have "drop (off + i) xs = xs ! (off + i) # drop (Suc (off + i)) xs"
      using i assms(1) by (simp add: Cons_nth_drop_Suc)
    then have "ys[off + i := g i] = take off xs @ map g [0..<Suc i] @ drop (off + Suc i) xs"
      using i assms(1) by (simp add: ys list_update_append)
    then show "\<exists>s'. f i ys = Inr s' \<and> ?I (Suc i) s'"
      using assms(2) [OF i len same] by simp
  qed simp
  then show ?thesis by simp
qed

section \<open>Parts of an array\<close>

definition slice :: "'a list \<Rightarrow> nat \<Rightarrow> nat \<Rightarrow> 'a list" where
  "slice m off n = take n (drop off m)"

definition splice :: "'a list \<Rightarrow> nat \<Rightarrow> 'a list \<Rightarrow> 'a list" where
  "splice m off xs = take off m @ xs @ drop (off + length xs) m"

text \<open>\<open>memcpy\<close> between arrays that do not overlap, or within one array.\<close>

definition memcpyE :: "'a list \<Rightarrow> nat \<Rightarrow> 'a list \<Rightarrow> nat \<Rightarrow> nat \<Rightarrow> fault + 'a list" where
  "memcpyE dst doff src soff n =
     (if soff + n \<le> length src \<and> doff + n \<le> length dst then Inr (splice dst doff (slice src soff n))
      else Inl OutOfBounds)"

lemma memcpyE_ok [simp]:
  "soff + n \<le> length src \<Longrightarrow> doff + n \<le> length dst \<Longrightarrow>
    memcpyE dst doff src soff n = Inr (splice dst doff (slice src soff n))"
  by (simp add: memcpyE_def)

lemma length_slice [simp]: "off + n \<le> length m \<Longrightarrow> length (slice m off n) = n"
  by (simp add: slice_def)

lemma length_splice [simp]: "off + length xs \<le> length m \<Longrightarrow> length (splice m off xs) = length m"
  by (simp add: splice_def)

lemma slice_nth [simp]: "off + n \<le> length m \<Longrightarrow> i < n \<Longrightarrow> slice m off n ! i = m ! (off + i)"
  by (simp add: slice_def)

lemma splice_nth:
  "off + length xs \<le> length m \<Longrightarrow> i < length m \<Longrightarrow>
    splice m off xs ! i = (if off \<le> i \<and> i < off + length xs then xs ! (i - off) else m ! i)"
  by (auto simp: splice_def nth_append)

lemma slice_splice [simp]: "off + n \<le> length m \<Longrightarrow> length xs = n \<Longrightarrow> slice (splice m off xs) off n = xs"
  by (simp add: slice_def splice_def)

lemma slice_splice_apart:
  assumes "off + length xs \<le> length m" and "a + n \<le> length m" and "a + n \<le> off \<or> off + length xs \<le> a"
  shows "slice (splice m off xs) a n = slice m a n"
  by (rule nth_equalityI) (use assms in \<open>auto simp: splice_nth\<close>)

lemma slice_add: "slice m off (n + k) = slice m off n @ slice m (off + n) k"
  by (simp add: slice_def take_add) (simp add: add.commute)

lemma slice_zero [simp]: "slice m off 0 = []"
  by (simp add: slice_def)

lemma splice_nil [simp]: "splice m off [] = m"
  by (simp add: splice_def)

lemma splice_append:
  "off + length xs + length ys \<le> length m \<Longrightarrow>
    splice (splice m off xs) (off + length xs) ys = splice m off (xs @ ys)"
  by (simp add: splice_def ac_simps)

lemma splice_twice:
  "off + length ys \<le> length m \<Longrightarrow> length xs = length ys \<Longrightarrow> splice (splice m off xs) off ys = splice m off ys"
  by (simp add: splice_def)

lemma slice_all [simp]: "n = length m \<Longrightarrow> slice m 0 n = m"
  by (simp add: slice_def)

lemma splice_all [simp]: "length xs = length m \<Longrightarrow> splice m 0 xs = xs"
  by (simp add: splice_def)

section \<open>Loops that test at the end\<close>

text \<open>
  \<open>do body while (cond)\<close>, where the body may leave the function with a result. \<open>None\<close> is a loop
  that runs forever.
\<close>

datatype ('r, 's) pass = Return 'r | Next 's

partial_function (option) do_while ::
    "('s \<Rightarrow> fault + ('r, 's) pass) \<Rightarrow> ('s \<Rightarrow> bool) \<Rightarrow> 's \<Rightarrow> (fault + ('r, 's) pass) option" where
  "do_while body cond s =
     (case body s of
        Inl e \<Rightarrow> Some (Inl e)
      | Inr (Return r) \<Rightarrow> Some (Inr (Return r))
      | Inr (Next s) \<Rightarrow> if cond s then do_while body cond s else Some (Inr (Next s)))"

text \<open>What follows the loop.\<close>

definition after :: "(fault + ('r, 's) pass) option \<Rightarrow> ('s \<Rightarrow> fault + 'r) \<Rightarrow> fault + 'r" where
  "after l f =
     (case l of None \<Rightarrow> Inl NoReturn | Some (Inl e) \<Rightarrow> Inl e | Some (Inr (Return r)) \<Rightarrow> Inr r
      | Some (Inr (Next s)) \<Rightarrow> f s)"

lemma after_simps [simp]:
  "after None f = Inl NoReturn"
  "after (Some (Inl e)) f = Inl e"
  "after (Some (Inr (Return r))) f = Inr r"
  "after (Some (Inr (Next s))) f = f s"
  by (simp_all add: after_def)

lemma do_while_steps:
  assumes "0 < n" and "I 0 s"
    and "\<And>i s. i < n \<Longrightarrow> I i s \<Longrightarrow> \<exists>s'. body s = Inr (Next s') \<and> I (Suc i) s' \<and> (cond s' \<longleftrightarrow> Suc i < n)"
  shows "\<exists>s'. do_while body cond s = Some (Inr (Next s')) \<and> I n s'"
proof -
  have "k < n \<Longrightarrow> I k s \<Longrightarrow> \<exists>s'. do_while body cond s = Some (Inr (Next s')) \<and> I n s'" for k s
  proof (induction "n - k" arbitrary: k s)
    case (Suc m)
    obtain s' where s': "body s = Inr (Next s')" "I (Suc k) s'" "cond s' \<longleftrightarrow> Suc k < n"
      using assms(3) [OF Suc.prems] by blast
    show ?case
    proof (cases "Suc k < n")
      case True
      then have "\<exists>s''. do_while body cond s' = Some (Inr (Next s'')) \<and> I n s''"
        using Suc s'(2) by (intro Suc.hyps(1)) auto
      then show ?thesis using s' True by (subst do_while.simps) simp
    next
      case False
      then have "Suc k = n" using Suc.prems by simp
      then show ?thesis using s' by (subst do_while.simps) auto
    qed
  qed simp
  then show ?thesis using assms(1,2) by blast
qed

lemma do_while_forever:
  assumes "J s" and "\<And>s. J s \<Longrightarrow> \<exists>s'. body s = Inr (Next s') \<and> J s' \<and> cond s'"
  shows "do_while body cond s = None"
proof -
  have "b = body \<longrightarrow> c = cond \<longrightarrow> J s \<longrightarrow> False" if "do_while b c s = Some y" for b c s y
  proof (rule do_while.raw_induct [OF _ that], intro impI)
    fix dw b c s y
    assume IH: "\<And>b c s y. dw b c s = Some y \<Longrightarrow> b = body \<longrightarrow> c = cond \<longrightarrow> J s \<longrightarrow> False"
      and run: "(case b s of Inl e \<Rightarrow> Some (Inl e) | Inr (Return r) \<Rightarrow> Some (Inr (Return r))
        | Inr (Next s) \<Rightarrow> if c s then dw b c s else Some (Inr (Next s))) = Some y"
      and eq: "b = body" "c = cond" and "J s"
    obtain s' where "body s = Inr (Next s')" "J s'" "cond s'" using assms(2) \<open>J s\<close> by blast
    then show False using IH run eq by auto
  qed
  then show ?thesis using assms(1) by (cases "do_while body cond s") auto
qed

end
