(* ===== verification/Queues.thy ===== *)
theory Queues
  imports Lists Buffers "HOL-Library.Word" "HOL-Library.Multiset"
begin

text \<open>
  The two containers of the core that the kernel itself does not use: the stack of integers of
  \<open>core/lifo.c\<close> and the queue ordered by priority of \<open>core/priority_queue.c\<close>.

  The LIFO keeps a set of small integers in one array: element 0 is the top of the stack, and
  element \<open>i + 1\<close> is what lies below \<open>i\<close>. The priority queue is a singly linked list in the
  same kind of heap of \<open>next\<close> fields as the lists of theory \<open>Lists\<close>; its root is read as a node,
  as the casts of the C code do.
\<close>

section \<open>lifo.c\<close>

text \<open>An index into the array is an \<open>int\<close>.\<close>

definition get_at :: "int list \<Rightarrow> int \<Rightarrow> fault + int" where
  "get_at array index = (if index < 0 then Inl OutOfBounds else readE array (nat index))"

definition set_at :: "int list \<Rightarrow> int \<Rightarrow> int \<Rightarrow> fault + int list" where
  "set_at array index v = (if index < 0 then Inl OutOfBounds else writeE array (nat index) v)"

definition lifo_empty :: "int list \<Rightarrow> fault + bool" where
  "lifo_empty array = bindE (get_at array 0) (\<lambda>a0. Inr (a0 = -1))"

definition lifo_init :: "int list \<Rightarrow> int \<Rightarrow> fault + int list" where
  "lifo_init array n = foldE (\<lambda>i array. set_at array i (-1)) [0..n] array"

text \<open>With \<open>DEVELHELP\<close> the insertion also reads the entry it is about to overwrite.\<close>

definition lifo_insert :: "bool \<Rightarrow> int list \<Rightarrow> int \<Rightarrow> fault + int list" where
  "lifo_insert develhelp array i =
     (let index = i + 1 in
      bindE (if develhelp then bindE (get_at array index) (\<lambda>_. Inr ()) else Inr ()) (\<lambda>_.
      bindE (get_at array 0) (\<lambda>a0.
      bindE (set_at array index a0) (\<lambda>array.
      set_at array 0 i))))"

definition lifo_get :: "bool \<Rightarrow> int list \<Rightarrow> fault + (int list \<times> int)" where
  "lifo_get develhelp array =
     bindE (get_at array 0) (\<lambda>head.
     bindE (if head \<noteq> -1 then bindE (get_at array (head + 1)) (set_at array 0) else Inr array) (\<lambda>array.
     bindE (if develhelp then set_at array (head + 1) (-1) else Inr array) (\<lambda>array.
     Inr (array, head))))"

section \<open>priority_queue.c\<close>

record 'n pq_heap =
  pq_next :: "'n links"
  pq_priority :: "'n \<Rightarrow> 32 word"
  pq_data :: "'n \<Rightarrow> 64 word"

definition priority_queue_node_init :: "'n pq_heap \<Rightarrow> 'n \<Rightarrow> 'n pq_heap" where
  "priority_queue_node_init s node =
     s\<lparr>pq_next := (pq_next s)(node := Null), pq_priority := (pq_priority s)(node := 0),
       pq_data := (pq_data s)(node := 0)\<rparr>"

definition priority_queue_init :: "'n pq_heap \<Rightarrow> 'n \<Rightarrow> 'n pq_heap" where
  "priority_queue_init s root = s\<lparr>pq_next := (pq_next s)(root := Null)\<rparr>"

partial_function (option) priority_queue_remove ::
  "'n pq_heap \<Rightarrow> 'n \<Rightarrow> 'n \<Rightarrow> (fault + 'n pq_heap) option" where
  "priority_queue_remove s root node =
     (if pq_next s root \<noteq> Null then
        if pq_next s root = Ptr node then
          let h1 = (pq_next s)(root := pq_next s node);
              h2 = h1(node := Null)
          in Some (Inr (s\<lparr>pq_next := h2\<rparr>))
        else (case the_node (pq_next s root) of
                Inl e \<Rightarrow> Some (Inl e)
              | Inr nx \<Rightarrow> priority_queue_remove s nx node)
      else Some (Inr s))"

definition priority_queue_remove_head :: "'n pq_heap \<Rightarrow> 'n \<Rightarrow> fault + ('n pq_heap \<times> 'n ptr)" where
  "priority_queue_remove_head s root =
     (let head = pq_next s root in
      if head \<noteq> Null
      then bindE (the_node head) (\<lambda>hd. Inr (s\<lparr>pq_next := (pq_next s)(root := pq_next s hd)\<rparr>, head))
      else Inr (s, head))"

partial_function (option) priority_queue_add ::
  "'n pq_heap \<Rightarrow> 'n \<Rightarrow> 'n \<Rightarrow> (fault + 'n pq_heap) option" where
  "priority_queue_add s node new_obj =
     (if pq_next s node \<noteq> Null then
        if pq_next s node = Ptr new_obj then Some (Inl AssertFail)
        else (case the_node (pq_next s node) of
                Inl e \<Rightarrow> Some (Inl e)
              | Inr nx \<Rightarrow>
                  if pq_priority s nx > pq_priority s new_obj then
                    let h1 = (pq_next s)(new_obj := pq_next s node);
                        h2 = h1(node := Ptr new_obj)
                    in Some (Inr (s\<lparr>pq_next := h2\<rparr>))
                  else priority_queue_add s nx new_obj)
      else
        let h1 = (pq_next s)(node := Ptr new_obj);
            h2 = h1(new_obj := Null)
        in Some (Inr (s\<lparr>pq_next := h2\<rparr>)))"

section \<open>The stack in the array\<close>

fun stacked :: "int list \<Rightarrow> int \<Rightarrow> nat list \<Rightarrow> bool" where
  "stacked array head [] \<longleftrightarrow> head = -1"
| "stacked array head (x # xs) \<longleftrightarrow>
     head = int x \<and> x + 1 < length array \<and> stacked array (array ! (x + 1)) xs"

definition lifo_stack :: "int list \<Rightarrow> nat list \<Rightarrow> bool" where
  "lifo_stack array xs \<longleftrightarrow> array \<noteq> [] \<and> stacked array (array ! 0) xs \<and> distinct xs"

lemma stacked_update:
  "k \<notin> Suc ` set xs \<Longrightarrow> stacked (array[k := v]) head xs = stacked array head xs"
  by (induction xs arbitrary: head) (auto simp: nth_list_update)

lemma lifo_empty_iff: "lifo_stack array xs \<Longrightarrow> lifo_empty array = Inr (xs = [])"
  by (cases xs) (auto simp: lifo_stack_def lifo_empty_def get_at_def)

lemma lifo_init_empty:
  assumes "n < length array"
  obtains array' where "lifo_init array (int n) = Inr array'" and "lifo_stack array' []"
    and "length array' = length array"
proof -
  have set: "set_at ys (int i) (-1) = Inr (ys[i := -1])" if "i < length ys" for ys i
    using that by (simp add: set_at_def)
  have upto: "[0..int n] = map int [0..<Suc n]"
    by (rule nth_equalityI) (simp_all add: nth_append del: upt_Suc)
  have "foldE (\<lambda>i ys. set_at ys (int i) (-1)) [0..<Suc n] array =
      Inr (take 0 array @ map (\<lambda>_. -1) [0..<Suc n] @ drop (0 + Suc n) array)"
    by (rule foldE_update) (use assms in \<open>simp_all add: set\<close>)
  moreover have "foldE (\<lambda>i ys. set_at ys i (-1)) (map int js) ys =
      foldE (\<lambda>i ys. set_at ys (int i) (-1)) js ys" for js ys
    by (induction js arbitrary: ys) (auto cong: bindE_cong)
  ultimately have "lifo_init array (int n) = Inr (map (\<lambda>_. -1) [0..<Suc n] @ drop (Suc n) array)"
    unfolding lifo_init_def upto by (simp del: upt_Suc)
  then show thesis
    by (rule that) (use assms in \<open>simp_all add: lifo_stack_def nth_append\<close>)
qed

lemma lifo_insert_push:
  assumes "lifo_stack array xs" and "i \<notin> set xs" and "i + 1 < length array"
  obtains array' where "lifo_insert d array (int i) = Inr array'" and "lifo_stack array' (i # xs)"
    and "length array' = length array"
proof -
  let ?a = "array[i + 1 := array ! 0, 0 := int i]"
  have "stacked ?a (array ! 0) xs"
    using assms(1,2) by (subst stacked_update; (subst stacked_update)?) (auto simp: lifo_stack_def)
  then have "lifo_stack ?a (i # xs)"
    using assms by (simp add: lifo_stack_def)
  moreover have "nat (int i + 1) = i + 1" by simp
  then have "lifo_insert d array (int i) = Inr ?a"
    using assms by (simp add: lifo_insert_def lifo_stack_def get_at_def set_at_def)
  ultimately show thesis by (intro that [of ?a]) simp_all
qed

lemma lifo_get_pop:
  assumes "lifo_stack array (x # xs)"
  obtains array' where "lifo_get d array = Inr (array', int x)" and "lifo_stack array' xs"
    and "length array' = length array"
proof -
  let ?a = "array[0 := array ! (x + 1)]"
  let ?a' = "if d then ?a[x + 1 := -1] else ?a"
  have x: "array ! 0 = int x" "x + 1 < length array" "stacked array (array ! (x + 1)) xs"
      "x \<notin> set xs" "distinct xs" "array \<noteq> []"
    using assms by (auto simp: lifo_stack_def)
  have "stacked ?a' (array ! (x + 1)) xs"
    using x by (simp add: stacked_update image_iff)
  moreover have "?a' ! 0 = array ! (x + 1)" "?a' \<noteq> []"
    using x(2) by (cases array; simp)+
  ultimately have "lifo_stack ?a' xs"
    using x(5) unfolding lifo_stack_def by simp
  moreover have "nat (int x + 1) = x + 1" by simp
  then have "lifo_get d array = Inr (?a', int x)"
    using x by (simp add: lifo_get_def get_at_def set_at_def)
  ultimately show thesis by (intro that [of ?a']) simp_all
qed

lemma lifo_get_empty:
  assumes "lifo_stack array []"
  obtains array' where "lifo_get d array = Inr (array', -1)" and "lifo_stack array' []"
proof (rule that)
  show "lifo_get d array = Inr (if d then array[0 := -1] else array, -1)"
    using assms by (simp add: lifo_stack_def lifo_get_def get_at_def set_at_def)
  show "lifo_stack (if d then array[0 := -1] else array) []"
    using assms by (simp add: lifo_stack_def)
qed

text \<open>
  The LIFO is one. On an array that holds a stack, inserting an integer that is in range
  and not in the stack succeeds, and the next \<open>lifo_get\<close> returns that integer and leaves the
  stack as it was before the insertion; both with and without \<open>DEVELHELP\<close>. (The array itself may
  differ: without \<open>DEVELHELP\<close> the popped entry keeps its old link.)
\<close>

theorem lifo_insert_get:
  assumes "lifo_stack array xs" and "i \<notin> set xs" and "i + 1 < length array"
  shows "\<exists>array1 array2. lifo_insert d array (int i) = Inr array1 \<and> lifo_stack array1 (i # xs) \<and>
    lifo_get d array1 = Inr (array2, int i) \<and> lifo_stack array2 xs \<and> length array2 = length array"
proof -
  obtain array1 where 1: "lifo_insert d array (int i) = Inr array1" "lifo_stack array1 (i # xs)"
      "length array1 = length array"
    using lifo_insert_push [OF assms] .
  obtain array2 where "lifo_get d array1 = Inr (array2, int i)" "lifo_stack array2 xs"
      "length array2 = length array1"
    using lifo_get_pop [OF 1(2)] .
  with 1 show ?thesis by auto
qed

theorem lifo_insert_get_witness:
  "lifo_stack [2, -1, -1, 0, -1] [2, 0] \<and>
   (\<exists>array1 array2. lifo_insert True [2, -1, -1, 0, -1] 1 = Inr array1 \<and>
     lifo_stack array1 [1, 2, 0] \<and>
     lifo_get True array1 = Inr (array2, 1) \<and> lifo_stack array2 [2, 0] \<and> length array2 = 5)"
  using lifo_insert_get [of "[2, -1, -1, 0, -1]" "[2, 0]" 1 True] by (simp add: lifo_stack_def eval_nat_numeral)

section \<open>The queue in the heap\<close>

definition pqueue :: "'n pq_heap \<Rightarrow> 'n \<Rightarrow> 'n list \<Rightarrow> bool" where
  "pqueue s root xs \<longleftrightarrow> slist (pq_next s) root xs \<and> sorted (map (pq_priority s) xs)"

text \<open>Behind the nodes of the same or a smaller number, before the others.\<close>

fun pq_insert :: "('n \<Rightarrow> 32 word) \<Rightarrow> 'n \<Rightarrow> 'n list \<Rightarrow> 'n list" where
  "pq_insert prio n [] = [n]"
| "pq_insert prio n (x # xs) = (if prio x > prio n then n # x # xs else x # pq_insert prio n xs)"

lemma set_pq_insert [simp]: "set (pq_insert prio n xs) = insert n (set xs)"
  by (induction xs) auto

lemma sorted_pq_insert:
  "sorted (map prio xs) \<Longrightarrow> sorted (map prio (pq_insert prio n xs))"
  by (induction xs) auto

lemma pq_insert_stable:
  "sorted (map prio xs) \<Longrightarrow>
    filter (\<lambda>x. prio x = p) (pq_insert prio n xs) =
      filter (\<lambda>x. prio x = p) xs @ (if prio n = p then [n] else [])"
proof (induction xs)
  case (Cons x xs)
  have "filter (\<lambda>y. prio y = prio n) (x # xs) = []" if "prio x > prio n"
    using Cons.prems that by (fastforce simp: filter_empty_conv)
  with Cons show ?case by auto
qed simp

lemma distinct_pq_insert: "distinct (pq_insert prio n xs) \<longleftrightarrow> n \<notin> set xs \<and> distinct xs"
  by (induction xs) auto

lemma mset_pq_insert: "mset (pq_insert prio n xs) = add_mset n (mset xs)"
  by (induction xs) auto

lemma sort_key_snoc: "sort_key prio (xs @ [n]) = pq_insert prio n (sort_key prio xs)"
proof (rule properties_for_sort_key)
  show "mset (pq_insert prio n (sort_key prio xs)) = mset (xs @ [n])"
    by (simp add: mset_pq_insert)
  show "filter (\<lambda>x. prio k = prio x) (pq_insert prio n (sort_key prio xs)) =
      filter (\<lambda>x. prio k = prio x) (xs @ [n])" for k
    using pq_insert_stable [of prio "sort_key prio xs" "prio k" n]
    by (simp add: eq_commute [of "prio k"] sort_key_stable)
  show "sorted (map prio (pq_insert prio n (sort_key prio xs)))"
    by (simp add: sorted_pq_insert)
qed

lemma priority_queue_add_chain:
  assumes "chain (pq_next s) (pq_next s l) xs Null" and "distinct (l # xs)" and "n \<notin> set (l # xs)"
  shows "\<exists>h. priority_queue_add s l n = Some (Inr (s\<lparr>pq_next := h\<rparr>)) \<and>
    chain h (h l) (pq_insert (pq_priority s) n xs) Null \<and>
    (\<forall>x. x \<notin> set (l # n # xs) \<longrightarrow> h x = pq_next s x)"
  using assms
proof (induction xs arbitrary: l)
  case Nil
  then show ?case
    by (subst priority_queue_add.simps) (auto simp: Let_def intro!: exI [of _ "(pq_next s)(l := Ptr n, n := Null)"])
next
  case (Cons x xs)
  note step = priority_queue_add.simps [of s l n]
  have l: "pq_next s l = Ptr x" using Cons.prems(1) by simp
  show ?case
  proof (cases "pq_priority s x > pq_priority s n")
    case True
    then show ?thesis using Cons.prems l
      by (subst step) (auto simp: Let_def intro!: exI [of _ "(pq_next s)(n := Ptr x, l := Ptr n)"])
  next
    case False
    obtain h where h: "priority_queue_add s x n = Some (Inr (s\<lparr>pq_next := h\<rparr>))"
        "chain h (h x) (pq_insert (pq_priority s) n xs) Null"
        "\<forall>y. y \<notin> set (x # n # xs) \<longrightarrow> h y = pq_next s y"
      using Cons.IH [of x] Cons.prems by auto
    have "h l = Ptr x" using h(3) Cons.prems l by auto
    then have "chain h (h l) (pq_insert (pq_priority s) n (x # xs)) Null"
      using False h(2) by simp
    moreover have "priority_queue_add s l n = Some (Inr (s\<lparr>pq_next := h\<rparr>))"
      using Cons.prems(3) False l h(1) by (subst step) auto
    ultimately show ?thesis using h(3) by auto
  qed
qed


lemma priority_queue_add_inserts:
  assumes "pqueue s root xs" and "n \<notin> set (root # xs)"
  obtains h where "priority_queue_add s root n = Some (Inr (s\<lparr>pq_next := h\<rparr>))"
    and "pqueue (s\<lparr>pq_next := h\<rparr>) root (pq_insert (pq_priority s) n xs)"
    and "\<And>x. x \<notin> set (root # n # xs) \<Longrightarrow> h x = pq_next s x"
proof -
  obtain h where h: "priority_queue_add s root n = Some (Inr (s\<lparr>pq_next := h\<rparr>))"
      "chain h (h root) (pq_insert (pq_priority s) n xs) Null"
      "\<forall>x. x \<notin> set (root # n # xs) \<longrightarrow> h x = pq_next s x"
    using priority_queue_add_chain [of s root xs n] assms by (auto simp: pqueue_def slist_def)
  have "distinct (root # pq_insert (pq_priority s) n xs)"
    using assms by (auto simp: pqueue_def slist_def distinct_pq_insert)
  then have "pqueue (s\<lparr>pq_next := h\<rparr>) root (pq_insert (pq_priority s) n xs)"
    using h(2) assms(1) by (simp add: pqueue_def slist_def sorted_pq_insert)
  with h that show thesis by simp
qed

lemma priority_queue_add_again:
  assumes "chain (pq_next s) (pq_next s l) xs Null" and "sorted (map (pq_priority s) xs)" and "n \<in> set xs"
  shows "priority_queue_add s l n = Some (Inl AssertFail)"
  using assms
proof (induction xs arbitrary: l)
  case (Cons x xs)
  show ?case
  proof (cases "x = n")
    case True
    then show ?thesis using Cons.prems by (subst priority_queue_add.simps) simp
  next
    case False
    then have "\<not> pq_priority s x > pq_priority s n" using Cons.prems by auto
    then show ?thesis using False Cons by (subst priority_queue_add.simps) simp
  qed
qed simp

lemma priority_queue_remove_head_Cons:
  assumes "pqueue s root (x # xs)"
  shows "priority_queue_remove_head s root =
      Inr (s\<lparr>pq_next := (pq_next s)(root := pq_next s x)\<rparr>, Ptr x)"
    and "pqueue (s\<lparr>pq_next := (pq_next s)(root := pq_next s x)\<rparr>) root xs"
  using assms by (auto simp: pqueue_def slist_def priority_queue_remove_head_def)

lemma priority_queue_remove_head_Nil:
  "pqueue s root [] \<Longrightarrow> priority_queue_remove_head s root = Inr (s, Null)"
  by (simp add: pqueue_def slist_def priority_queue_remove_head_def)

lemma priority_queue_remove_chain:
  assumes "chain (pq_next s) (pq_next s l) xs Null" and "distinct (l # xs)"
  shows "priority_queue_remove s l n =
    (if n \<in> set xs
     then Some (Inr (s\<lparr>pq_next := (pq_next s)
            (last (l # takeWhile (\<lambda>x. x \<noteq> n) xs) := pq_next s n, n := Null)\<rparr>))
     else Some (Inr s))"
  using assms
proof (induction xs arbitrary: l)
  case Nil
  then show ?case by (subst priority_queue_remove.simps) simp
next
  case (Cons x xs)
  then show ?case by (subst priority_queue_remove.simps) (cases xs; auto simp: Let_def)
qed

lemma chain_unlink:
  assumes "chain h (h l) xs Null" and "distinct (l # xs)" and "n \<in> set xs"
  shows "chain (h(last (l # takeWhile (\<lambda>x. x \<noteq> n) xs) := h n, n := v))
    ((h(last (l # takeWhile (\<lambda>x. x \<noteq> n) xs) := h n, n := v)) l) (remove1 n xs) Null"
  using assms
proof (induction xs arbitrary: l)
  case (Cons x xs)
  show ?case
  proof (cases "x = n")
    case True
    then show ?thesis using Cons.prems by (simp del: fun_upd_apply) simp
  next
    case False
    let ?p = "last (x # takeWhile (\<lambda>y. y \<noteq> n) xs)"
    have "?p \<in> set (x # takeWhile (\<lambda>y. y \<noteq> n) xs)" by (rule last_in_set) simp
    then have "?p \<in> set (x # xs)" by (auto dest: set_takeWhileD)
    then have "?p \<noteq> l" using Cons.prems by auto
    then show ?thesis using False Cons.prems Cons.IH [of x] by auto
  qed
qed simp

lemma priority_queue_remove_removes:
  assumes "pqueue s root xs" and "n \<noteq> root"
  obtains s' where "priority_queue_remove s root n = Some (Inr s')" and "pqueue s' root (remove1 n xs)"
    and "n \<in> set xs \<Longrightarrow> pq_next s' n = Null"
proof (cases "n \<in> set xs")
  case True
  let ?h = "(pq_next s)(last (root # takeWhile (\<lambda>x. x \<noteq> n) xs) := pq_next s n, n := Null)"
  have c: "chain (pq_next s) (pq_next s root) xs Null" "distinct (root # xs)"
    using assms(1) by (simp_all add: pqueue_def slist_def)
  have "pqueue (s\<lparr>pq_next := ?h\<rparr>) root (remove1 n xs)"
    using chain_unlink [OF c True, of Null] c assms(1)
    by (simp add: pqueue_def slist_def sorted_map_remove1 notin_set_remove1)
  moreover have "priority_queue_remove s root n = Some (Inr (s\<lparr>pq_next := ?h\<rparr>))"
    using priority_queue_remove_chain [OF c, of n] True by simp
  moreover have "pq_next (s\<lparr>pq_next := ?h\<rparr>) n = Null" by simp
  ultimately show thesis using that by blast
next
  case False
  then show thesis
    using that [of s] priority_queue_remove_chain [of s root xs n] assms(1)
    by (simp add: pqueue_def slist_def remove1_idem)
qed

section \<open>A queue sorts\<close>

text \<open>A client that adds some nodes in order, and one that takes the head \<open>k\<close> times.\<close>

fun add_all :: "'n \<Rightarrow> 'n list \<Rightarrow> 'n pq_heap \<Rightarrow> (fault + 'n pq_heap) option" where
  "add_all root [] s = Some (Inr s)"
| "add_all root (n # ns) s =
     (case priority_queue_add s root n of
        None \<Rightarrow> None
      | Some (Inl e) \<Rightarrow> Some (Inl e)
      | Some (Inr s) \<Rightarrow> add_all root ns s)"

fun take_heads :: "'n \<Rightarrow> nat \<Rightarrow> 'n pq_heap \<Rightarrow> fault + ('n pq_heap \<times> 'n ptr list)" where
  "take_heads root 0 s = Inr (s, [])"
| "take_heads root (Suc k) s =
     bindE (priority_queue_remove_head s root) (\<lambda>(s, p).
     bindE (take_heads root k s) (\<lambda>(s, ps). Inr (s, p # ps)))"

lemma add_all_sorts:
  assumes "pqueue s root (sort_key (pq_priority s) ms)" and "distinct (root # ms @ ns)"
  obtains h where "add_all root ns s = Some (Inr (s\<lparr>pq_next := h\<rparr>))"
    and "pqueue (s\<lparr>pq_next := h\<rparr>) root (sort_key (pq_priority s) (ms @ ns))"
  using assms
proof (induction ns arbitrary: s ms thesis)
  case Nil
  then show ?case using Nil.prems(1) [of "pq_next s"] by simp
next
  case (Cons n ns)
  let ?prio = "pq_priority s"
  obtain h where h: "priority_queue_add s root n = Some (Inr (s\<lparr>pq_next := h\<rparr>))"
      "pqueue (s\<lparr>pq_next := h\<rparr>) root (pq_insert ?prio n (sort_key ?prio ms))"
    by (rule priority_queue_add_inserts [OF Cons.prems(2), of n]) (use Cons.prems(3) in auto)
  have "pqueue (s\<lparr>pq_next := h\<rparr>) root (sort_key (pq_priority (s\<lparr>pq_next := h\<rparr>)) (ms @ [n]))"
    using h(2) by (simp add: sort_key_snoc)
  then obtain h' where "add_all root ns (s\<lparr>pq_next := h\<rparr>) = Some (Inr (s\<lparr>pq_next := h'\<rparr>))"
      "pqueue (s\<lparr>pq_next := h'\<rparr>) root (sort_key ?prio (ms @ n # ns))"
    by (rule Cons.IH [rotated]) (use Cons.prems(3) in simp_all)
  with h(1) show ?case by (intro Cons.prems(1)) simp_all
qed

lemma take_heads_all:
  assumes "pqueue s root xs"
  obtains s' where "take_heads root (length xs) s = Inr (s', map Ptr xs)" and "pqueue s' root []"
  using assms
proof (induction xs arbitrary: s thesis)
  case (Cons x xs)
  let ?s = "s\<lparr>pq_next := (pq_next s)(root := pq_next s x)\<rparr>"
  obtain s' where "take_heads root (length xs) ?s = Inr (s', map Ptr xs)" "pqueue s' root []"
    using Cons.IH [OF _ priority_queue_remove_head_Cons(2) [OF Cons.prems(2)]] .
  then show ?case
    using priority_queue_remove_head_Cons(1) [OF Cons.prems(2)] by (intro Cons.prems(1) [of s']) simp_all
qed simp

text \<open>
  C34: The priority queue returns nodes in the order of their priorities, and nodes of equal
  priority in the order in which they were added, as \<open>priority_queue.h\<close> promises: if distinct
  nodes are added to a freshly initialised queue, every call of \<open>priority_queue_add\<close> returns, no
  assertion fails, and as many calls of \<open>priority_queue_remove_head\<close> return the nodes in the
  stable order of their 32 bit priorities and leave the queue empty.
\<close>

theorem priority_queue_stable_order:
  assumes "distinct (root # ns)"
  shows "\<exists>s1 s2. add_all root ns (priority_queue_init s root) = Some (Inr s1) \<and>
    take_heads root (length ns) s1 = Inr (s2, map Ptr (sort_key (pq_priority s) ns)) \<and>
    priority_queue_remove_head s2 root = Inr (s2, Null)"
proof -
  let ?s = "priority_queue_init s root"
  have s: "pqueue ?s root (sort_key (pq_priority ?s) [])" "pq_priority ?s = pq_priority s"
    by (simp_all add: priority_queue_init_def pqueue_def slist_def)
  obtain h where h: "add_all root ns ?s = Some (Inr (?s\<lparr>pq_next := h\<rparr>))"
      "pqueue (?s\<lparr>pq_next := h\<rparr>) root (sort_key (pq_priority s) ns)"
    by (rule add_all_sorts [OF s(1), of ns]) (use assms s(2) in simp_all)
  obtain s2 where "take_heads root (length ns) (?s\<lparr>pq_next := h\<rparr>) =
      Inr (s2, map Ptr (sort_key (pq_priority s) ns))" "pqueue s2 root []"
    by (rule take_heads_all [OF h(2)]) simp
  with h(1) show ?thesis by (simp add: priority_queue_remove_head_Nil)
qed

theorem priority_queue_stable_order_witness:
  "distinct [0, 1, 2, 3 :: nat] \<and>
   (\<exists>s1 s2. add_all (0 :: nat) [1, 2, 3]
       (priority_queue_init \<lparr>pq_next = \<lambda>_. Null, pq_priority = (\<lambda>n. if n = 2 then 1 else 7), pq_data = \<lambda>_. 0\<rparr> 0)
       = Some (Inr s1) \<and>
     take_heads 0 3 s1 = Inr (s2, [Ptr 2, Ptr 1, Ptr 3]) \<and>
     priority_queue_remove_head s2 0 = Inr (s2, Null))"
  using priority_queue_stable_order [of "0 :: nat" "[1, 2, 3]"
      "\<lparr>pq_next = \<lambda>_. Null, pq_priority = (\<lambda>n. if n = 2 then 1 else 7), pq_data = \<lambda>_. 0\<rparr>"]
  by (simp add: numeral_3_eq_3 word_le_nat_alt del: add_all.simps take_heads.simps)

end
