(* ===== verification/Checksum.thy ===== *)
theory Checksum
  imports Buffers
begin

text \<open>
  The checksums of \<open>sys/checksum\<close>: the CRC with the CCITT polynomial by table
  (\<open>crc16_ccitt.c\<close>), the CRCs for any polynomial bit by bit (\<open>ucrc16.c\<close>), and the two sums of
  Fletcher (\<open>fletcher16.c\<close>, \<open>fletcher32.c\<close>), which put off the reduction of their sums as long as
  these cannot overflow.
\<close>

section \<open>crc16_ccitt.c\<close>

definition crc16_lookuptable :: "u16 list" where
  "crc16_lookuptable =
  [0x0000, 0x1021, 0x2042, 0x3063, 0x4084, 0x50a5, 0x60c6, 0x70e7,
   0x8108, 0x9129, 0xa14a, 0xb16b, 0xc18c, 0xd1ad, 0xe1ce, 0xf1ef,
   0x1231, 0x0210, 0x3273, 0x2252, 0x52b5, 0x4294, 0x72f7, 0x62d6,
   0x9339, 0x8318, 0xb37b, 0xa35a, 0xd3bd, 0xc39c, 0xf3ff, 0xe3de,
   0x2462, 0x3443, 0x0420, 0x1401, 0x64e6, 0x74c7, 0x44a4, 0x5485,
   0xa56a, 0xb54b, 0x8528, 0x9509, 0xe5ee, 0xf5cf, 0xc5ac, 0xd58d,
   0x3653, 0x2672, 0x1611, 0x0630, 0x76d7, 0x66f6, 0x5695, 0x46b4,
   0xb75b, 0xa77a, 0x9719, 0x8738, 0xf7df, 0xe7fe, 0xd79d, 0xc7bc,
   0x48c4, 0x58e5, 0x6886, 0x78a7, 0x0840, 0x1861, 0x2802, 0x3823,
   0xc9cc, 0xd9ed, 0xe98e, 0xf9af, 0x8948, 0x9969, 0xa90a, 0xb92b,
   0x5af5, 0x4ad4, 0x7ab7, 0x6a96, 0x1a71, 0x0a50, 0x3a33, 0x2a12,
   0xdbfd, 0xcbdc, 0xfbbf, 0xeb9e, 0x9b79, 0x8b58, 0xbb3b, 0xab1a,
   0x6ca6, 0x7c87, 0x4ce4, 0x5cc5, 0x2c22, 0x3c03, 0x0c60, 0x1c41,
   0xedae, 0xfd8f, 0xcdec, 0xddcd, 0xad2a, 0xbd0b, 0x8d68, 0x9d49,
   0x7e97, 0x6eb6, 0x5ed5, 0x4ef4, 0x3e13, 0x2e32, 0x1e51, 0x0e70,
   0xff9f, 0xefbe, 0xdfdd, 0xcffc, 0xbf1b, 0xaf3a, 0x9f59, 0x8f78,
   0x9188, 0x81a9, 0xb1ca, 0xa1eb, 0xd10c, 0xc12d, 0xf14e, 0xe16f,
   0x1080, 0x00a1, 0x30c2, 0x20e3, 0x5004, 0x4025, 0x7046, 0x6067,
   0x83b9, 0x9398, 0xa3fb, 0xb3da, 0xc33d, 0xd31c, 0xe37f, 0xf35e,
   0x02b1, 0x1290, 0x22f3, 0x32d2, 0x4235, 0x5214, 0x6277, 0x7256,
   0xb5ea, 0xa5cb, 0x95a8, 0x8589, 0xf56e, 0xe54f, 0xd52c, 0xc50d,
   0x34e2, 0x24c3, 0x14a0, 0x0481, 0x7466, 0x6447, 0x5424, 0x4405,
   0xa7db, 0xb7fa, 0x8799, 0x97b8, 0xe75f, 0xf77e, 0xc71d, 0xd73c,
   0x26d3, 0x36f2, 0x0691, 0x16b0, 0x6657, 0x7676, 0x4615, 0x5634,
   0xd94c, 0xc96d, 0xf90e, 0xe92f, 0x99c8, 0x89e9, 0xb98a, 0xa9ab,
   0x5844, 0x4865, 0x7806, 0x6827, 0x18c0, 0x08e1, 0x3882, 0x28a3,
   0xcb7d, 0xdb5c, 0xeb3f, 0xfb1e, 0x8bf9, 0x9bd8, 0xabbb, 0xbb9a,
   0x4a75, 0x5a54, 0x6a37, 0x7a16, 0x0af1, 0x1ad0, 0x2ab3, 0x3a92,
   0xfd2e, 0xed0f, 0xdd6c, 0xcd4d, 0xbdaa, 0xad8b, 0x9de8, 0x8dc9,
   0x7c26, 0x6c07, 0x5c64, 0x4c45, 0x3ca2, 0x2c83, 0x1ce0, 0x0cc1,
   0xef1f, 0xff3e, 0xcf5d, 0xdf7c, 0xaf9b, 0xbfba, 0x8fd9, 0x9ff8,
   0x6e17, 0x7e36, 0x4e55, 0x5e74, 0x2e93, 0x3eb2, 0x0ed1, 0x1ef0]"

definition crc16_ccitt_update :: "u16 \<Rightarrow> u8 list \<Rightarrow> nat \<Rightarrow> fault + u16" where
  "crc16_ccitt_update crc buf len =
     foldE (\<lambda>i crc. bindE (readE buf i) (\<lambda>x.
              bindE (readE crc16_lookuptable (unat (drop_bit 8 crc XOR (ucast x AND 0x00FF)))) (\<lambda>t.
                Inr (push_bit 8 crc XOR t)))) [0..<len] crc"

definition crc16_ccitt_calc :: "u8 list \<Rightarrow> nat \<Rightarrow> fault + u16" where
  "crc16_ccitt_calc buf len = crc16_ccitt_update 0x1D0F buf len"

section \<open>ucrc16.c\<close>

text \<open>
  The counter of the bytes is an \<open>unsigned\<close> of 32 bits and the length a \<open>size_t\<close> of 64: if the
  length is \<open>2 ^ 32\<close> or more, the loop does not stop at the end of the buffer.
\<close>

definition be_bit :: "u16 \<Rightarrow> u32 \<Rightarrow> u32" where
  "be_bit poly tmp = (if tmp AND 0x8000 \<noteq> 0 then push_bit 1 tmp XOR ucast poly else push_bit 1 tmp)"

definition ucrc16_calc_be :: "u8 list \<Rightarrow> nat \<Rightarrow> u16 \<Rightarrow> u16 \<Rightarrow> fault + u16" where
  "ucrc16_calc_be buf len poly seed =
     (if len \<ge> 2 ^ 32 then Inl OutOfBounds
      else foldE (\<lambda>c seed. bindE (readE buf c) (\<lambda>x.
             let tmp = ucast seed XOR push_bit (16 - 8) (ucast x);
                 tmp = (be_bit poly ^^ 8) tmp
             in Inr (ucast (tmp AND 0xFFFF)))) [0..<len] seed)"

definition le_bit :: "u16 \<Rightarrow> u16 \<Rightarrow> u16" where
  "le_bit poly seed = (if seed AND 0x0001 \<noteq> 0 then drop_bit 1 seed XOR poly else drop_bit 1 seed)"

definition ucrc16_calc_le :: "u8 list \<Rightarrow> nat \<Rightarrow> u16 \<Rightarrow> u16 \<Rightarrow> fault + u16" where
  "ucrc16_calc_le buf len poly seed =
     (if len \<ge> 2 ^ 32 then Inl OutOfBounds
      else foldE (\<lambda>c seed. bindE (readE buf c) (\<lambda>x.
             Inr ((le_bit poly ^^ 8) (seed XOR ucast x)))) [0..<len] seed)"

section \<open>fletcher16.c and fletcher32.c\<close>

text \<open>The \<open>do\<close> loop, which runs \<open>tlen \<ge> 1\<close> times, and the reduction.\<close>

definition sum_up :: "'d::len word list \<Rightarrow> nat \<Rightarrow> nat \<Rightarrow> 'w::len word \<times> 'w word \<Rightarrow> fault + ('w word \<times> 'w word)" where
  "sum_up data pos tlen =
     foldE (\<lambda>i (sum1, sum2). bindE (readE data i) (\<lambda>x.
       let sum1 = sum1 + ucast x; sum2 = sum2 + sum1 in Inr (sum1, sum2))) [pos..<pos + tlen]"

definition fold_half :: "nat \<Rightarrow> 'w::len word \<Rightarrow> 'w word" where
  "fold_half k s = (s AND mask k) + drop_bit k s"

fun fletcher16_loop :: "u8 list \<Rightarrow> nat \<Rightarrow> nat \<Rightarrow> u16 \<times> u16 \<Rightarrow> fault + (u16 \<times> u16)" where
  "fletcher16_loop data pos bytes sums =
     (if bytes = 0 then Inr sums
      else let tlen = (if bytes > 20 then 20 else bytes) in
        bindE (sum_up data pos tlen sums) (\<lambda>(sum1, sum2).
          fletcher16_loop data (pos + tlen) (bytes - tlen) (fold_half 8 sum1, fold_half 8 sum2)))"

definition fletcher16 :: "u8 list \<Rightarrow> nat \<Rightarrow> fault + u16" where
  "fletcher16 data bytes =
     bindE (fletcher16_loop data 0 bytes (0xff, 0xff)) (\<lambda>(sum1, sum2).
       let sum1 = fold_half 8 sum1; sum2 = fold_half 8 sum2
       in Inr (push_bit 8 sum2 OR sum1))"

fun fletcher32_loop :: "u16 list \<Rightarrow> nat \<Rightarrow> nat \<Rightarrow> u32 \<times> u32 \<Rightarrow> fault + (u32 \<times> u32)" where
  "fletcher32_loop data pos words sums =
     (if words = 0 then Inr sums
      else let tlen = (if words > 359 then 359 else words) in
        bindE (sum_up data pos tlen sums) (\<lambda>(sum1, sum2).
          fletcher32_loop data (pos + tlen) (words - tlen) (fold_half 16 sum1, fold_half 16 sum2)))"

definition fletcher32 :: "u16 list \<Rightarrow> nat \<Rightarrow> fault + u32" where
  "fletcher32 data words =
     bindE (fletcher32_loop data 0 words (0xffff, 0xffff)) (\<lambda>(sum1, sum2).
       let sum1 = fold_half 16 sum1; sum2 = fold_half 16 sum2
       in Inr (push_bit 16 sum2 OR sum1))"

declare fletcher16_loop.simps [simp del] fletcher32_loop.simps [simp del]

section \<open>The table is the polynomial\<close>

text \<open>A bit at a time on 16 bits; the upper half of the 32 bits of the code is never looked at.\<close>

definition crc_bit :: "u16 \<Rightarrow> u16 \<Rightarrow> u16" where
  "crc_bit poly x = push_bit 1 x XOR (if bit x 15 then poly else 0)"

lemma bit_15: "(x :: 'a::len word) AND 0x8000 \<noteq> 0 \<longleftrightarrow> bit x 15"
proof -
  have "(0x8000 :: 'a word) = push_bit 15 1" by (simp add: push_bit_eq_mult)
  then show ?thesis by (simp add: bit_iff_and_push_bit_not_eq_0)
qed

lemma ucast_be_bit: "ucast (be_bit poly tmp) = crc_bit poly (ucast tmp)"
  by (rule bit_word_eqI) (auto simp: be_bit_def crc_bit_def bit_15 bit_simps simp del: push_bit_Suc)

lemma ucast_be_bits: "ucast ((be_bit poly ^^ n) tmp) = (crc_bit poly ^^ n) (ucast tmp)"
  by (induction n) (simp_all add: ucast_be_bit)

lemma crc_bit_xor: "crc_bit poly (x XOR y) = crc_bit poly x XOR crc_bit poly y"
  by (rule bit_word_eqI) (auto simp: crc_bit_def bit_simps simp del: push_bit_Suc)

lemma crc_bits_xor: "(crc_bit poly ^^ n) (x XOR y) = (crc_bit poly ^^ n) x XOR (crc_bit poly ^^ n) y"
  by (induction n) (simp_all add: crc_bit_xor)

lemma crc_bits_small:
  assumes "\<And>i. bit x i \<Longrightarrow> i + n < 16"
  shows "(crc_bit poly ^^ n) x = push_bit n x"
  using assms
proof (induction n)
  case (Suc n)
  then have "(crc_bit poly ^^ n) x = push_bit n x" by fastforce
  moreover have "\<not> bit (push_bit n x) 15" using Suc.prems by (fastforce simp: bit_simps)
  ultimately have "(crc_bit poly ^^ Suc n) x = push_bit 1 (push_bit n x)"
    by (simp add: crc_bit_def [of _ "push_bit n x"] del: push_bit_Suc)
  then show ?case by (simp only: push_bit_push_bit) simp
qed simp

text \<open>
  The entries by doubling: shifting the index by one bit is one more step of the division, and an
  odd index adds the polynomial.
\<close>

lemma crc16_lookuptable_pairs:
  "crc16_lookuptable = concat (map (\<lambda>t. [crc_bit 0x1021 t, crc_bit 0x1021 t XOR 0x1021]) (take 128 crc16_lookuptable))"
  by (simp add: crc16_lookuptable_def) (simp add: crc_bit_def)

lemma length_crc16_lookuptable [simp]: "length crc16_lookuptable = 256"
  by (simp add: crc16_lookuptable_def)

lemma nth_concat_pairs:
  "j < length xs \<Longrightarrow> concat (map (\<lambda>t. [f t, g t]) xs) ! (2 * j) = f (xs ! j)"
  "j < length xs \<Longrightarrow> concat (map (\<lambda>t. [f t, g t]) xs) ! Suc (2 * j) = g (xs ! j)"
  by (induction xs arbitrary: j; case_tac j; simp)+

lemma crc_bits_double:
  assumes "j < 128"
  shows "(crc_bit poly ^^ 8) (push_bit 8 (of_nat (2 * j))) =
    crc_bit poly ((crc_bit poly ^^ 8) (push_bit 8 (of_nat j)))"
proof -
  have "\<not> bit j 7" using assms by (simp add: bit_iff_odd)
  then have "\<not> bit (push_bit 8 (of_nat j :: u16)) 15"
    by (simp add: bit_push_bit_iff bit_of_nat_iff)
  then have "push_bit 8 (of_nat (2 * j)) = crc_bit poly (push_bit 8 (of_nat j))"
    by (simp add: crc_bit_def push_bit_eq_mult ac_simps)
  then show ?thesis by (simp only: funpow_swap1)
qed

lemma crc_bits_odd:
  "(crc_bit poly ^^ 8) (push_bit 8 (of_nat (Suc (2 * j)))) =
    (crc_bit poly ^^ 8) (push_bit 8 (of_nat (2 * j))) XOR (crc_bit poly ^^ 8) (push_bit 8 1)"
proof -
  have "Suc (2 * j) = (2 * j) XOR 1" using xor_one_eq [of "2 * j"] by simp
  then have "(of_nat (Suc (2 * j)) :: u16) = of_nat (2 * j) XOR 1"
    by (simp only: of_nat_xor_eq of_nat_1)
  then show ?thesis by (simp only: push_bit_xor crc_bits_xor)
qed

lemma crc16_lookuptable_entry:
  "i < 256 \<Longrightarrow> crc16_lookuptable ! i = (crc_bit 0x1021 ^^ 8) (push_bit 8 (of_nat i))"
proof (induction i rule: less_induct)
  case (less i)
  let ?T = "\<lambda>i :: nat. (crc_bit 0x1021 ^^ 8) (push_bit 8 (of_nat i))"
  have ends: "?T 0 = 0" "(crc_bit 0x1021 ^^ 8) (push_bit 8 1) = 0x1021" by code_simp+
  show ?case
  proof (cases "i = 0")
    case True
    then show ?thesis using ends(1) by (simp add: crc16_lookuptable_def)
  next
    case False
    define j where "j = i div 2"
    have j: "j < i" "j < 128" using False less.prems by (auto simp: j_def)
    then have IH: "crc16_lookuptable ! j = ?T j" using less.IH by simp
    consider "i = 2 * j" | "i = Suc (2 * j)" unfolding j_def by fastforce
    then show ?thesis
    proof cases
      case 1
      have "crc16_lookuptable ! (2 * j) = crc_bit 0x1021 (crc16_lookuptable ! j)"
        using j(2) by (subst crc16_lookuptable_pairs) (simp add: nth_concat_pairs)
      then show ?thesis unfolding 1 crc_bits_double [OF j(2)] IH .
    next
      case 2
      have "crc16_lookuptable ! Suc (2 * j) = crc_bit 0x1021 (crc16_lookuptable ! j) XOR 0x1021"
        using j(2) by (subst crc16_lookuptable_pairs) (simp add: nth_concat_pairs)
      then show ?thesis unfolding 2 crc_bits_odd crc_bits_double [OF j(2)] IH ends .
    qed
  qed
qed

lemma crc16_lookuptable_nth:
  "unat x < 256 \<Longrightarrow> crc16_lookuptable ! unat x = (crc_bit 0x1021 ^^ 8) (push_bit 8 (x :: u16))"
  by (simp add: crc16_lookuptable_entry)

lemma and_low:
  "(x :: u16) AND 0x00FF = take_bit 8 x" "(y :: u32) AND 0xFFFF = take_bit 16 y"
  by (simp_all add: take_bit_eq_mask mask_eq_exp_minus_1)

lemma ucast_and_ff: "(ucast (x :: u8) AND 0x00FF :: u16) = ucast x"
  unfolding and_low by (rule bit_word_eqI) (auto simp: bit_simps dest: bit_imp_le_length)

lemma crc_step_index: "unat (drop_bit 8 (crc :: u16) XOR ucast (x :: u8)) < 256"
proof -
  let ?i = "drop_bit 8 crc XOR ucast x :: u16"
  have "take_bit 8 ?i = ?i"
    by (rule bit_word_eqI) (auto simp: bit_simps dest: bit_imp_le_length)
  then have "take_bit 8 (unat ?i) = unat ?i" by (metis unsigned_take_bit_eq)
  then show ?thesis
    using take_bit_nat_less_exp [of 8 "unat ?i"] by simp
qed

lemma crc_step_table:
  "push_bit 8 crc XOR crc16_lookuptable ! unat (drop_bit 8 crc XOR ucast x) =
    (crc_bit 0x1021 ^^ 8) (crc XOR push_bit 8 (ucast x))" for crc :: u16 and x :: u8
proof -
  let ?i = "drop_bit 8 crc XOR ucast x"
  have "crc XOR push_bit 8 (ucast x) = take_bit 8 crc XOR push_bit 8 ?i"
    by (rule bit_word_eqI) (auto simp: bit_simps)
  then have "(crc_bit 0x1021 ^^ 8) (crc XOR push_bit 8 (ucast x)) =
      (crc_bit 0x1021 ^^ 8) (take_bit 8 crc) XOR (crc_bit 0x1021 ^^ 8) (push_bit 8 ?i)"
    by (simp only: crc_bits_xor)
  also have "(crc_bit 0x1021 ^^ 8) (take_bit 8 crc) = push_bit 8 (take_bit 8 crc)"
    by (rule crc_bits_small) (auto simp: bit_take_bit_iff)
  also have "push_bit 8 (take_bit 8 crc) = push_bit 8 crc"
    by (rule bit_word_eqI) (auto simp: bit_simps)
  also have "(crc_bit 0x1021 ^^ 8) (push_bit 8 ?i) = crc16_lookuptable ! unat ?i"
    by (rule crc16_lookuptable_nth [OF crc_step_index, symmetric])
  finally show ?thesis ..
qed

lemma ucrc_step:
  "(ucast ((be_bit poly ^^ 8) (ucast seed XOR push_bit (16 - 8) (ucast (x :: u8))) AND 0xFFFF) :: u16) =
     (crc_bit poly ^^ 8) (seed XOR push_bit 8 (ucast x))"
proof -
  have "(ucast (y AND 0xFFFF) :: u16) = ucast y" for y :: u32
    unfolding and_low by (rule bit_word_eqI) (auto simp: bit_simps)
  moreover have "(ucast (ucast seed XOR push_bit (16 - 8) (ucast x) :: u32) :: u16) = seed XOR push_bit 8 (ucast x)"
    by (rule bit_word_eqI) (auto simp: bit_simps)
  ultimately show ?thesis by (simp only: ucast_be_bits)
qed

text \<open>
  C32: The two implementations of the CRC agree: for every start value, buffer and length below
  \<open>2 ^ 32\<close>, \<open>crc16_ccitt_update\<close> with its table computes what \<open>ucrc16_calc_be\<close> computes bit by bit for
  the polynomial \<open>0x1021\<close>, and both fail alike when the length exceeds the buffer.
\<close>

theorem crc16_ccitt_is_ucrc16:
  assumes "len < 2 ^ 32"
  shows "crc16_ccitt_update crc buf len = ucrc16_calc_be buf len 0x1021 crc"
proof -
  have "bindE (readE buf i) (\<lambda>x. bindE (readE crc16_lookuptable (unat (drop_bit 8 crc XOR (ucast x AND 0x00FF)))) (\<lambda>t.
          Inr (push_bit 8 crc XOR t))) =
        bindE (readE buf i) (\<lambda>x. let tmp = ucast crc XOR push_bit (16 - 8) (ucast x); tmp = (be_bit 0x1021 ^^ 8) tmp
          in Inr (ucast (tmp AND 0xFFFF)))" for i crc
    by (rule bindE_cong [OF refl]) (simp only: Let_def ucast_and_ff ucrc_step crc_step_table crc_step_index readE_ok length_crc16_lookuptable bindE.simps)
  moreover have "\<not> 2 ^ 32 \<le> len" using assms by simp
  ultimately show ?thesis
    unfolding crc16_ccitt_update_def ucrc16_calc_be_def by (simp only: if_False)
qed

theorem crc16_ccitt_is_ucrc16_witness:
  "crc16_ccitt_update 0x1D0F [0x31, 0x32, 0x33] 3 = ucrc16_calc_be [0x31, 0x32, 0x33] 3 0x1021 0x1D0F"
  by (rule crc16_ccitt_is_ucrc16) simp

section \<open>The other bit order\<close>

definition mirror :: "'a::len word \<Rightarrow> 'a word" where
  "mirror w = horner_sum of_bool 2 (rev (map (bit w) [0..<LENGTH('a)]))"

lemma bit_mirror: "bit (mirror w) n \<longleftrightarrow> n < LENGTH('a) \<and> bit w (LENGTH('a) - 1 - n)" for w :: "'a::len word"
  by (auto simp: mirror_def bit_horner_sum_bit_word_iff rev_nth)

lemma le_bit_mirror: "le_bit (mirror poly) (mirror x) = mirror (crc_bit poly x)"
proof -
  have "mirror x AND 0x0001 \<noteq> 0 \<longleftrightarrow> bit (mirror x) 0"
    by (simp add: and_one_eq bit_0 odd_iff_mod_2_eq_one)
  then have "mirror x AND 0x0001 \<noteq> 0 \<longleftrightarrow> bit x 15"
    by (simp only: bit_mirror) simp
  then show ?thesis
    by (intro bit_word_eqI) (auto simp: le_bit_def crc_bit_def bit_mirror bit_simps simp del: push_bit_Suc drop_bit_Suc)
qed

lemma le_bits_mirror: "(le_bit (mirror poly) ^^ n) (mirror x) = mirror ((crc_bit poly ^^ n) x)"
  by (induction n) (simp_all add: le_bit_mirror)

lemma mirror_xor_byte: "mirror (seed XOR push_bit 8 (ucast x)) = mirror seed XOR ucast (mirror x)" for seed :: u16 and x :: u8
  by (rule bit_word_eqI) (auto simp: bit_mirror bit_simps)

text \<open>\<open>ucrc16_calc_le\<close> is \<open>ucrc16_calc_be\<close> with all words and bytes read backwards.\<close>

lemma ucrc16_calc_le_mirror:
  "ucrc16_calc_le (map mirror buf) len (mirror poly) (mirror seed) =
    map_sum id mirror (ucrc16_calc_be buf len poly seed)"
proof -
  let ?le = "\<lambda>c seed. bindE (readE (map mirror buf) c) (\<lambda>x. Inr ((le_bit (mirror poly) ^^ 8) (seed XOR ucast x)))"
  let ?be = "\<lambda>c seed. bindE (readE buf c) (\<lambda>x. Inr ((crc_bit poly ^^ 8) (seed XOR push_bit 8 (ucast x))))"
  have step: "?le c (mirror s) = map_sum id mirror (?be c s)" for c s
    unfolding readE_def by (simp add: le_bits_mirror del: funpow.simps flip: mirror_xor_byte)
  have "foldE ?le cs (mirror seed) = map_sum id mirror (foldE ?be cs seed)" for cs
  proof (induction cs arbitrary: seed)
    case (Cons c cs)
    show ?case unfolding foldE.simps step by (cases "?be c seed") (simp_all add: Cons.IH)
  qed simp
  then show ?thesis
    unfolding ucrc16_calc_le_def ucrc16_calc_be_def Let_def ucrc_step by simp
qed

section \<open>The sums do not overflow\<close>

fun sums :: "nat list \<Rightarrow> nat \<times> nat \<Rightarrow> nat \<times> nat" where
  "sums [] s = s"
| "sums (x # xs) (a, b) = sums xs (a + x, b + (a + x))"

lemma sums_append: "sums (xs @ ys) s = sums ys (sums xs s)"
  by (induction xs s rule: sums.induct) auto

fun weighted :: "nat list \<Rightarrow> nat" where
  "weighted [] = 0"
| "weighted (x # xs) = Suc (length xs) * x + weighted xs"

lemma sums_eq: "sums xs (a, b) = (a + sum_list xs, b + length xs * a + weighted xs)"
  by (induction xs arbitrary: a b) (auto simp: algebra_simps)

lemma sum_list_nth: "sum_list xs = (\<Sum>i<length xs. xs ! i)"
  by (induction xs) (auto simp: sum.lessThan_Suc_shift simp del: sum.lessThan_Suc)

lemma weighted_nth: "weighted xs = (\<Sum>i<length xs. (length xs - i) * xs ! i)"
  by (induction xs) (auto simp: sum.lessThan_Suc_shift simp del: sum.lessThan_Suc)

lemma weighted_le: "(\<And>x. x \<in> set xs \<Longrightarrow> x \<le> M) \<Longrightarrow> 2 * weighted xs \<le> M * (length xs * Suc (length xs))"
proof (induction xs)
  case (Cons x xs)
  have "Suc (length xs) * x \<le> Suc (length xs) * M" using Cons.prems by (intro mult_le_mono2) simp
  then show ?case using Cons by (simp add: algebra_simps)
qed simp

lemma sums_mod:
  assumes "a mod M = a' mod M" and "b mod M = b' mod M"
  shows "fst (sums xs (a, b)) mod M = fst (sums xs (a', b')) mod M"
    and "snd (sums xs (a, b)) mod M = snd (sums xs (a', b')) mod M"
  unfolding sums_eq using assms by (auto intro!: mod_add_cong mod_mult_cong)

lemma sum_up_sums:
  fixes data :: "'d::len word list" and a b :: "'w::len word"
  assumes "LENGTH('d) \<le> LENGTH('w)" and "pos + t \<le> length data"
    and "snd (sums (map unat (take t (drop pos data))) (unat a, unat b)) < 2 ^ LENGTH('w)"
  shows "\<exists>a' b'. sum_up data pos t (a, b) = Inr (a', b') \<and>
    (unat a', unat b') = sums (map unat (take t (drop pos data))) (unat a, unat b)"
  using assms(2,3)
proof (induction t arbitrary: pos a b)
  case 0
  then show ?case by (simp add: sum_up_def)
next
  case (Suc t)
  let ?x = "data ! pos" and ?xs = "map unat (take t (drop (Suc pos) data))"
  have d: "map unat (take (Suc t) (drop pos data)) = unat ?x # ?xs"
    using Suc.prems(1) by (simp flip: Cons_nth_drop_Suc)
  have "unat b + (unat a + unat ?x) \<le> snd (sums ?xs (unat a + unat ?x, unat b + (unat a + unat ?x)))"
    by (simp add: sums_eq)
  then have lt: "unat b + (unat a + unat ?x) < 2 ^ LENGTH('w)" using Suc.prems(2) unfolding d by simp
  have "unat ?x < 2 ^ LENGTH('d)" by (rule unsigned_less)
  then have "unat ?x < 2 ^ LENGTH('w)"
    using power_increasing [OF assms(1), of "2 :: nat"] by linarith
  then have x: "unat (ucast ?x :: 'w word) = unat ?x"
    by (simp add: unsigned_ucast_eq take_bit_nat_eq_self_iff)
  have a: "unat (a + ucast ?x) = unat a + unat ?x" using lt x by (simp add: unat_word_ariths)
  have b: "unat (b + (a + ucast ?x)) = unat b + (unat a + unat ?x)" using lt a by (simp add: unat_word_ariths)
  have "sum_up data pos (Suc t) (a, b) = sum_up data (Suc pos) t (a + ucast ?x, b + (a + ucast ?x))"
    using Suc.prems(1) unfolding sum_up_def
    by (subst upt_conv_Cons) (simp_all add: Let_def del: upt_Suc)
  then show ?case
    using Suc.IH [of "Suc pos" "a + ucast ?x" "b + (a + ucast ?x)"] Suc.prems unfolding a b d by simp
qed


text \<open>The reduction, on numbers.\<close>

definition fold_nat :: "nat \<Rightarrow> nat \<Rightarrow> nat" where
  "fold_nat k n = n mod 2 ^ k + n div 2 ^ k"

lemma fold_nat_mod: "fold_nat k n mod (2 ^ k - 1) = n mod (2 ^ k - 1)"
proof -
  have "n = n div 2 ^ k * 2 ^ k + n mod 2 ^ k" by (simp add: div_mult_mod_eq)
  also have "(2 :: nat) ^ k = (2 ^ k - 1) + 1" by simp
  finally have "n = fold_nat k n + n div 2 ^ k * (2 ^ k - 1)"
    by (simp add: fold_nat_def algebra_simps)
  then show ?thesis by (metis mod_mult_self1)
qed

lemma fold_nat_pos: "0 < n \<Longrightarrow> 0 < fold_nat k n"
  using div_mult_mod_eq [of n "2 ^ k"] by (auto simp: fold_nat_def)

lemma fold_nat_le:
  assumes "n < 2 ^ (2 * k)"
  shows "fold_nat k n \<le> 2 * (2 ^ k - 1)"
proof -
  have "n div 2 ^ k < 2 ^ k" using assms by (simp add: less_mult_imp_div_less mult_2 power_add)
  moreover have "n mod 2 ^ k < 2 ^ k" by simp
  ultimately show ?thesis unfolding fold_nat_def by linarith
qed

lemma fold_nat_le2:
  assumes "n \<le> 2 * (2 ^ k - 1)"
  shows "fold_nat k n \<le> 2 ^ k - 1"
proof (cases "n < 2 ^ k")
  case True
  then show ?thesis by (simp add: fold_nat_def)
next
  case False
  then have "n div 2 ^ k = 1" 
    using le_less_trans [OF assms, of "2 * 2 ^ k"] by (intro div_nat_eqI) simp_all
  moreover from this have "n mod 2 ^ k = n - 2 ^ k" by (simp add: minus_div_mult_eq_mod [symmetric])
  moreover have "Suc (n - m) \<le> m - 1" if "n \<le> 2 * (m - 1)" "\<not> n < m" "0 < m" for m
    using that by arith
  then have "Suc (n - 2 ^ k) \<le> 2 ^ k - 1" using assms False by simp
  ultimately show ?thesis by (simp add: fold_nat_def)
qed

lemma unat_fold_half:
  assumes "2 * k = LENGTH('w)" and "0 < k"
  shows "unat (fold_half k (s :: 'w::len word)) = fold_nat k (unat s)"
proof -
  have "unat s < 2 ^ (2 * k)" unfolding assms(1) by (rule unsigned_less)
  then have "fold_nat k (unat s) < 2 ^ (2 * k)"
    using fold_nat_le [of "unat s" k] power_strict_increasing [of k "2 * k" "2 :: nat"] assms(2)
      power_increasing [of "Suc k" "2 * k" "2 :: nat"] by simp
  moreover have "unat (drop_bit k s) = unat s div 2 ^ k"
    by (simp only: unsigned_drop_bit_eq) (simp add: drop_bit_eq_div take_bit_nat_eq_self)
  ultimately show ?thesis
    by (simp add: fold_half_def unat_word_ariths unat_and_mask fold_nat_def assms(1))
qed

text \<open>
  What the two sums share: a loop over blocks of at most \<open>B\<close> elements, and \<open>B\<close> is small enough for
  the width of the sums.
\<close>

locale fletcher_sum =
  fixes loop :: "'d::len word list \<Rightarrow> nat \<Rightarrow> nat \<Rightarrow> 'w::len word \<times> 'w word \<Rightarrow> fault + ('w word \<times> 'w word)"
    and B M :: nat
  assumes width: "2 * LENGTH('d) = LENGTH('w)" and M: "M = 2 ^ LENGTH('d) - 1" and B: "0 < B"
    and no_overflow: "2 * M + B * (2 * M) + M * (B * Suc B) div 2 < 2 ^ LENGTH('w)"
    and loop: "loop data pos n s =
      (if n = 0 then Inr s
       else let tlen = (if n > B then B else n) in
         bindE (sum_up data pos tlen s) (\<lambda>(sum1, sum2).
           loop data (pos + tlen) (n - tlen) (fold_half LENGTH('d) sum1, fold_half LENGTH('d) sum2)))"
begin

definition elements :: "'d word list \<Rightarrow> nat \<Rightarrow> nat \<Rightarrow> nat list" where
  "elements data pos n = map unat (take n (drop pos data))"

lemma elements_add: "elements data pos (m + n) = elements data pos m @ elements data (pos + m) n"
  by (simp add: elements_def take_add ac_simps)

lemma length_elements: "pos + n \<le> length data \<Longrightarrow> length (elements data pos n) = n"
  by (simp add: elements_def)

lemma element_le: "x \<in> set (elements data pos n) \<Longrightarrow> x \<le> M"
proof -
  assume "x \<in> set (elements data pos n)"
  then obtain y :: "'d word" where "x = unat y" by (auto simp: elements_def)
  then have "x < 2 ^ LENGTH('d)" by (simp add: unsigned_less)
  then show "x \<le> M" unfolding M by linarith
qed

definition reduced :: "'w word \<Rightarrow> bool" where
  "reduced s \<longleftrightarrow> 0 < unat s \<and> unat s \<le> 2 * M"

lemma fold_half_reduced:
  "0 < unat s \<Longrightarrow> reduced (fold_half LENGTH('d) s)"
  "unat (fold_half LENGTH('d) s) mod M = unat s mod M"
proof -
  have eq: "unat (fold_half LENGTH('d) s) = fold_nat LENGTH('d) (unat s)"
    by (rule unat_fold_half [OF width]) simp
  have lt: "unat s < 2 ^ (2 * LENGTH('d))" unfolding width by (rule unsigned_less)
  show "0 < unat s \<Longrightarrow> reduced (fold_half LENGTH('d) s)"
    using fold_nat_pos fold_nat_le [OF lt, folded M] by (simp add: reduced_def eq)
  show "unat (fold_half LENGTH('d) s) mod M = unat s mod M"
    unfolding eq M by (rule fold_nat_mod)
qed

lemma sum_block:
  assumes "pos + t \<le> length data" and "t \<le> B" and "reduced a" and "reduced b"
  obtains a' b' where "sum_up data pos t (a, b) = Inr (a', b')" and "0 < unat a'" and "0 < unat b'"
    and "(unat a', unat b') = sums (elements data pos t) (unat a, unat b)"
proof -
  let ?xs = "elements data pos t"
  have "2 * weighted ?xs \<le> M * (t * Suc t)"
    using weighted_le [OF element_le, of ?xs] by (simp only: length_elements [OF assms(1)])
  also have "\<dots> \<le> M * (B * Suc B)"
    using assms(2) by (intro mult_le_mono2 mult_le_mono) simp_all
  finally have "weighted ?xs \<le> M * (B * Suc B) div 2" by linarith
  moreover have "t * unat a \<le> B * (2 * M)" using assms(2,3) by (intro mult_le_mono) (simp_all add: reduced_def)
  moreover have "unat b \<le> 2 * M" using assms(4) by (simp add: reduced_def)
  ultimately have "unat b + t * unat a + weighted ?xs < 2 ^ LENGTH('w)" using no_overflow by linarith
  then have "snd (sums ?xs (unat a, unat b)) < 2 ^ LENGTH('w)"
    by (simp add: sums_eq length_elements [OF assms(1)])
  then obtain a' b' where s: "sum_up data pos t (a, b) = Inr (a', b')" "(unat a', unat b') = sums ?xs (unat a, unat b)"
    using sum_up_sums [of pos t data a b] width assms(1) unfolding elements_def by auto
  then show thesis
    using assms(3,4) by (intro that [of a' b']) (simp_all add: sums_eq reduced_def)
qed

lemma loop_sums:
  assumes "pos + n \<le> length data" and "reduced a" and "reduced b"
  shows "\<exists>a' b'. loop data pos n (a, b) = Inr (a', b') \<and> reduced a' \<and> reduced b' \<and>
    unat a' mod M = fst (sums (elements data pos n) (unat a, unat b)) mod M \<and>
    unat b' mod M = snd (sums (elements data pos n) (unat a, unat b)) mod M"
  using assms
proof (induction n arbitrary: pos a b rule: less_induct)
  case (less n)
  show ?case
  proof (cases "n = 0")
    case True
    then show ?thesis using less.prems by (subst loop) (simp add: elements_def)
  next
    case False
    define t where "t = (if n > B then B else n)"
    have t: "t \<le> B" "0 < t" "t \<le> n" using False B by (auto simp: t_def)
    obtain a' b' where s: "sum_up data pos t (a, b) = Inr (a', b')" "0 < unat a'" "0 < unat b'"
        "(unat a', unat b') = sums (elements data pos t) (unat a, unat b)"
      by (rule sum_block [of pos t data a b]) (use less.prems t in auto)
    let ?a = "fold_half LENGTH('d) a'" and ?b = "fold_half LENGTH('d) b'"
    let ?ys = "elements data (pos + t) (n - t)"
    obtain a2 b2 where r: "loop data (pos + t) (n - t) (?a, ?b) = Inr (a2, b2)" "reduced a2" "reduced b2"
        "unat a2 mod M = fst (sums ?ys (unat ?a, unat ?b)) mod M"
        "unat b2 mod M = snd (sums ?ys (unat ?a, unat ?b)) mod M"
      using less.IH [of "n - t" "pos + t" ?a ?b] less.prems(1) t s(2,3) fold_half_reduced(1) by auto
    have "sums (elements data pos n) (unat a, unat b) = sums ?ys (unat a', unat b')"
      using elements_add [of data pos t "n - t"] t(3) by (simp add: sums_append s(4))
    moreover have "loop data pos n (a, b) = Inr (a2, b2)"
      using False s(1) r(1) by (subst loop) (simp add: t_def Let_def)
    ultimately show ?thesis
      using r sums_mod [OF fold_half_reduced(2) [of a'] fold_half_reduced(2) [of b'], of ?ys] by simp
  qed
qed

lemma final_fold:
  "reduced s \<Longrightarrow> unat (fold_half LENGTH('d) s) \<in> {1..M}"
  using fold_nat_pos [of "unat s" "LENGTH('d)"] fold_nat_le2 [of "unat s" "LENGTH('d)", folded M] unat_fold_half [OF width, of s]
  by (simp add: reduced_def)

text \<open>The sums of the first \<open>n\<close> elements, from the start value of the code.\<close>

lemma checksum:
  assumes "n \<le> length data" and "unat s = M"
  shows "\<exists>a b. loop data 0 n (s, s) = Inr (a, b) \<and>
    unat (fold_half LENGTH('d) a) \<in> {1..M} \<and> unat (fold_half LENGTH('d) b) \<in> {1..M} \<and>
    unat (fold_half LENGTH('d) a) mod M = (\<Sum>i<n. unat (data ! i)) mod M \<and>
    unat (fold_half LENGTH('d) b) mod M = (\<Sum>i<n. (n - i) * unat (data ! i)) mod M"
proof -
  have "(2 :: nat) ^ 1 \<le> 2 ^ LENGTH('d)" by (rule power_increasing [OF len_gt_0 [THEN Suc_leI, folded One_nat_def]]) simp
  then have "0 < M" unfolding M by simp
  then have "reduced s" using assms(2) by (simp add: reduced_def)
  then obtain a b where r: "loop data 0 n (s, s) = Inr (a, b)" "reduced a" "reduced b"
      "unat a mod M = fst (sums (elements data 0 n) (M, M)) mod M"
      "unat b mod M = snd (sums (elements data 0 n) (M, M)) mod M"
    using loop_sums [of 0 n data s s] assms by auto
  have e: "length (elements data 0 n) = n" "\<And>i. i < n \<Longrightarrow> elements data 0 n ! i = unat (data ! i)"
    using assms(1) by (auto simp: elements_def)
  have "unat a mod M = (\<Sum>i<n. unat (data ! i)) mod M" "unat b mod M = (\<Sum>i<n. (n - i) * unat (data ! i)) mod M"
    using r(4,5) by (simp_all add: sums_eq e sum_list_nth weighted_nth add.assoc)
  then show ?thesis using r(1) final_fold [OF r(2)] final_fold [OF r(3)] by (simp add: fold_half_reduced(2))
qed

end

interpretation fl16: fletcher_sum fletcher16_loop 20 255
proof
  show "fletcher16_loop data pos n s =
      (if n = 0 then Inr s
       else let tlen = (if n > 20 then 20 else n) in
         bindE (sum_up data pos tlen s) (\<lambda>(sum1, sum2).
           fletcher16_loop data (pos + tlen) (n - tlen) (fold_half LENGTH(8) sum1, fold_half LENGTH(8) sum2)))"
    for data pos n s by (subst fletcher16_loop.simps) simp
qed simp_all

interpretation fl32: fletcher_sum fletcher32_loop 359 65535
proof
  show "fletcher32_loop data pos n s =
      (if n = 0 then Inr s
       else let tlen = (if n > 359 then 359 else n) in
         bindE (sum_up data pos tlen s) (\<lambda>(sum1, sum2).
           fletcher32_loop data (pos + tlen) (n - tlen) (fold_half LENGTH(16) sum1, fold_half LENGTH(16) sum2)))"
    for data pos n s by (subst fletcher32_loop.simps) simp
qed simp_all

lemma join_halves:
  fixes a b :: "'w::len word"
  assumes "2 * k = LENGTH('w)" and "unat a < 2 ^ k" and "unat b < 2 ^ k"
  shows "unat (push_bit k b OR a) mod 2 ^ k = unat a" and "unat (push_bit k b OR a) div 2 ^ k = unat b"
proof -
  have "unat b * 2 ^ k < 2 ^ k * 2 ^ k" using assms(3) by (intro mult_strict_right_mono) simp_all
  then have "push_bit k (unat b) < 2 ^ LENGTH('w)"
    by (simp add: push_bit_eq_mult mult_2 power_add flip: assms(1))
  then have u: "unat (push_bit k b OR a) = push_bit k (unat b) OR unat a"
    by (simp add: unsigned_or_eq unsigned_push_bit_eq take_bit_nat_eq_self)
  show "unat (push_bit k b OR a) mod 2 ^ k = unat a"
    using assms(2) by (simp add: u take_bit_push_bit take_bit_nat_eq_self flip: take_bit_eq_mod)
  show "unat (push_bit k b OR a) div 2 ^ k = unat b"
  proof -
    have "drop_bit k (unat a) = 0" "drop_bit k (push_bit k (unat b)) = unat b"
      using assms(2) by (simp_all add: drop_bit_eq_div push_bit_eq_mult)
    then show ?thesis by (simp add: u flip: drop_bit_eq_div)
  qed
qed

text \<open>
  C33: \<open>fletcher32\<close> computes Fletcher's checksum: on a buffer of at least \<open>n\<close> words it returns, the
  lower half of the result is between 1 and 65535 and congruent modulo 65535 to the sum of the
  words, and the upper half likewise to the sum of all partial sums (word \<open>i\<close> counted \<open>n - i\<close>
  times). In particular the sums over blocks of 359 words never overflow 32 bits.
\<close>

theorem fletcher32_checksum:
  assumes "n \<le> length data"
  shows "\<exists>w. fletcher32 data n = Inr w \<and>
    unat w mod 2 ^ 16 \<in> {1..65535} \<and> unat w div 2 ^ 16 \<in> {1..65535} \<and>
    (unat w mod 2 ^ 16) mod 65535 = (\<Sum>i<n. unat (data ! i)) mod 65535 \<and>
    (unat w div 2 ^ 16) mod 65535 = (\<Sum>i<n. (n - i) * unat (data ! i)) mod 65535"
proof -
  obtain a b where r: "fletcher32_loop data 0 n (0xffff, 0xffff) = Inr (a, b)"
      "unat (fold_half 16 a) \<in> {1..65535}" "unat (fold_half 16 b) \<in> {1..65535}"
      "unat (fold_half 16 a) mod 65535 = (\<Sum>i<n. unat (data ! i)) mod 65535"
      "unat (fold_half 16 b) mod 65535 = (\<Sum>i<n. (n - i) * unat (data ! i)) mod 65535"
    using fl32.checksum [of n data "0xffff", OF assms] by auto
  have "fletcher32 data n = Inr (push_bit 16 (fold_half 16 b) OR fold_half 16 a)"
    by (simp add: fletcher32_def r(1) Let_def)
  moreover note join_halves [of 16 "fold_half 16 a" "fold_half 16 b"]
  ultimately show ?thesis using r by simp
qed

theorem fletcher32_checksum_witness:
  "\<exists>w. fletcher32 [0x6162, 0x6364, 0x6566] 2 = Inr w \<and>
    unat w mod 2 ^ 16 \<in> {1..65535} \<and> unat w div 2 ^ 16 \<in> {1..65535} \<and>
    (unat w mod 2 ^ 16) mod 65535 = (\<Sum>i<2. unat ([0x6162, 0x6364, 0x6566 :: u16] ! i)) mod 65535 \<and>
    (unat w div 2 ^ 16) mod 65535 = (\<Sum>i<2. (2 - i) * unat ([0x6162, 0x6364, 0x6566 :: u16] ! i)) mod 65535"
  by (rule fletcher32_checksum) simp

lemma fletcher16_checksum:
  assumes "n \<le> length data"
  shows "\<exists>w. fletcher16 data n = Inr w \<and>
    unat w mod 2 ^ 8 \<in> {1..255} \<and> unat w div 2 ^ 8 \<in> {1..255} \<and>
    (unat w mod 2 ^ 8) mod 255 = (\<Sum>i<n. unat (data ! i)) mod 255 \<and>
    (unat w div 2 ^ 8) mod 255 = (\<Sum>i<n. (n - i) * unat (data ! i)) mod 255"
proof -
  obtain a b where r: "fletcher16_loop data 0 n (0xff, 0xff) = Inr (a, b)"
      "unat (fold_half 8 a) \<in> {1..255}" "unat (fold_half 8 b) \<in> {1..255}"
      "unat (fold_half 8 a) mod 255 = (\<Sum>i<n. unat (data ! i)) mod 255"
      "unat (fold_half 8 b) mod 255 = (\<Sum>i<n. (n - i) * unat (data ! i)) mod 255"
    using fl16.checksum [of n data "0xff", OF assms] by auto
  have "fletcher16 data n = Inr (push_bit 8 (fold_half 8 b) OR fold_half 8 a)"
    by (simp add: fletcher16_def r(1) Let_def)
  moreover note join_halves [of 8 "fold_half 8 a" "fold_half 8 b"]
  ultimately show ?thesis using r by simp
qed

end
