(* ===== verification/Base64.thy ===== *)
theory Base64
  imports Buffers
begin

text \<open>
  Base 64 encoding and decoding, \<open>sys/base64/base64.c\<close>. A pointer that may be \<open>NULL\<close> is an
  optional buffer; \<open>size_t\<close> has 64 bits; an \<open>int\<close> on which bit operations work is a word of 32 bits,
  and the two running indices into the output, which stay below \<open>2 ^ 31\<close> for the lengths of the
  theorems, are natural numbers.
\<close>

section \<open>The code\<close>














section \<open>The encoding of RFC 4648\<close>






section \<open>The encoder\<close>













section \<open>The decoder\<close>


















section \<open>Round trip\<close>









end
