(* ===== verification/Aes.thy ===== *)
theory Aes
  imports Aes_Tables Buffers
begin

text \<open>
  The block cipher of \<open>sys/crypto/aes.c\<close>: the table macros in both builds, the expansion of the
  key for encryption and decryption, and the encryption and decryption of one block, with the
  rounds in a loop or unrolled as the build says. The configuration of the build is a record;
  the contents of a local variable that C leaves uninitialised are an argument.
\<close>

unbundle bit_operations_syntax

section \<open>Configuration and data\<close>

record build =
  crypto_threedes :: bool
  crypto_aes :: bool
  crypto_aes_precalculated :: bool
  crypto_aes_unroll :: bool

definition CIPHERS_MAX_KEY_SIZE :: nat where
  "CIPHERS_MAX_KEY_SIZE = 20"

definition CIPHER_MAX_CONTEXT_SIZE :: "build \<Rightarrow> nat" where
  "CIPHER_MAX_CONTEXT_SIZE b =
     (if crypto_threedes b then 24 else if crypto_aes b then CIPHERS_MAX_KEY_SIZE else 1)"

definition CIPHER_ERR_INVALID_KEY_SIZE :: int where
  "CIPHER_ERR_INVALID_KEY_SIZE = - 3"

definition CIPHER_ERR_INVALID_LENGTH :: int where
  "CIPHER_ERR_INVALID_LENGTH = - 4"

definition CIPHER_ERR_ENC_FAILED :: int where
  "CIPHER_ERR_ENC_FAILED = - 5"

definition CIPHER_ERR_DEC_FAILED :: int where
  "CIPHER_ERR_DEC_FAILED = - 6"

definition CIPHER_ERR_BAD_CONTEXT_SIZE :: int where
  "CIPHER_ERR_BAD_CONTEXT_SIZE = 0"

definition CIPHER_INIT_SUCCESS :: int where
  "CIPHER_INIT_SUCCESS = 1"

definition AES_MAXNR :: nat where
  "AES_MAXNR = 14"

definition AES_BLOCK_SIZE :: nat where
  "AES_BLOCK_SIZE = 16"

definition AES_KEY_SIZE :: nat where
  "AES_KEY_SIZE = 16"

text \<open>The context of a cipher is its array of \<open>CIPHER_MAX_CONTEXT_SIZE\<close> bytes.\<close>

type_synonym cipher_context_t = "u8 list"

record aes_key_st =
  rd_key :: "u32 list"
  rounds :: int

text \<open>The array \<open>rd_key\<close> has \<open>4 * (AES_MAXNR + 1)\<close> elements.\<close>

definition aes_key_ok :: "aes_key_st \<Rightarrow> bool" where
  "aes_key_ok key \<longleftrightarrow> length (rd_key key) = 4 * (AES_MAXNR + 1)"

text \<open>Big endian words in an array of bytes.\<close>

definition GETU32 :: "u8 list \<Rightarrow> nat \<Rightarrow> fault + u32" where
  "GETU32 pt off =
     bindE (readE pt off) (\<lambda>b0.
     bindE (readE pt (off + 1)) (\<lambda>b1.
     bindE (readE pt (off + 2)) (\<lambda>b2.
     bindE (readE pt (off + 3)) (\<lambda>b3.
       Inr (push_bit 24 (ucast b0) XOR push_bit 16 (ucast b1) XOR push_bit 8 (ucast b2) XOR ucast b3)))))"

definition PUTU32 :: "u8 list \<Rightarrow> nat \<Rightarrow> u32 \<Rightarrow> fault + u8 list" where
  "PUTU32 ct off st =
     bindE (writeE ct off (ucast (drop_bit 24 st))) (\<lambda>ct.
     bindE (writeE ct (off + 1) (ucast (drop_bit 16 st))) (\<lambda>ct.
     bindE (writeE ct (off + 2) (ucast (drop_bit 8 st))) (\<lambda>ct.
       writeE ct (off + 3) (ucast st))))"

section \<open>The table macros\<close>

text \<open>
  The index of a table access is an unsigned word below 256: every use shifts by 24 or masks
  with \<open>0xff\<close>.
\<close>

definition Te0 :: "build \<Rightarrow> u32 \<Rightarrow> u32" where
  "Te0 b n = Te0_table ! unat n"

definition Te1 :: "build \<Rightarrow> u32 \<Rightarrow> u32" where
  "Te1 b n =
     (if crypto_aes_precalculated b then Te1_table ! unat n
      else drop_bit 8 (Te0_table ! unat n) OR push_bit 24 (Te0_table ! unat n))"

definition Te2 :: "build \<Rightarrow> u32 \<Rightarrow> u32" where
  "Te2 b n =
     (if crypto_aes_precalculated b then Te2_table ! unat n
      else drop_bit 16 (Te0_table ! unat n) OR push_bit 16 (Te0_table ! unat n))"

definition Te3 :: "build \<Rightarrow> u32 \<Rightarrow> u32" where
  "Te3 b n =
     (if crypto_aes_precalculated b then Te3_table ! unat n
      else drop_bit 24 (Te0_table ! unat n) OR push_bit 8 (Te0_table ! unat n))"

definition Te4 :: "build \<Rightarrow> u32 \<Rightarrow> u32" where
  "Te4 b n =
     (if crypto_aes_precalculated b then Te4_table ! unat n
      else drop_bit 8 (Te0_table ! unat n AND 0x00FFFF00) OR push_bit 8 (Te0_table ! unat n AND 0x00FFFF00))"

definition Td0 :: "build \<Rightarrow> u32 \<Rightarrow> u32" where
  "Td0 b n = Td0_table ! unat n"

definition Td1 :: "build \<Rightarrow> u32 \<Rightarrow> u32" where
  "Td1 b n =
     (if crypto_aes_precalculated b then Td1_table ! unat n
      else drop_bit 8 (Td0_table ! unat n) OR push_bit 24 (Td0_table ! unat n))"

definition Td2 :: "build \<Rightarrow> u32 \<Rightarrow> u32" where
  "Td2 b n =
     (if crypto_aes_precalculated b then Td2_table ! unat n
      else drop_bit 16 (Td0_table ! unat n) OR push_bit 16 (Td0_table ! unat n))"

definition Td3 :: "build \<Rightarrow> u32 \<Rightarrow> u32" where
  "Td3 b n =
     (if crypto_aes_precalculated b then Td3_table ! unat n
      else drop_bit 24 (Td0_table ! unat n) OR push_bit 8 (Td0_table ! unat n))"

definition Td4u :: "u32 \<Rightarrow> u32" where
  "Td4u n = ucast (Td4_bytes ! unat n)"

definition Td4 :: "build \<Rightarrow> u32 \<Rightarrow> u32" where
  "Td4 b n =
     (if crypto_aes_precalculated b then Td4_table ! unat n
      else Td4u n OR push_bit 8 (Td4u n) OR push_bit 16 (Td4u n) OR push_bit 24 (Td4u n))"

section \<open>Initialisation\<close>

text \<open>\<open>key[i % keySize]\<close> with \<open>keySize = 0\<close> is a remainder by zero.\<close>

definition aes_init ::
    "build \<Rightarrow> cipher_context_t \<Rightarrow> u8 list \<Rightarrow> u8 \<Rightarrow> fault + (int \<times> cipher_context_t)" where
  "aes_init b ctx key keySize =
     (if CIPHER_MAX_CONTEXT_SIZE b < AES_KEY_SIZE then Inr (CIPHER_ERR_BAD_CONTEXT_SIZE, ctx)
      else
        bindE
         (if unat keySize < CIPHERS_MAX_KEY_SIZE
          then foldE (\<lambda>i ctx.
                 if keySize = 0 then Inl DivByZero
                 else bindE (readE key (i mod unat keySize)) (writeE ctx i))
               [0..<CIPHERS_MAX_KEY_SIZE] ctx
          else foldE (\<lambda>i ctx. bindE (readE key i) (writeE ctx i)) [0..<CIPHERS_MAX_KEY_SIZE] ctx)
         (\<lambda>ctx. Inr (CIPHER_INIT_SUCCESS, ctx)))"

section \<open>Key expansion\<close>

text \<open>\<open>while (1) { first; if (++i == n) return; rest }\<close>\<close>

partial_function (option) until_count ::
    "nat \<Rightarrow> (nat \<Rightarrow> 's \<Rightarrow> 's) \<Rightarrow> (nat \<Rightarrow> 's \<Rightarrow> 's) \<Rightarrow> nat \<Rightarrow> 's \<Rightarrow> 's option" where
  "until_count n first rest i s =
     (let s = first i s in
      if Suc i = n then Some s else until_count n first rest (Suc i) (rest i s))"

text \<open>The word that starts the next group of the schedule: rotated, substituted and masked.\<close>

definition sub_rot :: "build \<Rightarrow> u32 \<Rightarrow> u32" where
  "sub_rot b temp =
     (Te4 b (drop_bit 16 temp AND 0xff) AND 0xff000000) XOR
     (Te4 b (drop_bit 8 temp AND 0xff) AND 0x00ff0000) XOR
     (Te4 b (temp AND 0xff) AND 0x0000ff00) XOR
     (Te4 b (drop_bit 24 temp) AND 0x000000ff)"

definition sub_word :: "build \<Rightarrow> u32 \<Rightarrow> u32" where
  "sub_word b temp =
     (Te4 b (drop_bit 24 temp) AND 0xff000000) XOR
     (Te4 b (drop_bit 16 temp AND 0xff) AND 0x00ff0000) XOR
     (Te4 b (drop_bit 8 temp AND 0xff) AND 0x0000ff00) XOR
     (Te4 b (temp AND 0xff) AND 0x000000ff)"

text \<open>\<open>rk[d] = rk[d - nk] ^ rk[d - 1]\<close>, for a key of \<open>nk\<close> words.\<close>

definition chain_word :: "nat \<Rightarrow> nat \<Rightarrow> u32 list \<Rightarrow> u32 list" where
  "chain_word nk d rk = rk[d := rk ! (d - nk) XOR rk ! (d - 1)]"

text \<open>The pointer \<open>rk\<close> is \<open>4 * i\<close>, \<open>6 * i\<close> or \<open>8 * i\<close> words into the array in round \<open>i\<close>.\<close>

definition expand_128 :: "build \<Rightarrow> nat \<Rightarrow> u32 list \<Rightarrow> u32 list" where
  "expand_128 b i rk =
     (let p = 4 * i; temp = rk ! (p + 3);
          rk = rk[p + 4 := rk ! p XOR sub_rot b temp XOR rcon ! i]
      in chain_word 4 (p + 7) (chain_word 4 (p + 6) (chain_word 4 (p + 5) rk)))"

definition expand_192 :: "build \<Rightarrow> nat \<Rightarrow> u32 list \<Rightarrow> u32 list" where
  "expand_192 b i rk =
     (let p = 6 * i; temp = rk ! (p + 5);
          rk = rk[p + 6 := rk ! p XOR sub_rot b temp XOR rcon ! i]
      in chain_word 6 (p + 9) (chain_word 6 (p + 8) (chain_word 6 (p + 7) rk)))"

definition expand_192_rest :: "nat \<Rightarrow> u32 list \<Rightarrow> u32 list" where
  "expand_192_rest i rk = (let p = 6 * i in chain_word 6 (p + 11) (chain_word 6 (p + 10) rk))"

definition expand_256 :: "build \<Rightarrow> nat \<Rightarrow> u32 list \<Rightarrow> u32 list" where
  "expand_256 b i rk =
     (let p = 8 * i; temp = rk ! (p + 7);
          rk = rk[p + 8 := rk ! p XOR sub_rot b temp XOR rcon ! i]
      in chain_word 8 (p + 11) (chain_word 8 (p + 10) (chain_word 8 (p + 9) rk)))"

definition expand_256_rest :: "build \<Rightarrow> nat \<Rightarrow> u32 list \<Rightarrow> u32 list" where
  "expand_256_rest b i rk =
     (let p = 8 * i; temp = rk ! (p + 11);
          rk = rk[p + 12 := rk ! (p + 4) XOR sub_word b temp]
      in chain_word 8 (p + 15) (chain_word 8 (p + 14) (chain_word 8 (p + 13) rk)))"

text \<open>Words \<open>from\<close> up to \<open>from + n - 1\<close> of the key are copied to the schedule.\<close>

definition load_key :: "u8 list \<Rightarrow> nat list \<Rightarrow> u32 list \<Rightarrow> fault + u32 list" where
  "load_key userKey ws rk = foldE (\<lambda>w rk. bindE (GETU32 userKey (4 * w)) (writeE rk w)) ws rk"

definition schedule :: "(u32 list) option \<Rightarrow> aes_key_st \<Rightarrow> fault + (int \<times> aes_key_st option)" where
  "schedule r key =
     (case r of None \<Rightarrow> Inl NoReturn | Some rk \<Rightarrow> Inr (0, Some (key\<lparr>rd_key := rk\<rparr>)))"

definition aes_set_encrypt_key ::
    "build \<Rightarrow> u8 list option \<Rightarrow> int \<Rightarrow> aes_key_st option \<Rightarrow> fault + (int \<times> aes_key_st option)" where
  "aes_set_encrypt_key b userKey bits key =
     (case (userKey, key) of
        (Some userKey, Some key) \<Rightarrow>
          if bits \<noteq> 128 \<and> bits \<noteq> 192 \<and> bits \<noteq> 256 then Inr (- 2, Some key)
          else
            let key = key\<lparr>rounds := if bits = 128 then 10 else if bits = 192 then 12 else 14\<rparr> in
            bindE (load_key userKey [0, 1, 2, 3] (rd_key key)) (\<lambda>rk.
            if bits = 128 then schedule (until_count 10 (expand_128 b) (\<lambda>i rk. rk) 0 rk) key
            else bindE (load_key userKey [4, 5] rk) (\<lambda>rk.
            if bits = 192 then schedule (until_count 8 (expand_192 b) expand_192_rest 0 rk) key
            else bindE (load_key userKey [6, 7] rk) (\<lambda>rk.
            schedule (until_count 7 (expand_256 b) (expand_256_rest b) 0 rk) key)))
      | _ \<Rightarrow> Inr (- 1, key))"

text \<open>The round keys in reverse order: two groups of four words change places.\<close>

definition swap_groups :: "nat \<Rightarrow> nat \<Rightarrow> u32 list \<Rightarrow> u32 list" where
  "swap_groups i j rk =
     fold (\<lambda>k rk. let temp = rk ! (i + k) in rk[i + k := rk ! (j + k), j + k := temp]) [0, 1, 2, 3] rk"

function reverse_keys :: "nat \<Rightarrow> nat \<Rightarrow> u32 list \<Rightarrow> u32 list" where
  "reverse_keys i j rk =
     (if i < j then reverse_keys (i + 4) (j - 4) (swap_groups i j rk) else rk)"
  by pat_completeness auto
termination by (relation "measure (\<lambda>(i, j, rk). j - i)") auto

definition inv_mix :: "build \<Rightarrow> u32 \<Rightarrow> u32" where
  "inv_mix b w =
     Td0 b (Te4 b (drop_bit 24 w) AND 0xff) XOR
     Td1 b (Te4 b (drop_bit 16 w AND 0xff) AND 0xff) XOR
     Td2 b (Te4 b (drop_bit 8 w AND 0xff) AND 0xff) XOR
     Td3 b (Te4 b (w AND 0xff) AND 0xff)"

definition inv_mix_unrolled :: "build \<Rightarrow> nat \<Rightarrow> u32 list \<Rightarrow> u32 list" where
  "inv_mix_unrolled b p rk =
     (let rk = rk[p := inv_mix b (rk ! p)];
          rk = rk[p + 1 := inv_mix b (rk ! (p + 1))];
          rk = rk[p + 2 := inv_mix b (rk ! (p + 2))]
      in rk[p + 3 := inv_mix b (rk ! (p + 3))])"

definition inv_mix_loop :: "build \<Rightarrow> nat \<Rightarrow> u32 list \<Rightarrow> u32 list" where
  "inv_mix_loop b p rk = fold (\<lambda>k rk. rk[p + k := inv_mix b (rk ! (p + k))]) [0..<4] rk"

definition aes_set_decrypt_key ::
    "build \<Rightarrow> u8 list option \<Rightarrow> int \<Rightarrow> aes_key_st option \<Rightarrow> fault + (int \<times> aes_key_st option)" where
  "aes_set_decrypt_key b userKey bits key =
     bindE (aes_set_encrypt_key b userKey bits key) (\<lambda>(status, key).
       if status < 0 then Inr (status, key)
       else case key of
         None \<Rightarrow> Inl NullDeref
       | Some key \<Rightarrow>
          let n = nat (rounds key);
              rk = reverse_keys 0 (4 * n) (rd_key key);
              mix = (if crypto_aes_unroll b then inv_mix_unrolled b else inv_mix_loop b);
              rk = fold (\<lambda>i. mix (4 * i)) [1..<n] rk
          in Inr (0, Some (key\<lparr>rd_key := rk\<rparr>)))"

section \<open>Rounds\<close>

text \<open>The state of the cipher: the variables \<open>s0\<close> to \<open>s3\<close>, or \<open>t0\<close> to \<open>t3\<close>.\<close>

type_synonym quad = "u32 \<times> u32 \<times> u32 \<times> u32"

definition key_group :: "u32 list \<Rightarrow> nat \<Rightarrow> quad" where
  "key_group rk p = (rk ! p, rk ! (p + 1), rk ! (p + 2), rk ! (p + 3))"

fun add_key :: "quad \<Rightarrow> quad \<Rightarrow> quad" where
  "add_key (s0, s1, s2, s3) (k0, k1, k2, k3) = (s0 XOR k0, s1 XOR k1, s2 XOR k2, s3 XOR k3)"

definition get_block :: "u8 list \<Rightarrow> nat \<Rightarrow> fault + quad" where
  "get_block pt off =
     bindE (GETU32 pt off) (\<lambda>w0.
     bindE (GETU32 pt (off + 4)) (\<lambda>w1.
     bindE (GETU32 pt (off + 8)) (\<lambda>w2.
     bindE (GETU32 pt (off + 12)) (\<lambda>w3. Inr (w0, w1, w2, w3)))))"

fun put_block :: "u8 list \<Rightarrow> nat \<Rightarrow> quad \<Rightarrow> fault + u8 list" where
  "put_block ct off (s0, s1, s2, s3) =
     bindE (PUTU32 ct off s0) (\<lambda>ct.
     bindE (PUTU32 ct (off + 4) s1) (\<lambda>ct.
     bindE (PUTU32 ct (off + 8) s2) (\<lambda>ct.
       PUTU32 ct (off + 12) s3)))"

fun encrypt_round :: "build \<Rightarrow> quad \<Rightarrow> quad \<Rightarrow> quad" where
  "encrypt_round b (s0, s1, s2, s3) (k0, k1, k2, k3) =
    (Te0 b (drop_bit 24 s0) XOR Te1 b (drop_bit 16 s1 AND 0xff) XOR Te2 b (drop_bit 8 s2 AND 0xff) XOR
       Te3 b (s3 AND 0xff) XOR k0,
     Te0 b (drop_bit 24 s1) XOR Te1 b (drop_bit 16 s2 AND 0xff) XOR Te2 b (drop_bit 8 s3 AND 0xff) XOR
       Te3 b (s0 AND 0xff) XOR k1,
     Te0 b (drop_bit 24 s2) XOR Te1 b (drop_bit 16 s3 AND 0xff) XOR Te2 b (drop_bit 8 s0 AND 0xff) XOR
       Te3 b (s1 AND 0xff) XOR k2,
     Te0 b (drop_bit 24 s3) XOR Te1 b (drop_bit 16 s0 AND 0xff) XOR Te2 b (drop_bit 8 s1 AND 0xff) XOR
       Te3 b (s2 AND 0xff) XOR k3)"

fun encrypt_last :: "build \<Rightarrow> quad \<Rightarrow> quad \<Rightarrow> quad" where
  "encrypt_last b (t0, t1, t2, t3) (k0, k1, k2, k3) =
    ((Te4 b (drop_bit 24 t0) AND 0xff000000) XOR (Te4 b (drop_bit 16 t1 AND 0xff) AND 0x00ff0000) XOR
       (Te4 b (drop_bit 8 t2 AND 0xff) AND 0x0000ff00) XOR (Te4 b (t3 AND 0xff) AND 0x000000ff) XOR k0,
     (Te4 b (drop_bit 24 t1) AND 0xff000000) XOR (Te4 b (drop_bit 16 t2 AND 0xff) AND 0x00ff0000) XOR
       (Te4 b (drop_bit 8 t3 AND 0xff) AND 0x0000ff00) XOR (Te4 b (t0 AND 0xff) AND 0x000000ff) XOR k1,
     (Te4 b (drop_bit 24 t2) AND 0xff000000) XOR (Te4 b (drop_bit 16 t3 AND 0xff) AND 0x00ff0000) XOR
       (Te4 b (drop_bit 8 t0 AND 0xff) AND 0x0000ff00) XOR (Te4 b (t1 AND 0xff) AND 0x000000ff) XOR k2,
     (Te4 b (drop_bit 24 t3) AND 0xff000000) XOR (Te4 b (drop_bit 16 t0 AND 0xff) AND 0x00ff0000) XOR
       (Te4 b (drop_bit 8 t1 AND 0xff) AND 0x0000ff00) XOR (Te4 b (t2 AND 0xff) AND 0x000000ff) XOR k3)"

fun decrypt_round :: "build \<Rightarrow> quad \<Rightarrow> quad \<Rightarrow> quad" where
  "decrypt_round b (s0, s1, s2, s3) (k0, k1, k2, k3) =
    (Td0 b (drop_bit 24 s0) XOR Td1 b (drop_bit 16 s3 AND 0xff) XOR Td2 b (drop_bit 8 s2 AND 0xff) XOR
       Td3 b (s1 AND 0xff) XOR k0,
     Td0 b (drop_bit 24 s1) XOR Td1 b (drop_bit 16 s0 AND 0xff) XOR Td2 b (drop_bit 8 s3 AND 0xff) XOR
       Td3 b (s2 AND 0xff) XOR k1,
     Td0 b (drop_bit 24 s2) XOR Td1 b (drop_bit 16 s1 AND 0xff) XOR Td2 b (drop_bit 8 s0 AND 0xff) XOR
       Td3 b (s3 AND 0xff) XOR k2,
     Td0 b (drop_bit 24 s3) XOR Td1 b (drop_bit 16 s2 AND 0xff) XOR Td2 b (drop_bit 8 s1 AND 0xff) XOR
       Td3 b (s0 AND 0xff) XOR k3)"

fun decrypt_last :: "build \<Rightarrow> quad \<Rightarrow> quad \<Rightarrow> quad" where
  "decrypt_last b (t0, t1, t2, t3) (k0, k1, k2, k3) =
    ((Td4 b (drop_bit 24 t0) AND 0xff000000) XOR (Td4 b (drop_bit 16 t3 AND 0xff) AND 0x00ff0000) XOR
       (Td4 b (drop_bit 8 t2 AND 0xff) AND 0x0000ff00) XOR (Td4 b (t1 AND 0xff) AND 0x000000ff) XOR k0,
     (Td4 b (drop_bit 24 t1) AND 0xff000000) XOR (Td4 b (drop_bit 16 t0 AND 0xff) AND 0x00ff0000) XOR
       (Td4 b (drop_bit 8 t3 AND 0xff) AND 0x0000ff00) XOR (Td4 b (t2 AND 0xff) AND 0x000000ff) XOR k1,
     (Td4 b (drop_bit 24 t2) AND 0xff000000) XOR (Td4 b (drop_bit 16 t1 AND 0xff) AND 0x00ff0000) XOR
       (Td4 b (drop_bit 8 t0 AND 0xff) AND 0x0000ff00) XOR (Td4 b (t3 AND 0xff) AND 0x000000ff) XOR k2,
     (Td4 b (drop_bit 24 t3) AND 0xff000000) XOR (Td4 b (drop_bit 16 t2 AND 0xff) AND 0x00ff0000) XOR
       (Td4 b (drop_bit 8 t1 AND 0xff) AND 0x0000ff00) XOR (Td4 b (t0 AND 0xff) AND 0x000000ff) XOR k3)"

text \<open>The loop does two rounds in a pass and leaves in the middle of the last one.\<close>

partial_function (option) encrypt_loop ::
    "build \<Rightarrow> u32 list \<Rightarrow> int \<Rightarrow> nat \<Rightarrow> quad \<Rightarrow> (quad \<times> nat) option" where
  "encrypt_loop b rk r p s =
     (let t = encrypt_round b s (key_group rk (p + 4)); p = p + 8; r = r - 1 in
      if r = 0 then Some (t, p)
      else encrypt_loop b rk r p (encrypt_round b t (key_group rk p)))"

partial_function (option) decrypt_loop ::
    "build \<Rightarrow> u32 list \<Rightarrow> int \<Rightarrow> nat \<Rightarrow> quad \<Rightarrow> (quad \<times> nat) option" where
  "decrypt_loop b rk r p s =
     (let t = decrypt_round b s (key_group rk (p + 4)); p = p + 8; r = r - 1 in
      if r = 0 then Some (t, p)
      else decrypt_loop b rk r p (decrypt_round b t (key_group rk p)))"

definition encrypt_unrolled :: "build \<Rightarrow> u32 list \<Rightarrow> int \<Rightarrow> quad \<Rightarrow> quad \<times> nat" where
  "encrypt_unrolled b rk n s =
     (let t = encrypt_round b s (key_group rk 4);
          s = encrypt_round b t (key_group rk 8);
          t = encrypt_round b s (key_group rk 12);
          s = encrypt_round b t (key_group rk 16);
          t = encrypt_round b s (key_group rk 20);
          s = encrypt_round b t (key_group rk 24);
          t = encrypt_round b s (key_group rk 28);
          s = encrypt_round b t (key_group rk 32);
          t = encrypt_round b s (key_group rk 36);
          t = (if n > 10 then
                 let s = encrypt_round b t (key_group rk 40);
                     t = encrypt_round b s (key_group rk 44)
                 in if n > 12 then
                      let s = encrypt_round b t (key_group rk 48)
                      in encrypt_round b s (key_group rk 52)
                    else t
               else t)
      in (t, nat n * 4))"

definition decrypt_unrolled :: "build \<Rightarrow> u32 list \<Rightarrow> int \<Rightarrow> quad \<Rightarrow> quad \<times> nat" where
  "decrypt_unrolled b rk n s =
     (let t = decrypt_round b s (key_group rk 4);
          s = decrypt_round b t (key_group rk 8);
          t = decrypt_round b s (key_group rk 12);
          s = decrypt_round b t (key_group rk 16);
          t = decrypt_round b s (key_group rk 20);
          s = decrypt_round b t (key_group rk 24);
          t = decrypt_round b s (key_group rk 28);
          s = decrypt_round b t (key_group rk 32);
          t = decrypt_round b s (key_group rk 36);
          t = (if n > 10 then
                 let s = decrypt_round b t (key_group rk 40);
                     t = decrypt_round b s (key_group rk 44)
                 in if n > 12 then
                      let s = decrypt_round b t (key_group rk 48)
                      in decrypt_round b s (key_group rk 52)
                    else t
               else t)
      in (t, nat n * 4))"

section \<open>One block\<close>

text \<open>
  \<open>encrypt_block\<close> and \<open>decrypt_block\<close> are the bodies after the key is expanded. The block is read
  completely before the output is written. \<open>aeskey\<close> is what the uninitialised local variable holds.
\<close>

definition encrypt_block ::
    "build \<Rightarrow> aes_key_st \<Rightarrow> u8 list \<Rightarrow> nat \<Rightarrow> u8 list \<Rightarrow> nat \<Rightarrow> fault + (int \<times> u8 list)" where
  "encrypt_block b key plain poff cipher coff =
     (let rk = rd_key key in
      bindE (get_block plain poff) (\<lambda>w.
      let s = add_key w (key_group rk 0) in
      case (if crypto_aes_unroll b then Some (encrypt_unrolled b rk (rounds key) s)
            else encrypt_loop b rk (rounds key div 2) 0 s) of
        None \<Rightarrow> Inl NoReturn
      | Some (t, p) \<Rightarrow>
          bindE (put_block cipher coff (encrypt_last b t (key_group rk p))) (\<lambda>cipher. Inr (1, cipher))))"

definition aes_encrypt ::
    "build \<Rightarrow> aes_key_st \<Rightarrow> cipher_context_t \<Rightarrow> u8 list \<Rightarrow> nat \<Rightarrow> u8 list \<Rightarrow> nat \<Rightarrow>
     fault + (int \<times> u8 list)" where
  "aes_encrypt b aeskey ctx plain poff cipher coff =
     bindE (aes_set_encrypt_key b (Some ctx) (int AES_KEY_SIZE * 8) (Some aeskey)) (\<lambda>(res, key).
       if res < 0 then Inr (res, cipher)
       else case key of
         None \<Rightarrow> Inl NullDeref
       | Some key \<Rightarrow> encrypt_block b key plain poff cipher coff)"

definition decrypt_block ::
    "build \<Rightarrow> aes_key_st \<Rightarrow> u8 list \<Rightarrow> nat \<Rightarrow> u8 list \<Rightarrow> nat \<Rightarrow> fault + (int \<times> u8 list)" where
  "decrypt_block b key cipher coff plain poff =
     (let rk = rd_key key in
      bindE (get_block cipher coff) (\<lambda>w.
      let s = add_key w (key_group rk 0) in
      case (if crypto_aes_unroll b then Some (decrypt_unrolled b rk (rounds key) s)
            else decrypt_loop b rk (rounds key div 2) 0 s) of
        None \<Rightarrow> Inl NoReturn
      | Some (t, p) \<Rightarrow>
          bindE (put_block plain poff (decrypt_last b t (key_group rk p))) (\<lambda>plain. Inr (1, plain))))"

definition aes_decrypt ::
    "build \<Rightarrow> aes_key_st \<Rightarrow> cipher_context_t \<Rightarrow> u8 list \<Rightarrow> nat \<Rightarrow> u8 list \<Rightarrow> nat \<Rightarrow>
     fault + (int \<times> u8 list)" where
  "aes_decrypt b aeskey ctx cipher coff plain poff =
     bindE (aes_set_decrypt_key b (Some ctx) (int AES_KEY_SIZE * 8) (Some aeskey)) (\<lambda>(res, key).
       if res < 0 then Inr (res, plain)
       else case key of
         None \<Rightarrow> Inl NullDeref
       | Some key \<Rightarrow> decrypt_block b key cipher coff plain poff)"

end
