(* ===== verification/Aes_Field.thy ===== *)
theory Aes_Field
  imports Aes
begin

text \<open>
  The arithmetic of bytes behind the tables of \<open>sys/crypto/aes.c\<close>. Bytes are polynomials over
  the field of two elements modulo \<open>x^8 + x^4 + x^3 + x + 1\<close>; a word is four bytes. Each table
  is computed here from the S-box of the standard FIPS-197 and its inverse, so that the table
  macros of both builds have one closed form.
\<close>

unbundle bit_operations_syntax

section \<open>Multiplication of bytes\<close>

definition xtime :: "u8 \<Rightarrow> u8" where
  "xtime x = push_bit 1 x XOR (if bit x 7 then 0x1b else 0)"

primrec gmul_steps :: "nat \<Rightarrow> u8 \<Rightarrow> u8 \<Rightarrow> u8" where
  "gmul_steps 0 c x = 0"
| "gmul_steps (Suc n) c x = (if odd c then x else 0) XOR gmul_steps n (c div 2) (xtime x)"

definition gmul :: "u8 \<Rightarrow> u8 \<Rightarrow> u8" where
  "gmul c x = gmul_steps 8 c x"

lemma gmul_steps_numeral [simp]:
  "gmul_steps (numeral k) c x =
     (if odd c then x else 0) XOR gmul_steps (pred_numeral k) (c div 2) (xtime x)"
  by (simp add: numeral_eq_Suc)

lemma xtime_xor: "xtime (x XOR y) = xtime x XOR xtime y"
  by (rule bit_word_eqI) (auto simp: xtime_def bit_simps)

lemma xtime_zero [simp]: "xtime 0 = 0"
  by (simp add: xtime_def)

lemma gmul_consts:
  "gmul 1 x = x"
  "gmul 2 x = xtime x"
  "gmul 3 x = x XOR xtime x"
  "gmul 0x9 x = x XOR xtime (xtime (xtime x))"
  "gmul 0xb x = x XOR xtime x XOR xtime (xtime (xtime x))"
  "gmul 0xd x = x XOR xtime (xtime x) XOR xtime (xtime (xtime x))"
  "gmul 0xe x = xtime x XOR xtime (xtime x) XOR xtime (xtime (xtime x))"
  by (simp_all add: gmul_def)

section \<open>Words of four bytes\<close>

definition w4 :: "u8 \<Rightarrow> u8 \<Rightarrow> u8 \<Rightarrow> u8 \<Rightarrow> u32" where
  "w4 a b c d = push_bit 24 (ucast a) XOR push_bit 16 (ucast b) XOR push_bit 8 (ucast c) XOR ucast d"

lemma bit_w4:
  "bit (w4 a b c d) n =
     (if n < 8 then bit d n else if n < 16 then bit c (n - 8)
      else if n < 24 then bit b (n - 16) else bit a (n - 24))"
  by (auto simp: w4_def bit_simps dest: bit_imp_le_length)

lemma and_0xff: "(w :: u32) AND 0xff = take_bit 8 w"
proof -
  have "(0xff :: u32) = mask 8" by (simp add: mask_eq_exp_minus_1)
  then show ?thesis by (simp only: take_bit_eq_mask)
qed

lemmas bit_w4_simps = bit_w4 bit_simps and_0xff

lemma w4_xor: "w4 a b c d XOR w4 a' b' c' d' = w4 (a XOR a') (b XOR b') (c XOR c') (d XOR d')"
  by (rule bit_word_eqI) (simp add: bit_w4 bit_xor_iff)

lemma w4_and: "w4 a b c d AND w4 a' b' c' d' = w4 (a AND a') (b AND b') (c AND c') (d AND d')"
  by (rule bit_word_eqI) (simp add: bit_w4 bit_and_iff)

lemma w4_surj: "\<exists>a b c d. w = w4 a b c d"
proof (intro exI)
  show "w = w4 (ucast (drop_bit 24 w)) (ucast (drop_bit 16 w)) (ucast (drop_bit 8 w)) (ucast w)"
    by (rule bit_word_eqI) (auto simp: bit_w4_simps)
qed

lemma w4_cases:
  obtains a b c d where "(w :: u32) = w4 a b c d"
  using w4_surj [of w] by blast

lemma w4_rotate:
  "drop_bit 8 (w4 a b c d) OR push_bit 24 (w4 a b c d) = w4 d a b c"
  "drop_bit 16 (w4 a b c d) OR push_bit 16 (w4 a b c d) = w4 c d a b"
  "drop_bit 24 (w4 a b c d) OR push_bit 8 (w4 a b c d) = w4 b c d a"
  by (rule bit_word_eqI; auto simp: bit_w4_simps dest: bit_imp_le_length)+

lemma w4_select:
  "drop_bit 24 (w4 a b c d) = ucast a"
  "drop_bit 16 (w4 a b c d) AND 0xff = ucast b"
  "drop_bit 8 (w4 a b c d) AND 0xff = ucast c"
  "w4 a b c d AND 0xff = ucast d"
  by (rule bit_word_eqI; auto simp: bit_w4_simps dest: bit_imp_le_length)+

lemma ucast_w4: "ucast d = w4 0 0 0 d"
  by (simp add: w4_def)

lemma w4_bytes:
  "ucast (drop_bit 24 (w4 a b c d)) = a"
  "ucast (drop_bit 16 (w4 a b c d)) = b"
  "ucast (drop_bit 8 (w4 a b c d)) = c"
  "ucast (w4 a b c d) = d"
  by (rule bit_word_eqI; auto simp: bit_w4_simps dest: bit_imp_le_length)+

lemma w4_eq_iff: "w4 a b c d = w4 a' b' c' d' \<longleftrightarrow> a = a' \<and> b = b' \<and> c = c' \<and> d = d'"
  by (metis w4_bytes)

lemma u8_and_0xff: "a AND 0xff = a" for a :: u8
proof -
  have "(0xff :: u8) = mask 8" by (simp add: mask_eq_exp_minus_1)
  then show ?thesis
    by (simp only: take_bit_eq_mask [symmetric]) (simp add: take_bit_word_eq_self)
qed

lemma w4_spread:
  "drop_bit 8 (w4 0 s s 0) OR push_bit 8 (w4 0 s s 0) = w4 s s s s"
  by (rule bit_word_eqI) (auto simp: bit_w4_simps dest: bit_imp_le_length)

lemma w4_repeat:
  "ucast s OR push_bit 8 (ucast s) OR push_bit 16 (ucast s) OR push_bit 24 (ucast s) = w4 s s s s"
  by (rule bit_word_eqI) (auto simp: bit_w4_simps dest: bit_imp_le_length)

lemma w4_mask:
  "w4 a b c d AND 0xff000000 = w4 a 0 0 0"
  "w4 a b c d AND 0x00ff0000 = w4 0 b 0 0"
  "w4 a b c d AND 0x0000ff00 = w4 0 0 c 0"
  "w4 a b c d AND 0x000000ff = w4 0 0 0 d"
proof -
  have m: "0xff000000 = w4 0xff 0 0 0" "0x00ff0000 = w4 0 0xff 0 0" "0x0000ff00 = w4 0 0 0xff 0"
    "0x000000ff = w4 0 0 0 0xff"
    by (simp_all add: w4_def)
  show "w4 a b c d AND 0xff000000 = w4 a 0 0 0"
    "w4 a b c d AND 0x00ff0000 = w4 0 b 0 0"
    "w4 a b c d AND 0x0000ff00 = w4 0 0 c 0"
    "w4 a b c d AND 0x000000ff = w4 0 0 0 d"
    unfolding m by (simp_all add: w4_and u8_and_0xff)
qed

section \<open>The S-box\<close>

text \<open>The substitution of FIPS-197, figure 7, and its inverse, which the code has as \<open>Td4\<close>.\<close>

definition sbox_table :: "u8 list" where
  "sbox_table = [
    0x63, 0x7c, 0x77, 0x7b, 0xf2, 0x6b, 0x6f, 0xc5, 0x30, 0x01, 0x67, 0x2b, 0xfe, 0xd7, 0xab, 0x76,
    0xca, 0x82, 0xc9, 0x7d, 0xfa, 0x59, 0x47, 0xf0, 0xad, 0xd4, 0xa2, 0xaf, 0x9c, 0xa4, 0x72, 0xc0,
    0xb7, 0xfd, 0x93, 0x26, 0x36, 0x3f, 0xf7, 0xcc, 0x34, 0xa5, 0xe5, 0xf1, 0x71, 0xd8, 0x31, 0x15,
    0x04, 0xc7, 0x23, 0xc3, 0x18, 0x96, 0x05, 0x9a, 0x07, 0x12, 0x80, 0xe2, 0xeb, 0x27, 0xb2, 0x75,
    0x09, 0x83, 0x2c, 0x1a, 0x1b, 0x6e, 0x5a, 0xa0, 0x52, 0x3b, 0xd6, 0xb3, 0x29, 0xe3, 0x2f, 0x84,
    0x53, 0xd1, 0x00, 0xed, 0x20, 0xfc, 0xb1, 0x5b, 0x6a, 0xcb, 0xbe, 0x39, 0x4a, 0x4c, 0x58, 0xcf,
    0xd0, 0xef, 0xaa, 0xfb, 0x43, 0x4d, 0x33, 0x85, 0x45, 0xf9, 0x02, 0x7f, 0x50, 0x3c, 0x9f, 0xa8,
    0x51, 0xa3, 0x40, 0x8f, 0x92, 0x9d, 0x38, 0xf5, 0xbc, 0xb6, 0xda, 0x21, 0x10, 0xff, 0xf3, 0xd2,
    0xcd, 0x0c, 0x13, 0xec, 0x5f, 0x97, 0x44, 0x17, 0xc4, 0xa7, 0x7e, 0x3d, 0x64, 0x5d, 0x19, 0x73,
    0x60, 0x81, 0x4f, 0xdc, 0x22, 0x2a, 0x90, 0x88, 0x46, 0xee, 0xb8, 0x14, 0xde, 0x5e, 0x0b, 0xdb,
    0xe0, 0x32, 0x3a, 0x0a, 0x49, 0x06, 0x24, 0x5c, 0xc2, 0xd3, 0xac, 0x62, 0x91, 0x95, 0xe4, 0x79,
    0xe7, 0xc8, 0x37, 0x6d, 0x8d, 0xd5, 0x4e, 0xa9, 0x6c, 0x56, 0xf4, 0xea, 0x65, 0x7a, 0xae, 0x08,
    0xba, 0x78, 0x25, 0x2e, 0x1c, 0xa6, 0xb4, 0xc6, 0xe8, 0xdd, 0x74, 0x1f, 0x4b, 0xbd, 0x8b, 0x8a,
    0x70, 0x3e, 0xb5, 0x66, 0x48, 0x03, 0xf6, 0x0e, 0x61, 0x35, 0x57, 0xb9, 0x86, 0xc1, 0x1d, 0x9e,
    0xe1, 0xf8, 0x98, 0x11, 0x69, 0xd9, 0x8e, 0x94, 0x9b, 0x1e, 0x87, 0xe9, 0xce, 0x55, 0x28, 0xdf,
    0x8c, 0xa1, 0x89, 0x0d, 0xbf, 0xe6, 0x42, 0x68, 0x41, 0x99, 0x2d, 0x0f, 0xb0, 0x54, 0xbb, 0x16]"

definition sbox :: "u8 \<Rightarrow> u8" where
  "sbox x = sbox_table ! unat x"

definition inv_sbox :: "u8 \<Rightarrow> u8" where
  "inv_sbox x = Td4_bytes ! unat x"

lemma length_sbox_table [simp]: "length sbox_table = 256"
  by (simp add: sbox_table_def)

lemma length_Td4_bytes [simp]: "length Td4_bytes = 256"
  by (simp add: Td4_bytes_def)

lemma unat_u8_less [simp]: "unat (x :: u8) < 256"
  using unsigned_less [of x] by simp

lemma Td4_bytes_sbox_table: "map (\<lambda>s. Td4_bytes ! unat s) sbox_table = map of_nat [0..<256]"
  unfolding Td4_bytes_def sbox_table_def by (simp add: upt_conv_Cons)

lemma inv_sbox_sbox [simp]: "inv_sbox (sbox x) = x"
  using arg_cong [OF Td4_bytes_sbox_table, of "\<lambda>xs. xs ! unat x"]
  by (simp add: inv_sbox_def sbox_def)

section \<open>The tables of words\<close>

lemma Te_tables:
  "Te0_table = map (\<lambda>s. let t = xtime s; u = s XOR t in w4 t s s u) sbox_table"
  "Te1_table = map (\<lambda>s. let t = xtime s; u = s XOR t in w4 u t s s) sbox_table"
  "Te2_table = map (\<lambda>s. let t = xtime s; u = s XOR t in w4 s u t s) sbox_table"
  "Te3_table = map (\<lambda>s. let t = xtime s; u = s XOR t in w4 s s u t) sbox_table"
  "Te4_table = map (\<lambda>s. w4 s s s s) sbox_table"
  unfolding Te0_table_def Te1_table_def Te2_table_def Te3_table_def Te4_table_def sbox_table_def
  by (simp_all add: w4_def xtime_def)

lemma Td_tables:
  "Td0_table = map (\<lambda>s. w4 (gmul 0xe s) (gmul 0x9 s) (gmul 0xd s) (gmul 0xb s)) Td4_bytes"
  "Td1_table = map (\<lambda>s. w4 (gmul 0xb s) (gmul 0xe s) (gmul 0x9 s) (gmul 0xd s)) Td4_bytes"
  "Td2_table = map (\<lambda>s. w4 (gmul 0xd s) (gmul 0xb s) (gmul 0xe s) (gmul 0x9 s)) Td4_bytes"
  "Td3_table = map (\<lambda>s. w4 (gmul 0x9 s) (gmul 0xd s) (gmul 0xb s) (gmul 0xe s)) Td4_bytes"
  "Td4_table = map (\<lambda>s. w4 s s s s) Td4_bytes"
proof -
  define f where "f = (\<lambda>s. let t = xtime s; u = xtime t; v = xtime u; p = s XOR v; q = t XOR p; r = u XOR p in
      (t XOR u XOR v, p, r, q))"
  have f: "f s = (gmul 0xe s, gmul 0x9 s, gmul 0xd s, gmul 0xb s)" for s
    by (simp add: f_def gmul_consts Let_def ac_simps)
  define l where "l = map f Td4_bytes"
  have l: "l = map (\<lambda>s. (gmul 0xe s, gmul 0x9 s, gmul 0xd s, gmul 0xb s)) Td4_bytes"
    by (simp add: l_def f)
  note c = l_def [unfolded Td4_bytes_def f_def list.map xtime_def, simplified]
  have "Td0_table = map (\<lambda>(e, n, d, b). w4 e n d b) l"
    unfolding Td0_table_def c by (simp add: w4_def)
  moreover have "Td1_table = map (\<lambda>(e, n, d, b). w4 b e n d) l"
    unfolding Td1_table_def c by (simp add: w4_def)
  moreover have "Td2_table = map (\<lambda>(e, n, d, b). w4 d b e n) l"
    unfolding Td2_table_def c by (simp add: w4_def)
  moreover have "Td3_table = map (\<lambda>(e, n, d, b). w4 n d b e) l"
    unfolding Td3_table_def c by (simp add: w4_def)
  moreover have "Td4_table = map (\<lambda>s. w4 s s s s) Td4_bytes"
    unfolding Td4_table_def Td4_bytes_def by (simp add: w4_def)
  ultimately show "Td0_table = map (\<lambda>s. w4 (gmul 0xe s) (gmul 0x9 s) (gmul 0xd s) (gmul 0xb s)) Td4_bytes"
    "Td1_table = map (\<lambda>s. w4 (gmul 0xb s) (gmul 0xe s) (gmul 0x9 s) (gmul 0xd s)) Td4_bytes"
    "Td2_table = map (\<lambda>s. w4 (gmul 0xd s) (gmul 0xb s) (gmul 0xe s) (gmul 0x9 s)) Td4_bytes"
    "Td3_table = map (\<lambda>s. w4 (gmul 0x9 s) (gmul 0xd s) (gmul 0xb s) (gmul 0xe s)) Td4_bytes"
    "Td4_table = map (\<lambda>s. w4 s s s s) Td4_bytes"
    by (simp_all add: l o_def)
qed

lemma rcon_nth:
  assumes "i < 10"
  shows "rcon ! i = w4 ((xtime ^^ i) 1) 0 0 0"
proof -
  have n: "(xtime ^^ numeral k) x = xtime ((xtime ^^ pred_numeral k) x)" for k x
    by (simp add: numeral_eq_Suc)
  have "rcon = map (\<lambda>i. w4 ((xtime ^^ i) 1) 0 0 0) [0..<10]"
    by (simp add: rcon_def w4_def xtime_def upt_conv_Cons n)
  then have "rcon ! i = map (\<lambda>i. w4 ((xtime ^^ i) 1) 0 0 0) [0..<10] ! i" by (rule arg_cong)
  then show ?thesis using assms by simp
qed

text \<open>The macros, in either build, at the value of a byte.\<close>

lemma unat_ucast_u8 [simp]: "unat (ucast (x :: u8) :: u32) = unat x"
proof -
  have "unat x < 2 ^ 32" by (rule less_trans [OF unat_u8_less]) simp
  then show ?thesis by (simp add: unsigned_ucast_eq take_bit_nat_eq_self)
qed

lemma Te0_nth: "Te0_table ! unat x = w4 (xtime (sbox x)) (sbox x) (sbox x) (sbox x XOR xtime (sbox x))" for x :: u8
  by (simp add: Te_tables sbox_def Let_def)

lemma Td0_nth:
  "Td0_table ! unat x = w4 (gmul 0xe (inv_sbox x)) (gmul 0x9 (inv_sbox x)) (gmul 0xd (inv_sbox x)) (gmul 0xb (inv_sbox x))"
  for x :: u8
  by (simp add: Td_tables inv_sbox_def)

lemma Te_byte:
  "Te0 b (ucast x) = w4 (gmul 2 (sbox x)) (sbox x) (sbox x) (gmul 3 (sbox x))"
  "Te1 b (ucast x) = w4 (gmul 3 (sbox x)) (gmul 2 (sbox x)) (sbox x) (sbox x)"
  "Te2 b (ucast x) = w4 (sbox x) (gmul 3 (sbox x)) (gmul 2 (sbox x)) (sbox x)"
  "Te3 b (ucast x) = w4 (sbox x) (sbox x) (gmul 3 (sbox x)) (gmul 2 (sbox x))"
  "Te4 b (ucast x) = w4 (sbox x) (sbox x) (sbox x) (sbox x)"
proof -
  have "drop_bit 8 (w4 c s s d AND 0x00FFFF00) OR push_bit 8 (w4 c s s d AND 0x00FFFF00) = w4 s s s s" for c s d
  proof -
    have m: "0x00FFFF00 = w4 0 0xff 0xff 0" by (simp add: w4_def)
    have "w4 c s s d AND 0x00FFFF00 = w4 0 s s 0" unfolding m by (simp add: w4_and u8_and_0xff)
    then show ?thesis by (simp add: w4_spread)
  qed
  then show "Te4 b (ucast x) = w4 (sbox x) (sbox x) (sbox x) (sbox x)"
    by (simp add: Te4_def Te0_nth) (simp add: Te_tables sbox_def)
qed (simp_all add: Te0_def Te1_def Te2_def Te3_def Te0_nth w4_rotate gmul_consts,
  simp_all add: Te_tables sbox_def Let_def)

lemma Td_byte:
  "Td0 b (ucast x) = w4 (gmul 0xe (inv_sbox x)) (gmul 0x9 (inv_sbox x)) (gmul 0xd (inv_sbox x)) (gmul 0xb (inv_sbox x))"
  "Td1 b (ucast x) = w4 (gmul 0xb (inv_sbox x)) (gmul 0xe (inv_sbox x)) (gmul 0x9 (inv_sbox x)) (gmul 0xd (inv_sbox x))"
  "Td2 b (ucast x) = w4 (gmul 0xd (inv_sbox x)) (gmul 0xb (inv_sbox x)) (gmul 0xe (inv_sbox x)) (gmul 0x9 (inv_sbox x))"
  "Td3 b (ucast x) = w4 (gmul 0x9 (inv_sbox x)) (gmul 0xd (inv_sbox x)) (gmul 0xb (inv_sbox x)) (gmul 0xe (inv_sbox x))"
  "Td4 b (ucast x) = w4 (inv_sbox x) (inv_sbox x) (inv_sbox x) (inv_sbox x)"
proof -
  show "Td4 b (ucast x) = w4 (inv_sbox x) (inv_sbox x) (inv_sbox x) (inv_sbox x)"
    by (simp add: Td4_def Td4u_def inv_sbox_def w4_repeat) (simp add: Td_tables)
qed (simp_all add: Td0_def Td1_def Td2_def Td3_def Td0_nth w4_rotate,
  simp_all add: Td_tables inv_sbox_def)

end
