(* ===== verification/Aes_Spec.thy ===== *)
theory Aes_Spec
  imports Aes_Field
begin

text \<open>
  The cipher of the standard FIPS-197 on lists of bytes, as the specification of
  \<open>sys/crypto/aes.c\<close>, and the proof that \<open>aes_set_encrypt_key\<close> computes the key schedule of the
  standard for all three key sizes.
\<close>

unbundle bit_operations_syntax

section \<open>The standard's cipher\<close>

definition sub_bytes :: "u8 list \<Rightarrow> u8 list" where
  "sub_bytes s = map sbox s"

text \<open>The state is stored by columns: byte \<open>r + 4 * c\<close> is in row \<open>r\<close> and column \<open>c\<close>.\<close>

definition shift_rows :: "u8 list \<Rightarrow> u8 list" where
  "shift_rows s = map (\<lambda>i. s ! (i mod 4 + 4 * ((i div 4 + i mod 4) mod 4))) [0..<16]"

fun mix_columns :: "u8 list \<Rightarrow> u8 list" where
  "mix_columns (a # b # c # d # s) =
     [gmul 2 a XOR gmul 3 b XOR c XOR d,
      a XOR gmul 2 b XOR gmul 3 c XOR d,
      a XOR b XOR gmul 2 c XOR gmul 3 d,
      gmul 3 a XOR b XOR c XOR gmul 2 d] @ mix_columns s"
| "mix_columns _ = []"

definition xor_bytes :: "u8 list \<Rightarrow> u8 list \<Rightarrow> u8 list" where
  "xor_bytes xs ys = map2 (XOR) xs ys"

text \<open>Word \<open>i\<close> of the key schedule for a key of \<open>nk\<close> words.\<close>

function key_word :: "nat \<Rightarrow> u8 list \<Rightarrow> nat \<Rightarrow> u8 list" where
  "key_word nk key i =
     (if i < nk \<or> nk = 0 then take 4 (drop (4 * i) key)
      else
        let temp = key_word nk key (i - 1);
            temp = (if i mod nk = 0
                    then xor_bytes (sub_bytes (rotate1 temp)) [(xtime ^^ (i div nk - 1)) 1, 0, 0, 0]
                    else if nk > 6 \<and> i mod nk = 4 then sub_bytes temp
                    else temp)
        in xor_bytes (key_word nk key (i - nk)) temp)"
  by pat_completeness auto
termination by (relation "measure (\<lambda>(nk, key, i). i)") auto

declare key_word.simps [simp del]

definition round_key :: "nat \<Rightarrow> u8 list \<Rightarrow> nat \<Rightarrow> u8 list" where
  "round_key nk key r = concat (map (key_word nk key) [4 * r..<4 * r + 4])"

definition fips_cipher :: "nat \<Rightarrow> nat \<Rightarrow> u8 list \<Rightarrow> u8 list \<Rightarrow> u8 list" where
  "fips_cipher nk nr key block =
     (let s = xor_bytes block (round_key nk key 0);
          s = fold (\<lambda>r s. xor_bytes (mix_columns (shift_rows (sub_bytes s))) (round_key nk key r)) [1..<nr] s
      in xor_bytes (shift_rows (sub_bytes s)) (round_key nk key nr))"

section \<open>Bytes of a word\<close>

definition bytes4 :: "u32 \<Rightarrow> u8 list" where
  "bytes4 w = [ucast (drop_bit 24 w), ucast (drop_bit 16 w), ucast (drop_bit 8 w), ucast w]"

lemma bytes4_w4 [simp]: "bytes4 (w4 a b c d) = [a, b, c, d]"
  by (simp add: bytes4_def w4_bytes)

lemma bytes4_xor: "bytes4 (v XOR w) = xor_bytes (bytes4 v) (bytes4 w)"
  by (cases v rule: w4_cases; cases w rule: w4_cases) (simp add: w4_xor xor_bytes_def)

lemma length_bytes4 [simp]: "length (bytes4 w) = 4"
  by (simp add: bytes4_def)

lemma xor_bytes_length [simp]: "length (xor_bytes xs ys) = min (length xs) (length ys)"
  by (simp add: xor_bytes_def)

lemma sub_bytes_length [simp]: "length (sub_bytes xs) = length xs"
  by (simp add: sub_bytes_def)

lemma take_drop_nth: "off + n \<le> length xs \<Longrightarrow> take n (drop off xs) = map (\<lambda>i. xs ! (off + i)) [0..<n]"
  by (rule nth_equalityI) auto

lemma GETU32_ok:
  assumes "off + 4 \<le> length pt"
  shows "\<exists>w. GETU32 pt off = Inr w \<and> bytes4 w = take 4 (drop off pt)"
proof (intro exI conjI)
  let ?w = "w4 (pt ! off) (pt ! (off + 1)) (pt ! (off + 2)) (pt ! (off + 3))"
  show "GETU32 pt off = Inr ?w"
    using assms by (simp add: GETU32_def w4_def)
  show "bytes4 ?w = take 4 (drop off pt)"
    using assms by (simp add: take_drop_nth upt_conv_Cons numeral_3_eq_3)
qed

lemma four_elements: "4 \<le> length xs \<Longrightarrow> \<exists>a b c d vs. xs = a # b # c # d # vs"
  by (auto simp: eval_nat_numeral Suc_le_length_iff)

lemma PUTU32_ok:
  assumes "off + 4 \<le> length ct"
  shows "PUTU32 ct off w = Inr (take off ct @ bytes4 w @ drop (off + 4) ct)"
proof -
  have "4 \<le> length (drop off ct)" using assms by simp
  then obtain a b c d vs where "drop off ct = a # b # c # d # vs"
    using four_elements by blast
  then have ct: "ct = take off ct @ a # b # c # d # vs" and "drop 4 (drop off ct) = vs"
    by (metis append_take_drop_id, simp)
  then have vs: "drop (off + 4) ct = vs" by (simp add: add.commute)
  have l: "length (take off ct) = off" using assms by simp
  show ?thesis
    unfolding vs using assms
    by (subst ct) (simp add: PUTU32_def writeE_def l list_update_append bytes4_def)
qed

section \<open>The key schedule\<close>

lemma until_count_fold:
  assumes "i < n"
  shows "until_count n f g i s = Some (f (n - 1) (fold (\<lambda>i s. g i (f i s)) [i..<n - 1] s))"
  using assms
proof (induction "n - i" arbitrary: i s)
  case 0
  then show ?case by simp
next
  case (Suc m)
  show ?case
  proof (cases "Suc i = n")
    case True
    then show ?thesis by (subst until_count.simps) auto
  next
    case False
    then have "Suc i < n" using Suc.prems by simp
    then have "[i..<n - 1] = i # [Suc i..<n - 1]" by (simp add: upt_conv_Cons)
    then show ?thesis
      using Suc.hyps(1) [of "Suc i" "g i (f i s)"] Suc.hyps(2) \<open>Suc i < n\<close>
      by (subst until_count.simps) (auto simp: Let_def)
  qed
qed

lemma sub_rot_bytes: "bytes4 (sub_rot b w) = sub_bytes (rotate1 (bytes4 w))"
  by (cases w rule: w4_cases) (simp add: sub_rot_def w4_select Te_byte w4_mask(1-3),
      simp add: ucast_w4 w4_xor sub_bytes_def)

lemma sub_word_bytes: "bytes4 (sub_word b w) = sub_bytes (bytes4 w)"
  by (cases w rule: w4_cases) (simp add: sub_word_def w4_select Te_byte w4_mask(1-3),
      simp add: ucast_w4 w4_xor sub_bytes_def)

text \<open>The first \<open>m\<close> words of the schedule are computed.\<close>

definition scheduled :: "nat \<Rightarrow> u8 list \<Rightarrow> nat \<Rightarrow> u32 list \<Rightarrow> bool" where
  "scheduled nk key m rk \<longleftrightarrow>
     length rk = 4 * (AES_MAXNR + 1) \<and> (\<forall>w<m. bytes4 (rk ! w) = key_word nk key w)"

lemma scheduled_word:
  "scheduled nk key m rk \<Longrightarrow> w < m \<Longrightarrow> bytes4 (rk ! w) = key_word nk key w"
  by (simp add: scheduled_def)

lemma scheduled_set:
  "scheduled nk key m rk \<Longrightarrow> m < 60 \<Longrightarrow> bytes4 v = key_word nk key m \<Longrightarrow>
    scheduled nk key (Suc m) (rk[m := v])"
  by (auto simp: scheduled_def less_Suc_eq AES_MAXNR_def)

text \<open>The three ways in which the next word is computed.\<close>

lemma scheduled_first:
  assumes "scheduled nk key m rk" and "n = Suc m" and "m < 60" and "m = p + nk" and "m = Suc q"
    and "0 < nk" and "m mod nk = 0" and "m div nk = Suc i" and "i < 10"
  shows "scheduled nk key n (rk[m := rk ! p XOR sub_rot b (rk ! q) XOR rcon ! i])"
proof -
  have i: "m - nk = p" "m - 1 = q" "p < m" "q < m" "\<not> (m < nk \<or> nk = 0)" using assms by auto
  have "bytes4 (rk ! p XOR sub_rot b (rk ! q) XOR rcon ! i) = key_word nk key m"
    unfolding key_word.simps [of nk key m] i(1,2) using i(3-) assms(7-9)
    by (simp add: bytes4_xor sub_rot_bytes scheduled_word [OF assms(1)] rcon_nth)
  then show ?thesis unfolding assms(2) by (rule scheduled_set [OF assms(1,3)])
qed

lemma scheduled_chain:
  assumes "scheduled nk key m rk" and "n = Suc m" and "m < 60" and "0 < nk" and "nk \<le> m"
    and "m mod nk \<noteq> 0" and "nk \<le> 6 \<or> m mod nk \<noteq> 4"
  shows "scheduled nk key n (chain_word nk m rk)"
proof -
  have "bytes4 (rk ! (m - nk) XOR rk ! (m - 1)) = key_word nk key m"
    using assms by (subst key_word.simps) (auto simp: bytes4_xor scheduled_word [OF assms(1)])
  then show ?thesis unfolding assms(2) chain_word_def by (rule scheduled_set [OF assms(1,3)])
qed

lemma scheduled_middle:
  assumes "scheduled nk key m rk" and "n = Suc m" and "m < 60" and "m = p + nk" and "m = Suc q"
    and "6 < nk" and "m mod nk = 4"
  shows "scheduled nk key n (rk[m := rk ! p XOR sub_word b (rk ! q)])"
proof -
  have i: "m - nk = p" "m - 1 = q" "p < m" "q < m" "\<not> (m < nk \<or> nk = 0)" using assms by auto
  have "bytes4 (rk ! p XOR sub_word b (rk ! q)) = key_word nk key m"
    unfolding key_word.simps [of nk key m] i(1,2) using i(3-) assms(6,7)
    by (simp add: bytes4_xor sub_word_bytes scheduled_word [OF assms(1)])
  then show ?thesis unfolding assms(2) by (rule scheduled_set [OF assms(1,3)])
qed

lemma expand_128_ok:
  assumes "scheduled 4 key (4 * i + 4) rk" and "i < 10"
  shows "scheduled 4 key (4 * i + 8) (expand_128 b i rk)"
  unfolding expand_128_def Let_def
  by (intro scheduled_chain scheduled_first) (use assms in \<open>assumption | presburger\<close>)+

lemma expand_192_ok:
  assumes "scheduled 6 key (6 * i + 6) rk" and "i < 8"
  shows "scheduled 6 key (6 * i + 10) (expand_192 b i rk)"
  unfolding expand_192_def Let_def
  by (intro scheduled_chain scheduled_first) (use assms in \<open>assumption | presburger\<close>)+

lemma expand_192_rest_ok:
  assumes "scheduled 6 key (6 * i + 10) rk" and "i < 7"
  shows "scheduled 6 key (6 * i + 12) (expand_192_rest i rk)"
  unfolding expand_192_rest_def Let_def
  by (intro scheduled_chain) (use assms in \<open>assumption | presburger\<close>)+

lemma expand_256_ok:
  assumes "scheduled 8 key (8 * i + 8) rk" and "i < 7"
  shows "scheduled 8 key (8 * i + 12) (expand_256 b i rk)"
  unfolding expand_256_def Let_def
  by (intro scheduled_chain scheduled_first) (use assms in \<open>assumption | presburger\<close>)+

lemma expand_256_rest_ok:
  assumes "scheduled 8 key (8 * i + 12) rk" and "i < 6"
  shows "scheduled 8 key (8 * i + 16) (expand_256_rest b i rk)"
  unfolding expand_256_rest_def Let_def
  by (intro scheduled_chain scheduled_middle) (use assms in \<open>assumption | presburger\<close>)+

text \<open>The loop over the groups, for a group of \<open>nk\<close> words of which the last one has only \<open>4\<close>.\<close>

lemma expand_loop_ok:
  assumes start: "scheduled nk key nk rk" and "0 < n"
    and f: "\<And>i rk. i < n \<Longrightarrow> scheduled nk key (nk * i + nk) rk \<Longrightarrow> scheduled nk key (nk * i + nk + 4) (f i rk)"
    and g: "\<And>i rk. i < n - 1 \<Longrightarrow> scheduled nk key (nk * i + nk + 4) rk \<Longrightarrow>
      scheduled nk key (nk * i + 2 * nk) (g i rk)"
  shows "\<exists>rk'. until_count n f g 0 rk = Some rk' \<and> scheduled nk key (nk * (n - 1) + nk + 4) rk'"
proof -
  have "m \<le> n - 1 \<Longrightarrow> scheduled nk key (nk * m + nk) (fold (\<lambda>i s. g i (f i s)) [0..<m] rk)" for m
  proof (induction m)
    case 0
    show ?case using start by simp
  next
    case (Suc m)
    have e: "nk * Suc m + nk = nk * m + 2 * nk" by simp
    show ?case unfolding e using Suc f [of m] g [of m] by simp
  qed
  from f [OF _ this [of "n - 1"]] show ?thesis
    using \<open>0 < n\<close> by (simp add: until_count_fold)
qed

text \<open>Loading the key.\<close>

lemma load_key_ok:
  assumes "scheduled nk key m rk" and "4 * nk \<le> length key" and "m \<le> n" and "n \<le> nk" and "nk \<le> 8"
  shows "\<exists>rk'. load_key key [m..<n] rk = Inr rk' \<and> scheduled nk key n rk'"
  using assms(3,1)
proof (induction n arbitrary: rk rule: dec_induct)
  case base
  then show ?case by (simp add: load_key_def)
next
  case (step k)
  obtain rk' where rk': "load_key key [m..<k] rk = Inr rk'" "scheduled nk key k rk'"
    using step by blast
  have k: "k < nk" using step(2) assms(4) by simp
  then obtain w where w: "GETU32 key (4 * k) = Inr w" "bytes4 w = key_word nk key k"
    using GETU32_ok [of "4 * k" key] assms(2) by (auto simp: key_word.simps [of nk key k])
  have "k < 60" using k assms(5) by simp
  then have "scheduled nk key (Suc k) (rk'[k := w])" using rk'(2) w(2) by (intro scheduled_set)
  moreover have "k < length rk'" using rk'(2) \<open>k < 60\<close> by (simp add: scheduled_def AES_MAXNR_def)
  ultimately show ?case
    using rk'(1) w(1) step(1) by (simp add: load_key_def foldE_append)
qed

lemma aes_set_encrypt_key_schedule:
  assumes "aes_key_ok k" and "nk \<in> {4, 6, 8}" and "4 * nk \<le> length key"
  shows "\<exists>rk. aes_set_encrypt_key b (Some key) (32 * int nk) (Some k) =
      Inr (0, Some (k\<lparr>rounds := int nk + 6, rd_key := rk\<rparr>)) \<and>
    scheduled nk key (4 * (nk + 7)) rk"
proof -
  have s0: "scheduled nk key 0 (rd_key k)"
    using assms(1) by (simp add: scheduled_def aes_key_ok_def)
  have 4: "[0, 1, 2, 3 :: nat] = [0..<4]" and 6: "[4, 5 :: nat] = [4..<6]" and 8: "[6, 7 :: nat] = [6..<8]"
    by (simp_all add: upt_conv_Cons)
  obtain rk4 where rk4: "load_key key [0, 1, 2, 3] (rd_key k) = Inr rk4" "scheduled nk key 4 rk4"
    using load_key_ok [OF s0 assms(3), of 4] assms(2) unfolding 4 by auto
  consider "nk = 4" | "nk = 6" | "nk = 8" using assms(2) by blast
  then show ?thesis
  proof cases
    case 1
    obtain rk where "until_count 10 (expand_128 b) (\<lambda>i rk. rk) 0 rk4 = Some rk" "scheduled 4 key 44 rk"
      using expand_loop_ok [of 4 key rk4 10 "expand_128 b" "\<lambda>i rk. rk"] expand_128_ok [of key _ _ b] rk4(2) 1
      by (auto simp: add.assoc)
    then show ?thesis using rk4(1) 1 by (auto simp: aes_set_encrypt_key_def schedule_def)
  next
    case 2
    obtain rk6 where rk6: "load_key key [4, 5] rk4 = Inr rk6" "scheduled nk key 6 rk6"
      using load_key_ok [OF rk4(2) assms(3), of 6] 2 unfolding 6 by auto
    obtain rk where "until_count 8 (expand_192 b) expand_192_rest 0 rk6 = Some rk" "scheduled 6 key 52 rk"
      using expand_loop_ok [of 6 key rk6 8 "expand_192 b" "expand_192_rest"]
        expand_192_ok [of key _ _ b] expand_192_rest_ok [of key] rk6(2) 2
      by (auto simp: add.assoc)
    then show ?thesis using rk4(1) rk6(1) 2 by (auto simp: aes_set_encrypt_key_def schedule_def)
  next
    case 3
    obtain rk6 where rk6: "load_key key [4, 5] rk4 = Inr rk6" "scheduled nk key 6 rk6"
      using load_key_ok [OF rk4(2) assms(3), of 6] 3 unfolding 6 by auto
    obtain rk8 where rk8: "load_key key [6, 7] rk6 = Inr rk8" "scheduled nk key 8 rk8"
      using load_key_ok [OF rk6(2) assms(3), of 8] 3 unfolding 8 by auto
    obtain rk where "until_count 7 (expand_256 b) (expand_256_rest b) 0 rk8 = Some rk" "scheduled 8 key 60 rk"
      using expand_loop_ok [of 8 key rk8 7 "expand_256 b" "expand_256_rest b"]
        expand_256_ok [of key _ _ b] expand_256_rest_ok [of key _ _ b] rk8(2) 3
      by (auto simp: add.assoc)
    then show ?thesis using rk4(1) rk6(1) rk8(1) 3 by (auto simp: aes_set_encrypt_key_def schedule_def)
  qed
qed

text \<open> C10: \<open>aes_set_encrypt_key\<close> computes the key schedule of FIPS-197 for keys of 128, 192 and 256
  bits, in both builds and whatever the key structure held before: it returns \<open>0\<close>, sets the number
  of rounds to 10, 12 or 14, stays inside the arrays, and word \<open>w\<close> of the schedule is the word the
  standard defines.\<close>

theorem aes_set_encrypt_key_fips:
  assumes "aes_key_ok k" and "nk \<in> {4, 6, 8}" and "4 * nk \<le> length key"
  shows "\<exists>k'. aes_set_encrypt_key b (Some key) (32 * int nk) (Some k) = Inr (0, Some k') \<and>
    aes_key_ok k' \<and> rounds k' = int nk + 6 \<and>
    (\<forall>w < 4 * (nk + 7). bytes4 (rd_key k' ! w) = key_word nk key w)"
  using aes_set_encrypt_key_schedule [OF assms, of b] by (auto simp: scheduled_def aes_key_ok_def)

theorem aes_set_encrypt_key_fips_witness:
  "\<exists>k'. aes_set_encrypt_key \<lparr>crypto_threedes = False, crypto_aes = True, crypto_aes_precalculated = False,
       crypto_aes_unroll = False\<rparr> (Some (replicate 24 0)) 192 (Some \<lparr>rd_key = replicate 60 7, rounds = 99\<rparr>) =
      Inr (0, Some k') \<and> rounds k' = 12 \<and> bytes4 (rd_key k' ! 51) = key_word 6 (replicate 24 0) 51"
  using aes_set_encrypt_key_fips [of "\<lparr>rd_key = replicate 60 7, rounds = 99\<rparr>" 6 "replicate 24 0"
    "\<lparr>crypto_threedes = False, crypto_aes = True, crypto_aes_precalculated = False, crypto_aes_unroll = False\<rparr>"]
  by (fastforce simp: aes_key_ok_def AES_MAXNR_def)

end
