(* ===== verification/Aes_Correct.thy ===== *)
theory Aes_Correct
  imports Aes_Spec
begin

text \<open>
  Correctness of \<open>aes_encrypt\<close> and \<open>aes_decrypt\<close>: in every build the encryption of a block is the
  cipher of FIPS-197, and decryption is its inverse.
\<close>

unbundle bit_operations_syntax

section \<open>Blocks in buffers\<close>

fun bytes16 :: "quad \<Rightarrow> u8 list" where
  "bytes16 (s0, s1, s2, s3) = bytes4 s0 @ bytes4 s1 @ bytes4 s2 @ bytes4 s3"

lemma length_bytes16 [simp]: "length (bytes16 q) = 16"
  by (cases q) simp

lemma bytes4_inj: "bytes4 v = bytes4 w \<Longrightarrow> v = w"
  by (cases v rule: w4_cases; cases w rule: w4_cases) simp

lemma bytes16_inj: "bytes16 q = bytes16 r \<Longrightarrow> q = r"
  by (cases q; cases r) (auto dest: bytes4_inj)

lemma take_split: "take (m + n) (drop off xs) = take m (drop off xs) @ take n (drop (off + m) xs)"
  by (simp add: take_add add.commute)

lemma get_block_ok:
  assumes "off + 16 \<le> length pt"
  shows "\<exists>q. get_block pt off = Inr q \<and> bytes16 q = take 16 (drop off pt)"
proof -
  have *: "\<exists>w. GETU32 pt (off + i) = Inr w \<and> bytes4 w = take 4 (drop (off + i) pt)" if "i \<le> 12" for i
    using that assms by (intro GETU32_ok) simp
  obtain w0 w1 w2 w3 where
    "GETU32 pt off = Inr w0" "bytes4 w0 = take 4 (drop off pt)"
    "GETU32 pt (off + 4) = Inr w1" "bytes4 w1 = take 4 (drop (off + 4) pt)"
    "GETU32 pt (off + 8) = Inr w2" "bytes4 w2 = take 4 (drop (off + 8) pt)"
    "GETU32 pt (off + 12) = Inr w3" "bytes4 w3 = take 4 (drop (off + 12) pt)"
    using * [of 0] * [of 4] * [of 8] * [of 12] by auto
  moreover have "take 16 (drop off pt) = take 4 (drop off pt) @ take 4 (drop (off + 4) pt) @
      take 4 (drop (off + 8) pt) @ take 4 (drop (off + 12) pt)"
    using take_split [of 4 12 off pt] take_split [of 4 8 "off + 4" pt] take_split [of 4 4 "off + 8" pt]
    by (simp add: add.commute)
  ultimately show ?thesis by (auto simp: get_block_def)
qed

lemma put_block_ok:
  assumes "off + 16 \<le> length ct"
  shows "put_block ct off q = Inr (take off ct @ bytes16 q @ drop (off + 16) ct)"
proof (cases q)
  case (fields s0 s1 s2 s3)
  then show ?thesis using assms by (simp add: PUTU32_ok add.commute)
qed

section \<open>Rounds on bytes\<close>

lemma encrypt_round_bytes:
  "bytes16 (encrypt_round b s k) = xor_bytes (mix_columns (shift_rows (sub_bytes (bytes16 s)))) (bytes16 k)"
proof -
  obtain s0 s1 s2 s3 k0 k1 k2 k3 where q: "s = (s0, s1, s2, s3)" "k = (k0, k1, k2, k3)"
    by (metis prod_cases4)
  show ?thesis unfolding q
    by (cases s0 rule: w4_cases; cases s1 rule: w4_cases; cases s2 rule: w4_cases; cases s3 rule: w4_cases;
        cases k0 rule: w4_cases; cases k1 rule: w4_cases; cases k2 rule: w4_cases; cases k3 rule: w4_cases)
      (simp add: w4_select Te_byte w4_xor sub_bytes_def shift_rows_def xor_bytes_def upt_conv_Cons,
       simp add: ac_simps)
qed

lemma encrypt_last_bytes:
  "bytes16 (encrypt_last b s k) = xor_bytes (shift_rows (sub_bytes (bytes16 s))) (bytes16 k)"
proof -
  obtain s0 s1 s2 s3 k0 k1 k2 k3 where q: "s = (s0, s1, s2, s3)" "k = (k0, k1, k2, k3)"
    by (metis prod_cases4)
  show ?thesis unfolding q
    by (cases s0 rule: w4_cases; cases s1 rule: w4_cases; cases s2 rule: w4_cases; cases s3 rule: w4_cases;
        cases k0 rule: w4_cases; cases k1 rule: w4_cases; cases k2 rule: w4_cases; cases k3 rule: w4_cases)
      (simp add: w4_select Te_byte w4_mask(1-3) sub_bytes_def shift_rows_def xor_bytes_def upt_conv_Cons,
       simp add: ucast_w4 w4_xor)
qed

lemma add_key_bytes: "bytes16 (add_key s k) = xor_bytes (bytes16 s) (bytes16 k)"
  by (cases s; cases k) (simp add: bytes4_xor xor_bytes_def)

section \<open>Both forms of the rounds\<close>

text \<open>The loop with two rounds in a pass, for encryption and decryption alike.\<close>

lemma two_round_loop:
  assumes L: "\<And>r p s. L r p s =
      (if r - 1 = (0 :: int) then Some (f s (key_group rk (p + 4)), p + 8)
       else L (r - 1) (p + 8) (f (f s (key_group rk (p + 4))) (key_group rk (p + 8))))"
    and "0 < n"
  shows "L (int n) p s = Some (fold (\<lambda>i s. f s (key_group rk (p + 4 * i))) [1..<2 * n] s, p + 8 * n)"
  using assms(2)
proof (induction n arbitrary: p s rule: nat_induct_non_zero)
  case 1
  show ?case by (subst L) (simp add: upt_conv_Cons)
next
  case (Suc n)
  have "map (\<lambda>i. i + k) [a..<c] = [a + k..<c + k]" for k a c :: nat
    by (rule nth_equalityI) auto
  from this [of 2 1 "2 * n"] Suc.hyps have u: "[1..<2 * Suc n] = 1 # 2 # map (\<lambda>i. i + 2) [1..<2 * n]"
    by (simp add: upt_conv_Cons eval_nat_numeral del: upt_Suc)
  have "L (int (Suc n)) p s = L (int n) (p + 8) (f (f s (key_group rk (p + 4))) (key_group rk (p + 8)))"
    using Suc.hyps by (subst L) simp
  also have "\<dots> = Some (fold (\<lambda>i s. f s (key_group rk (p + 4 * i))) [1..<2 * Suc n] s, p + 8 * Suc n)"
    unfolding Suc.IH u by (simp add: fold_map o_def algebra_simps)
  finally show ?case .
qed

lemma encrypt_rounds:
  assumes "n \<in> {10, 12, 14}"
  shows "(if crypto_aes_unroll b then Some (encrypt_unrolled b rk (int n) s)
      else encrypt_loop b rk (int n div 2) 0 s) =
    Some (fold (\<lambda>i s. encrypt_round b s (key_group rk (4 * i))) [1..<n] s, 4 * n)"
proof (cases "crypto_aes_unroll b")
  case True
  then show ?thesis using assms by (auto simp: encrypt_unrolled_def Let_def upt_conv_Cons)
next
  case False
  have n: "int n div 2 = int (n div 2)" "0 < n div 2" "2 * (n div 2) = n" "8 * (n div 2) = 4 * n"
    using assms by auto
  have "encrypt_loop b rk (int (n div 2)) 0 s =
      Some (fold (\<lambda>i s. encrypt_round b s (key_group rk (0 + 4 * i))) [1..<2 * (n div 2)] s, 0 + 8 * (n div 2))"
    by (rule two_round_loop [OF _ n(2)]) (subst encrypt_loop.simps, simp add: Let_def)
  then show ?thesis using False by (simp add: n(1,3,4))
qed

lemma decrypt_rounds:
  assumes "n \<in> {10, 12, 14}"
  shows "(if crypto_aes_unroll b then Some (decrypt_unrolled b rk (int n) s)
      else decrypt_loop b rk (int n div 2) 0 s) =
    Some (fold (\<lambda>i s. decrypt_round b s (key_group rk (4 * i))) [1..<n] s, 4 * n)"
proof (cases "crypto_aes_unroll b")
  case True
  then show ?thesis using assms by (auto simp: decrypt_unrolled_def Let_def upt_conv_Cons)
next
  case False
  have n: "int n div 2 = int (n div 2)" "0 < n div 2" "2 * (n div 2) = n" "8 * (n div 2) = 4 * n"
    using assms by auto
  have "decrypt_loop b rk (int (n div 2)) 0 s =
      Some (fold (\<lambda>i s. decrypt_round b s (key_group rk (0 + 4 * i))) [1..<2 * (n div 2)] s, 0 + 8 * (n div 2))"
    by (rule two_round_loop [OF _ n(2)]) (subst decrypt_loop.simps, simp add: Let_def)
  then show ?thesis using False by (simp add: n(1,3,4))
qed

text \<open>The block ciphers on the four words of a block.\<close>

definition encrypt_quad :: "build \<Rightarrow> u32 list \<Rightarrow> nat \<Rightarrow> quad \<Rightarrow> quad" where
  "encrypt_quad b rk n q =
     encrypt_last b (fold (\<lambda>i s. encrypt_round b s (key_group rk (4 * i))) [1..<n] (add_key q (key_group rk 0)))
       (key_group rk (4 * n))"

definition decrypt_quad :: "build \<Rightarrow> u32 list \<Rightarrow> nat \<Rightarrow> quad \<Rightarrow> quad" where
  "decrypt_quad b rk n q =
     decrypt_last b (fold (\<lambda>i s. decrypt_round b s (key_group rk (4 * i))) [1..<n] (add_key q (key_group rk 0)))
       (key_group rk (4 * n))"

lemma encrypt_block_ok:
  assumes "rounds key = int n" and "n \<in> {10, 12, 14}" and "get_block plain poff = Inr q"
    and "coff + 16 \<le> length cipher"
  shows "encrypt_block b key plain poff cipher coff =
    Inr (1, take coff cipher @ bytes16 (encrypt_quad b (rd_key key) n q) @ drop (coff + 16) cipher)"
  unfolding encrypt_block_def Let_def assms(1) encrypt_rounds [OF assms(2)]
  by (simp add: assms(3,4) put_block_ok encrypt_quad_def)

lemma decrypt_block_ok:
  assumes "rounds key = int n" and "n \<in> {10, 12, 14}" and "get_block cipher coff = Inr q"
    and "poff + 16 \<le> length plain"
  shows "decrypt_block b key cipher coff plain poff =
    Inr (1, take poff plain @ bytes16 (decrypt_quad b (rd_key key) n q) @ drop (poff + 16) plain)"
  unfolding decrypt_block_def Let_def assms(1) decrypt_rounds [OF assms(2)]
  by (simp add: assms(3,4) put_block_ok decrypt_quad_def)

section \<open>Encryption is the standard's cipher\<close>

lemma key_group_bytes:
  assumes "scheduled nk key (4 * n + 4) rk" and "r \<le> n"
  shows "bytes16 (key_group rk (4 * r)) = round_key nk key r"
proof -
  have u: "[4 * r..<4 * r + 4] = [4 * r, 4 * r + 1, 4 * r + 2, 4 * r + 3]"
    by (simp add: upt_conv_Cons)
  have "bytes4 (rk ! (4 * r + i)) = key_word nk key (4 * r + i)" if "i < 4" for i
    using assms that by (intro scheduled_word) auto
  from this [of 0] this [of 1] this [of 2] this [of 3] show ?thesis
    by (simp add: round_key_def key_group_def u)
qed

lemma encrypt_quad_fips:
  assumes "scheduled nk key (4 * n + 4) rk" and "0 < n"
  shows "bytes16 (encrypt_quad b rk n q) = fips_cipher nk n key (bytes16 q)"
proof -
  note key = key_group_bytes [OF assms(1)]
  have "m \<le> n \<Longrightarrow>
      bytes16 (fold (\<lambda>i s. encrypt_round b s (key_group rk (4 * i))) [1..<m] (add_key q (key_group rk 0))) =
      fold (\<lambda>r s. xor_bytes (mix_columns (shift_rows (sub_bytes s))) (round_key nk key r)) [1..<m]
        (xor_bytes (bytes16 q) (round_key nk key 0))" for m
  proof (induction m)
    case 0
    show ?case using key [of 0] by (simp add: add_key_bytes)
  next
    case (Suc m)
    then show ?case using key [of 0] key [of m] by (cases m) (simp_all add: add_key_bytes encrypt_round_bytes)
  qed
  from this [of n] show ?thesis
    using key [of n] by (simp add: encrypt_quad_def fips_cipher_def encrypt_last_bytes)
qed

section \<open>Decryption is the inverse\<close>

lemma inv_mix_w4:
  "inv_mix b (w4 a0 a1 a2 a3) =
     w4 (gmul 0xe a0 XOR gmul 0xb a1 XOR gmul 0xd a2 XOR gmul 0x9 a3)
        (gmul 0x9 a0 XOR gmul 0xe a1 XOR gmul 0xb a2 XOR gmul 0xd a3)
        (gmul 0xd a0 XOR gmul 0x9 a1 XOR gmul 0xe a2 XOR gmul 0xb a3)
        (gmul 0xb a0 XOR gmul 0xd a1 XOR gmul 0x9 a2 XOR gmul 0xe a3)"
  by (simp add: inv_mix_def w4_select Te_byte) (simp add: Td_byte w4_xor)

lemma xor_left_cancel: "x XOR (x XOR y) = y" for x y :: "'a::len word"
  by (simp add: xor.assoc [symmetric])

lemma inv_mix_xor: "inv_mix b (v XOR w) = inv_mix b v XOR inv_mix b w"
  by (cases v rule: w4_cases; cases w rule: w4_cases)
    (simp add: w4_xor inv_mix_w4 gmul_consts xtime_xor ac_simps)

text \<open>The columns of \<open>MixColumns\<close> and its inverse multiply to the unit matrix.\<close>

lemma inv_mix_mix:
  "inv_mix b (w4 (gmul 2 a XOR gmul 3 c XOR d XOR e) (a XOR gmul 2 c XOR gmul 3 d XOR e)
     (a XOR c XOR gmul 2 d XOR gmul 3 e) (gmul 3 a XOR c XOR d XOR gmul 2 e)) = w4 a c d e"
  by (simp add: inv_mix_w4 gmul_consts xtime_xor ac_simps xor_left_cancel)

fun inv_mix_quad :: "build \<Rightarrow> quad \<Rightarrow> quad" where
  "inv_mix_quad b (s0, s1, s2, s3) = (inv_mix b s0, inv_mix b s1, inv_mix b s2, inv_mix b s3)"

definition sub_shift :: "build \<Rightarrow> quad \<Rightarrow> quad" where
  "sub_shift b s = encrypt_last b s (0, 0, 0, 0)"

lemma add_key_cancel [simp]: "add_key (add_key s k) k = s"
  by (cases s; cases k) (simp add: xor.assoc)

lemma encrypt_last_sub_shift: "encrypt_last b s k = add_key (sub_shift b s) k"
  by (cases s; cases k) (simp add: sub_shift_def xor.assoc)

lemma sub_shift_w4:
  "sub_shift b (w4 a0 a1 a2 a3, w4 b0 b1 b2 b3, w4 c0 c1 c2 c3, w4 d0 d1 d2 d3) =
    (w4 (sbox a0) (sbox b1) (sbox c2) (sbox d3), w4 (sbox b0) (sbox c1) (sbox d2) (sbox a3),
     w4 (sbox c0) (sbox d1) (sbox a2) (sbox b3), w4 (sbox d0) (sbox a1) (sbox b2) (sbox c3))"
  by (simp add: sub_shift_def w4_select Te_byte w4_mask(1-3)) (simp add: ucast_w4 w4_xor)

lemma quad_cases:
  obtains a0 a1 a2 a3 b0 b1 b2 b3 c0 c1 c2 c3 d0 d1 d2 d3
  where "(s :: quad) = (w4 a0 a1 a2 a3, w4 b0 b1 b2 b3, w4 c0 c1 c2 c3, w4 d0 d1 d2 d3)"
  by (cases s) (metis w4_surj)

lemma decrypt_round_sub_shift: "decrypt_round b (sub_shift b s) k = add_key (inv_mix_quad b s) k"
  by (cases s rule: quad_cases; cases k rule: quad_cases)
    (simp add: sub_shift_w4 w4_select Td_byte inv_mix_w4 w4_xor, simp add: ac_simps)

lemma decrypt_last_sub_shift: "decrypt_last b (sub_shift b s) k = add_key s k"
  by (cases s rule: quad_cases; cases k rule: quad_cases)
    (simp add: sub_shift_w4 w4_select Td_byte w4_mask(1-3), simp add: ucast_w4 w4_xor)

lemma encrypt_round_mix:
  "encrypt_round b s k = add_key (encrypt_round b s (0, 0, 0, 0)) k"
  by (cases s; cases k) (simp add: xor.assoc)

lemma inv_mix_encrypt_round_zero: "inv_mix_quad b (encrypt_round b s (0, 0, 0, 0)) = sub_shift b s"
  by (cases s rule: quad_cases)
    (simp add: sub_shift_w4 w4_select Te_byte w4_xor, simp add: inv_mix_w4 gmul_consts xtime_xor ac_simps xor_left_cancel)

lemma inv_mix_quad_add_key: "inv_mix_quad b (add_key s k) = add_key (inv_mix_quad b s) (inv_mix_quad b k)"
  by (cases s; cases k) (simp add: inv_mix_xor)

lemma inv_mix_encrypt_round:
  "inv_mix_quad b (encrypt_round b s k) = add_key (sub_shift b s) (inv_mix_quad b k)"
  by (subst encrypt_round_mix) (simp only: inv_mix_quad_add_key inv_mix_encrypt_round_zero)

text \<open>Decryption undoes the rounds of the encryption one by one.\<close>

lemma decrypt_encrypt_quad:
  assumes "0 < n" and first: "key_group dk 0 = key_group rk (4 * n)" and last: "key_group dk (4 * n) = key_group rk 0"
    and middle: "\<And>i. 0 < i \<Longrightarrow> i < n \<Longrightarrow> key_group dk (4 * i) = inv_mix_quad b (key_group rk (4 * (n - i)))"
  shows "decrypt_quad b dk n (encrypt_quad b rk n q) = q"
proof -
  define S where "S m = fold (\<lambda>i s. encrypt_round b s (key_group rk (4 * i))) [1..<Suc m] (add_key q (key_group rk 0))" for m
  have S: "S (Suc m) = encrypt_round b (S m) (key_group rk (4 * Suc m))" for m
    by (simp add: S_def)
  have "fold (\<lambda>i s. decrypt_round b s (key_group dk (4 * i))) [1..<Suc i] (sub_shift b (S (n - 1))) =
      sub_shift b (S (n - 1 - i))" if "i \<le> n - 1" for i
    using that
  proof (induction i)
    case (Suc i)
    then obtain m where m: "n - 1 - i = Suc m" "n - 1 - Suc i = m" "n - Suc i = Suc m"
      by (metis Suc_diff_Suc Suc_le_lessD diff_Suc_eq_diff_pred)
    have "decrypt_round b (sub_shift b (S (Suc m))) (key_group dk (4 * Suc i)) =
        add_key (inv_mix_quad b (S (Suc m))) (inv_mix_quad b (key_group rk (4 * Suc m)))"
      using middle [of "Suc i"] m Suc.prems by (simp only: decrypt_round_sub_shift)
    also have "\<dots> = sub_shift b (S m)" by (simp only: S inv_mix_encrypt_round add_key_cancel)
    finally show ?case using Suc m by simp
  qed simp
  from this [of "n - 1"] have "fold (\<lambda>i s. decrypt_round b s (key_group dk (4 * i))) [1..<n]
      (sub_shift b (S (n - 1))) = sub_shift b (S 0)"
    using \<open>0 < n\<close> by simp
  moreover have "encrypt_quad b rk n q = add_key (sub_shift b (S (n - 1))) (key_group rk (4 * n))"
    using \<open>0 < n\<close> by (simp add: encrypt_quad_def S_def encrypt_last_sub_shift)
  ultimately show ?thesis
    by (simp add: decrypt_quad_def first last decrypt_last_sub_shift S_def)
qed

text \<open>The decryption schedule: reversed, and mixed except at both ends.\<close>

declare reverse_keys.simps [simp del]

lemma length_swap_groups [simp]: "length (swap_groups i j rk) = length rk"
  by (simp add: swap_groups_def Let_def)

lemma swap_groups_nth:
  assumes "i + 4 \<le> j" and "j + 4 \<le> length rk" and "k < length rk"
  shows "swap_groups i j rk ! k =
    (if i \<le> k \<and> k < i + 4 then rk ! (k - i + j) else if j \<le> k \<and> k < j + 4 then rk ! (k - j + i) else rk ! k)"
  using assms by (simp add: swap_groups_def Let_def nth_list_update) (auto simp: nth_list_update add.commute)

lemma key_group_cong:
  assumes "\<And>j. j < 4 \<Longrightarrow> rk ! (p + j) = rk' ! (p' + j)"
  shows "key_group rk p = key_group rk' p'"
  using assms [of 0] assms [of 1] assms [of 2] assms [of 3] by (simp add: key_group_def)

lemma swap_groups_key_group:
  assumes "l < h" and "4 * h + 4 \<le> length rk" and "4 * c + 4 \<le> length rk"
  shows "key_group (swap_groups (4 * l) (4 * h) rk) (4 * c) =
    key_group rk (4 * (if c = l then h else if c = h then l else c))"
proof (rule key_group_cong)
  fix j :: nat assume "j < 4"
  then show "swap_groups (4 * l) (4 * h) rk ! (4 * c + j) =
      rk ! (4 * (if c = l then h else if c = h then l else c) + j)"
    using assms by (subst swap_groups_nth) (auto simp: add.commute)
qed

lemma reverse_keys_key_group:
  assumes "4 * h + 4 \<le> length rk" and "4 * c + 4 \<le> length rk"
  shows "key_group (reverse_keys (4 * l) (4 * h) rk) (4 * c) =
    key_group rk (4 * (if l \<le> c \<and> c \<le> h then l + h - c else c))"
  using assms
proof (induction "h - l" arbitrary: l h rk rule: less_induct)
  case less
  show ?case
  proof (cases "l < h")
    case True
    let ?rk = "swap_groups (4 * l) (4 * h) rk"
    have "reverse_keys (4 * l) (4 * h) rk = reverse_keys (4 * Suc l) (4 * (h - 1)) ?rk"
      using True by (subst reverse_keys.simps) (simp add: algebra_simps)
    also have "key_group \<dots> (4 * c) = key_group ?rk (4 * (if Suc l \<le> c \<and> c \<le> h - 1 then Suc l + (h - 1) - c else c))"
      using less.hyps [of "h - 1" "Suc l" ?rk] less.prems True by auto
    also have "\<dots> = key_group rk (4 * (if l \<le> c \<and> c \<le> h then l + h - c else c))"
      using less.prems True by (subst swap_groups_key_group) auto
    finally show ?thesis .
  next
    case False
    then have "l \<le> c \<and> c \<le> h \<Longrightarrow> l + h - c = c" by linarith
    then show ?thesis using False by (subst reverse_keys.simps) auto
  qed
qed

lemma length_reverse_keys [simp]: "length (reverse_keys i j rk) = length rk"
  by (induction i j rk rule: reverse_keys.induct) (subst reverse_keys.simps, simp)

lemma inv_mix_forms: "inv_mix_unrolled b p rk = inv_mix_loop b p rk"
  by (simp add: inv_mix_unrolled_def inv_mix_loop_def Let_def upt_conv_Cons numeral_3_eq_3)

lemma length_inv_mix_loop [simp]: "length (inv_mix_loop b p rk) = length rk"
  by (simp add: inv_mix_loop_def upt_conv_Cons)

lemma inv_mix_loop_nth:
  "p + 4 \<le> length rk \<Longrightarrow> k < length rk \<Longrightarrow>
    inv_mix_loop b p rk ! k = (if p \<le> k \<and> k < p + 4 then inv_mix b (rk ! k) else rk ! k)"
  by (simp add: inv_mix_loop_def upt_conv_Cons nth_list_update) (auto simp: nth_list_update)

lemma inv_mix_loop_key_group:
  assumes "4 * i + 4 \<le> length rk" and "4 * c + 4 \<le> length rk"
  shows "key_group (inv_mix_loop b (4 * i) rk) (4 * c) =
    (if c = i then inv_mix_quad b (key_group rk (4 * c)) else key_group rk (4 * c))"
  using assms by (auto simp: key_group_def inv_mix_loop_nth)

lemma inv_mix_all:
  assumes "4 * n \<le> length rk" and "4 * c + 4 \<le> length rk"
  shows "length (fold (\<lambda>i. inv_mix_loop b (4 * i)) [1..<n] rk) = length rk \<and>
    key_group (fold (\<lambda>i. inv_mix_loop b (4 * i)) [1..<n] rk) (4 * c) =
    (if 0 < c \<and> c < n then inv_mix_quad b (key_group rk (4 * c)) else key_group rk (4 * c))"
  using assms
proof (induction n)
  case (Suc n)
  let ?F = "fold (\<lambda>i. inv_mix_loop b (4 * i)) [1..<n] rk"
  show ?case
  proof (cases "n = 0")
    case False
    then have "fold (\<lambda>i. inv_mix_loop b (4 * i)) [1..<Suc n] rk = inv_mix_loop b (4 * n) ?F" by simp
    then show ?thesis using Suc False inv_mix_loop_key_group [of n ?F c b] by auto
  qed auto
qed simp

lemma aes_set_decrypt_key_ok:
  assumes "aes_key_ok k" and "nk \<in> {4, 6, 8}" and "4 * nk \<le> length key"
    and "aes_set_encrypt_key b (Some key) (32 * int nk) (Some k) = Inr (0, Some ek)"
    and "length (rd_key ek) = 60" and "rounds ek = int n" and "n = nk + 6"
  shows "\<exists>dk. aes_set_decrypt_key b (Some key) (32 * int nk) (Some k) = Inr (0, Some dk) \<and>
    rounds dk = int n \<and> key_group (rd_key dk) 0 = key_group (rd_key ek) (4 * n) \<and>
    key_group (rd_key dk) (4 * n) = key_group (rd_key ek) 0 \<and>
    (\<forall>i. 0 < i \<and> i < n \<longrightarrow> key_group (rd_key dk) (4 * i) = inv_mix_quad b (key_group (rd_key ek) (4 * (n - i))))"
proof -
  let ?r = "reverse_keys (4 * 0) (4 * n) (rd_key ek)"
  let ?dk = "fold (\<lambda>i. inv_mix_loop b (4 * i)) [1..<n] ?r"
  have n: "n \<le> 14" using assms(2,7) by auto
  have "(\<lambda>i. (if crypto_aes_unroll b then inv_mix_unrolled b else inv_mix_loop b) (4 * i)) =
      (\<lambda>i. inv_mix_loop b (4 * i))"
    by (simp add: fun_eq_iff inv_mix_forms)
  then have "aes_set_decrypt_key b (Some key) (32 * int nk) (Some k) = Inr (0, Some (ek\<lparr>rd_key := ?dk\<rparr>))"
    by (simp add: aes_set_decrypt_key_def assms(4,6) Let_def)
  moreover have "key_group ?dk (4 * c) =
      (if 0 < c \<and> c < n then inv_mix_quad b (key_group (rd_key ek) (4 * (n - c)))
       else key_group (rd_key ek) (4 * (n - c)))" if "c \<le> n" for c
    using inv_mix_all [of n ?r c b] reverse_keys_key_group [of n "rd_key ek" c 0] assms(5) n that by auto
  from this [of 0] this [of n] this have "key_group ?dk 0 = key_group (rd_key ek) (4 * n)"
    "key_group ?dk (4 * n) = key_group (rd_key ek) 0"
    "\<forall>i. 0 < i \<and> i < n \<longrightarrow> key_group ?dk (4 * i) = inv_mix_quad b (key_group (rd_key ek) (4 * (n - i)))"
    by auto
  ultimately show ?thesis using assms(6) by auto
qed

section \<open>One block\<close>

lemma key_word_take: "0 < nk \<Longrightarrow> key_word nk (take (4 * nk) key) i = key_word nk key i"
proof (induction i rule: less_induct)
  case (less i)
  show ?case
  proof (cases "i < nk")
    case True
    then show ?thesis by (simp add: key_word.simps [of nk _ i] drop_take min_def)
  next
    case False
    then have "key_word nk (take (4 * nk) key) (i - 1) = key_word nk key (i - 1)"
      "key_word nk (take (4 * nk) key) (i - nk) = key_word nk key (i - nk)"
      using less by auto
    then show ?thesis unfolding key_word.simps [of nk _ i] using False less.prems by simp
  qed
qed

lemma fips_cipher_take: "0 < nk \<Longrightarrow> fips_cipher nk n (take (4 * nk) key) p = fips_cipher nk n key p"
proof -
  assume "0 < nk"
  then have "key_word nk (take (4 * nk) key) = key_word nk key" by (simp add: fun_eq_iff key_word_take)
  then show ?thesis by (simp only: fips_cipher_def round_key_def)
qed

lemma aes_128_schedule:
  assumes "aes_key_ok k" and "16 \<le> length ctx"
  obtains rk where "aes_set_encrypt_key b (Some ctx) (int AES_KEY_SIZE * 8) (Some k) =
      Inr (0, Some (k\<lparr>rounds := 10, rd_key := rk\<rparr>))"
    and "scheduled 4 ctx (4 * 10 + 4) rk"
proof -
  have bits: "int AES_KEY_SIZE * 8 = 32 * int 4" by (simp add: AES_KEY_SIZE_def)
  have "\<exists>rk. aes_set_encrypt_key b (Some ctx) (32 * int 4) (Some k) =
      Inr (0, Some (k\<lparr>rounds := 10, rd_key := rk\<rparr>)) \<and> scheduled 4 ctx (4 * 10 + 4) rk"
    using aes_set_encrypt_key_schedule [OF assms(1), of 4 ctx b] assms(2) by simp
  then show thesis unfolding bits [symmetric] by (elim exE conjE) (rule that)
qed

lemma aes_128_decrypt_schedule:
  assumes "aes_key_ok k" and "16 \<le> length ctx"
    and "aes_set_encrypt_key b (Some ctx) (int AES_KEY_SIZE * 8) (Some k) =
      Inr (0, Some (k\<lparr>rounds := 10, rd_key := rk\<rparr>))"
    and "scheduled 4 ctx (4 * 10 + 4) rk"
  obtains dk where "aes_set_decrypt_key b (Some ctx) (int AES_KEY_SIZE * 8) (Some k) = Inr (0, Some dk)"
    and "rounds dk = int 10" and "key_group (rd_key dk) 0 = key_group rk (4 * 10)"
    and "key_group (rd_key dk) (4 * 10) = key_group rk 0"
    and "\<And>i. 0 < i \<Longrightarrow> i < 10 \<Longrightarrow> key_group (rd_key dk) (4 * i) = inv_mix_quad b (key_group rk (4 * (10 - i)))"
proof -
  have bits: "int AES_KEY_SIZE * 8 = 32 * int 4" by (simp add: AES_KEY_SIZE_def)
  have len: "length (rd_key (k\<lparr>rounds := 10, rd_key := rk\<rparr>)) = 60"
    using assms(4) by (simp add: scheduled_def AES_MAXNR_def)
  have "rounds (k\<lparr>rounds := 10, rd_key := rk\<rparr>) = int 10" "4 \<in> {4, 6, 8 :: nat}" "10 = 4 + (6 :: nat)"
    "4 * 4 \<le> length ctx"
    using assms(2) by simp_all
  note dk = aes_set_decrypt_key_ok [OF assms(1) this(2,4) assms(3) [unfolded bits] len this(1,3), folded bits]
  have r: "rd_key (k\<lparr>rounds := 10, rd_key := rk\<rparr>) = rk" by simp
  show thesis
    using dk [unfolded r] by (elim exE conjE) (rule that, assumption+, blast)
qed

lemma aes_encrypt_is_fips:
  assumes "aes_key_ok k" and "16 \<le> length ctx" and "poff + 16 \<le> length plain" and "coff + 16 \<le> length cipher"
  shows "aes_encrypt b k ctx plain poff cipher coff =
    Inr (1, take coff cipher @ fips_cipher 4 10 (take 16 ctx) (take 16 (drop poff plain)) @ drop (coff + 16) cipher)"
proof -
  obtain rk where rk: "aes_set_encrypt_key b (Some ctx) (int AES_KEY_SIZE * 8) (Some k) =
      Inr (0, Some (k\<lparr>rounds := 10, rd_key := rk\<rparr>))" "scheduled 4 ctx (4 * 10 + 4) rk"
    by (rule aes_128_schedule [OF assms(1,2)])
  obtain q where q: "get_block plain poff = Inr q" "bytes16 q = take 16 (drop poff plain)"
    using get_block_ok [OF assms(3)] by blast
  show ?thesis
    using encrypt_block_ok [of "k\<lparr>rounds := 10, rd_key := rk\<rparr>" 10, OF _ _ q(1) assms(4), of b]
      encrypt_quad_fips [OF rk(2), of b q] fips_cipher_take [of 4 10 ctx] rk(1) q(2)
    by (simp add: aes_encrypt_def)
qed

lemma aes_decrypt_fips:
  assumes "aes_key_ok k" and "16 \<le> length ctx" and "coff + 16 \<le> length cipher" and "poff + 16 \<le> length plain"
    and "length p = 16" and "take 16 (drop coff cipher) = fips_cipher 4 10 (take 16 ctx) p"
  shows "aes_decrypt b k ctx cipher coff plain poff = Inr (1, take poff plain @ p @ drop (poff + 16) plain)"
proof -
  obtain rk where rk: "aes_set_encrypt_key b (Some ctx) (int AES_KEY_SIZE * 8) (Some k) =
      Inr (0, Some (k\<lparr>rounds := 10, rd_key := rk\<rparr>))" "scheduled 4 ctx (4 * 10 + 4) rk"
    by (rule aes_128_schedule [OF assms(1,2)])
  obtain dk where dk: "aes_set_decrypt_key b (Some ctx) (int AES_KEY_SIZE * 8) (Some k) = Inr (0, Some dk)"
    "rounds dk = int 10" "key_group (rd_key dk) 0 = key_group rk (4 * 10)"
    "key_group (rd_key dk) (4 * 10) = key_group rk 0"
    "\<And>i. 0 < i \<Longrightarrow> i < 10 \<Longrightarrow> key_group (rd_key dk) (4 * i) = inv_mix_quad b (key_group rk (4 * (10 - i)))"
    by (rule aes_128_decrypt_schedule [OF assms(1,2) rk]) (rule that)
  obtain q where q: "bytes16 q = p" using get_block_ok [of 0 p] assms(5) by auto
  obtain c where c: "get_block cipher coff = Inr c" "bytes16 c = take 16 (drop coff cipher)"
    using get_block_ok [OF assms(3)] by blast
  have "bytes16 c = bytes16 (encrypt_quad b rk 10 q)"
    using encrypt_quad_fips [OF rk(2), of b q] fips_cipher_take [of 4 10 ctx] assms(6) c(2) q by simp
  then have "c = encrypt_quad b rk 10 q" by (rule bytes16_inj)
  then have "decrypt_quad b (rd_key dk) 10 c = q"
    using decrypt_encrypt_quad [OF _ dk(3,4,5)] by simp
  then show ?thesis
    using decrypt_block_ok [OF dk(2) _ c(1) assms(4), of b] dk(1) q by (simp add: aes_decrypt_def)
qed

lemma length_fips_cipher [simp]:
  assumes "length p = 16" and "16 \<le> length key"
  shows "length (fips_cipher 4 10 key p) = 16"
proof -
  let ?k = "\<lparr>rd_key = replicate 60 0, rounds = 0\<rparr>"
  have "aes_key_ok ?k" by (simp add: aes_key_ok_def AES_MAXNR_def)
  then obtain rk where rk: "scheduled 4 key (4 * 10 + 4) rk"
    by (rule aes_128_schedule [OF _ assms(2)])
  obtain q where "bytes16 q = p" using get_block_ok [of 0 p] assms(1) by auto
  then have "fips_cipher 4 10 key p = bytes16 (encrypt_quad b rk 10 q)" for b
    using encrypt_quad_fips [OF rk, of b q] by simp
  from this [of undefined] show ?thesis by simp
qed

lemma aes_encrypt_splice:
  assumes "aes_key_ok k" and "16 \<le> length ctx" and "poff + 16 \<le> length plain" and "coff + 16 \<le> length cipher"
  shows "aes_encrypt b k ctx plain poff cipher coff =
    Inr (1, splice cipher coff (fips_cipher 4 10 (take 16 ctx) (slice plain poff 16)))"
  using assms by (simp add: aes_encrypt_is_fips splice_def slice_def)

lemma aes_decrypt_splice:
  assumes "aes_key_ok k" and "16 \<le> length ctx" and "coff + 16 \<le> length cipher" and "poff + 16 \<le> length plain"
    and "length p = 16" and "slice cipher coff 16 = fips_cipher 4 10 (take 16 ctx) p"
  shows "aes_decrypt b k ctx cipher coff plain poff = Inr (1, splice plain poff p)"
  using assms by (simp add: aes_decrypt_fips splice_def slice_def)

text \<open> C3: In every build (tables calculated or precalculated, rounds unrolled or in a loop), and
  whatever the uninitialised key structure holds, \<open>aes_encrypt\<close> returns 1, stays inside the buffers
  and replaces exactly the 16 bytes at the output position by the AES-128 cipher of FIPS-197 of the
  16 bytes at the input position under the first 16 bytes of the context. Input and output may be
  the same or overlapping places of one buffer (\<open>plain = cipher\<close>).\<close>

theorem aes_encrypt_fips:
  assumes "aes_key_ok k" and "16 \<le> length ctx" and "poff + 16 \<le> length plain" and "coff + 16 \<le> length cipher"
  shows "\<exists>cipher'. aes_encrypt b k ctx plain poff cipher coff = Inr (1, cipher') \<and>
    length cipher' = length cipher \<and>
    (\<forall>i < length cipher. cipher' ! i =
       (if coff \<le> i \<and> i < coff + 16
        then fips_cipher 4 10 (take 16 ctx) (take 16 (drop poff plain)) ! (i - coff) else cipher ! i))"
  using aes_encrypt_splice [OF assms, of b] assms by (simp add: splice_nth slice_def)

theorem aes_encrypt_fips_witness:
  "\<exists>c. aes_encrypt \<lparr>crypto_threedes = False, crypto_aes = True, crypto_aes_precalculated = True,
       crypto_aes_unroll = True\<rparr> \<lparr>rd_key = replicate 60 7, rounds = 99\<rparr>
       (replicate 20 1) (replicate 18 2) 0 (replicate 18 2) 2 = Inr (1, c) \<and> c ! 1 = 2 \<and>
     c ! 2 = fips_cipher 4 10 (replicate 16 1) (replicate 16 2) ! 0"
  using aes_encrypt_fips [of "\<lparr>rd_key = replicate 60 7, rounds = 99\<rparr>" "replicate 20 1" 0 "replicate 18 2" 2
    "replicate 18 2" "\<lparr>crypto_threedes = False, crypto_aes = True, crypto_aes_precalculated = True,
       crypto_aes_unroll = True\<rparr>"]
  by (fastforce simp: aes_key_ok_def AES_MAXNR_def)

text \<open> C9: Decrypting an encrypted block gives back the block: \<open>aes_encrypt\<close> in any build followed by
  \<open>aes_decrypt\<close> in any build with the same key bytes returns 1 and writes the original 16 bytes,
  also when both work in place.\<close>

theorem aes_decrypt_encrypt:
  assumes "aes_key_ok k" and "aes_key_ok k'" and "16 \<le> length ctx" and "poff + 16 \<le> length plain"
    and "coff + 16 \<le> length cipher" and "doff + 16 \<le> length dest"
  shows "\<exists>cipher' dest'. aes_encrypt b k ctx plain poff cipher coff = Inr (1, cipher') \<and>
    aes_decrypt b' k' ctx cipher' coff dest doff = Inr (1, dest') \<and>
    take 16 (drop doff dest') = take 16 (drop poff plain) \<and>
    take doff dest' = take doff dest \<and> drop (doff + 16) dest' = drop (doff + 16) dest"
proof -
  let ?c = "splice cipher coff (fips_cipher 4 10 (take 16 ctx) (slice plain poff 16))"
  let ?d = "splice dest doff (slice plain poff 16)"
  have "aes_encrypt b k ctx plain poff cipher coff = Inr (1, ?c)"
    by (rule aes_encrypt_splice [OF assms(1,3,4,5)])
  moreover have "aes_decrypt b' k' ctx ?c coff dest doff = Inr (1, ?d)"
    using assms by (intro aes_decrypt_splice) simp_all
  moreover have "slice ?d doff 16 = slice plain poff 16" using assms by simp
  moreover have "take doff ?d = take doff dest" "drop (doff + 16) ?d = drop (doff + 16) dest"
    using assms by (simp_all add: splice_def)
  ultimately show ?thesis by (auto simp: slice_def)
qed

theorem aes_decrypt_encrypt_witness:
  "\<exists>c d. aes_encrypt \<lparr>crypto_threedes = False, crypto_aes = True, crypto_aes_precalculated = True,
       crypto_aes_unroll = True\<rparr> \<lparr>rd_key = replicate 60 7, rounds = 99\<rparr>
       (replicate 20 1) (replicate 16 2) 0 (replicate 16 2) 0 = Inr (1, c) \<and>
     aes_decrypt \<lparr>crypto_threedes = True, crypto_aes = True, crypto_aes_precalculated = False,
       crypto_aes_unroll = False\<rparr> \<lparr>rd_key = replicate 60 0, rounds = 0\<rparr>
       (replicate 20 1) c 0 (replicate 16 2) 0 = Inr (1, d) \<and> take 16 d = replicate 16 2"
  using aes_decrypt_encrypt [of "\<lparr>rd_key = replicate 60 7, rounds = 99\<rparr>" "\<lparr>rd_key = replicate 60 0, rounds = 0\<rparr>"
    "replicate 20 1" 0 "replicate 16 2" 0 "replicate 16 2" 0 "replicate 16 2"
    "\<lparr>crypto_threedes = False, crypto_aes = True, crypto_aes_precalculated = True, crypto_aes_unroll = True\<rparr>"
    "\<lparr>crypto_threedes = True, crypto_aes = True, crypto_aes_precalculated = False, crypto_aes_unroll = False\<rparr>"]
  by (fastforce simp: aes_key_ok_def AES_MAXNR_def)

end
