(* ===== verification/Cipher_Modes.thy ===== *)
theory Cipher_Modes
  imports Aes_Correct
begin

text \<open>
  The generic cipher interface \<open>sys/crypto/ciphers.c\<close>, the helpers \<open>sys/crypto/helper.c\<close> and the
  modes of operation \<open>sys/crypto/modes/ecb.c\<close>, \<open>cbc.c\<close> and \<open>ctr.c\<close>. What a mode needs of a block
  cipher is the locale \<open>block_cipher\<close>, interpreted on AES-128 behind the interface.

  The input and the output of a mode are two places of one memory \<open>m\<close>, so they may be apart, equal
  or overlapping; initialisation vector, counter and local arrays are arrays of their own. An
  operation returns the value of the C function and the arrays it has written.
\<close>

unbundle bit_operations_syntax

section \<open>The interface\<close>

text \<open>An operation on a block reads 16 bytes of one array and writes 16 bytes of another.\<close>

type_synonym block_op = "cipher_context_t \<Rightarrow> u8 list \<Rightarrow> nat \<Rightarrow> u8 list \<Rightarrow> nat \<Rightarrow> fault + (int \<times> u8 list)"

record cipher_interface_st =
  block_size :: u8
  max_key_size :: u8
  init_op :: "cipher_context_t \<Rightarrow> u8 list \<Rightarrow> u8 \<Rightarrow> fault + (int \<times> cipher_context_t)"
  encrypt_op :: block_op
  decrypt_op :: block_op

record cipher_t =
  interface :: cipher_interface_st
  ctxt :: cipher_context_t

text \<open>\<open>k\<close> is what the local variable \<open>aeskey\<close> of the block operations holds before it is set.\<close>

definition aes_interface :: "build \<Rightarrow> aes_key_st \<Rightarrow> cipher_interface_st" where
  "aes_interface b k =
     \<lparr>block_size = of_nat AES_BLOCK_SIZE, max_key_size = of_nat AES_KEY_SIZE, init_op = aes_init b,
      encrypt_op = aes_encrypt b k, decrypt_op = aes_decrypt b k\<rparr>"


definition cipher_encrypt ::
    "cipher_t \<Rightarrow> u8 list \<Rightarrow> nat \<Rightarrow> u8 list \<Rightarrow> nat \<Rightarrow> fault + (int \<times> u8 list)" where
  "cipher_encrypt cipher input ioff output ooff =
     encrypt_op (interface cipher) (ctxt cipher) input ioff output ooff"

definition cipher_decrypt ::
    "cipher_t \<Rightarrow> u8 list \<Rightarrow> nat \<Rightarrow> u8 list \<Rightarrow> nat \<Rightarrow> fault + (int \<times> u8 list)" where
  "cipher_decrypt cipher input ioff output ooff =
     decrypt_op (interface cipher) (ctxt cipher) input ioff output ooff"

definition cipher_get_block_size :: "cipher_t \<Rightarrow> nat" where
  "cipher_get_block_size cipher = unat (block_size (interface cipher))"

definition CIPHER_MAX_BLOCK_SIZE :: nat where
  "CIPHER_MAX_BLOCK_SIZE = 16"

text \<open>A \<open>size_t\<close> that is returned as an \<open>int\<close>.\<close>

definition to_int :: "nat \<Rightarrow> int" where
  "to_int n = sint (of_nat n :: u32)"

section \<open>Helpers\<close>

primrec inc_ctr :: "nat \<Rightarrow> int \<Rightarrow> u8 list \<Rightarrow> fault + u8 list" where
  "inc_ctr 0 b block = Inr block"
| "inc_ctr (Suc n) b block =
     (if b < 0 then Inl OutOfBounds
      else bindE (readE block (nat b)) (\<lambda>x.
           bindE (writeE block (nat b) (x + 1)) (\<lambda>block.
           if x + 1 \<noteq> 0 then Inr block else inc_ctr n (b - 1) block)))"

definition crypto_block_inc_ctr :: "u8 list \<Rightarrow> int \<Rightarrow> fault + u8 list" where
  "crypto_block_inc_ctr block L = inc_ctr (nat L) 15 block"

definition crypto_equals :: "u8 list \<Rightarrow> u8 list \<Rightarrow> nat \<Rightarrow> fault + u8" where
  "crypto_equals a b len =
     bindE (foldE (\<lambda>i diff. bindE (readE a i) (\<lambda>x. bindE (readE b i) (\<lambda>y. Inr (diff OR (x XOR y)))))
       [0..<len] 0) (\<lambda>diff.
     let diff = diff OR (drop_bit 1 diff OR push_bit 7 diff);
         diff = diff OR (drop_bit 2 diff OR push_bit 6 diff);
         diff = diff OR (drop_bit 4 diff OR push_bit 4 diff)
     in Inr (diff + 1))"

definition crypto_secure_wipe :: "u8 list \<Rightarrow> nat \<Rightarrow> fault + u8 list" where
  "crypto_secure_wipe buf len = foldE (\<lambda>i buf. writeE buf i 0) [0..<len] buf"

section \<open>Electronic code book\<close>

definition ecb_pass ::
    "(u8 list \<Rightarrow> nat \<Rightarrow> u8 list \<Rightarrow> nat \<Rightarrow> fault + (int \<times> u8 list)) \<Rightarrow> int \<Rightarrow> nat \<Rightarrow> nat \<Rightarrow> nat \<Rightarrow>
     nat \<times> u8 list \<Rightarrow> fault + (int \<times> u8 list, nat \<times> u8 list) pass" where
  "ecb_pass crypt err bs inp out = (\<lambda>(offset, m).
     bindE (crypt m (inp + offset) m (out + offset)) (\<lambda>(r, m).
       if r \<noteq> 1 then Inr (Return (err, m)) else Inr (Next (offset + bs, m))))"

definition cipher_encrypt_ecb :: "cipher_t \<Rightarrow> u8 list \<Rightarrow> nat \<Rightarrow> nat \<Rightarrow> nat \<Rightarrow> fault + (int \<times> u8 list)" where
  "cipher_encrypt_ecb cipher m inp len out =
     (let bs = cipher_get_block_size cipher in
      if bs = 0 then Inl DivByZero
      else if len mod bs \<noteq> 0 then Inr (CIPHER_ERR_INVALID_LENGTH, m)
      else after (do_while (ecb_pass (cipher_encrypt cipher) CIPHER_ERR_ENC_FAILED bs inp out)
                   (\<lambda>(offset, m). offset < len) (0, m))
             (\<lambda>(offset, m). Inr (to_int offset, m)))"

definition cipher_decrypt_ecb :: "cipher_t \<Rightarrow> u8 list \<Rightarrow> nat \<Rightarrow> nat \<Rightarrow> nat \<Rightarrow> fault + (int \<times> u8 list)" where
  "cipher_decrypt_ecb cipher m inp len out =
     (let bs = cipher_get_block_size cipher in
      if bs = 0 then Inl DivByZero
      else if len mod bs \<noteq> 0 then Inr (CIPHER_ERR_INVALID_LENGTH, m)
      else after (do_while (ecb_pass (cipher_decrypt cipher) CIPHER_ERR_DEC_FAILED bs inp out)
                   (\<lambda>(offset, m). offset < len) (0, m))
             (\<lambda>(offset, m). Inr (to_int offset, m)))"

section \<open>Cipher block chaining\<close>

text \<open>A pointer to the last block: the initialisation vector, or a place of the memory.\<close>

definition prev_byte :: "u8 list \<Rightarrow> u8 list \<Rightarrow> nat option \<Rightarrow> nat \<Rightarrow> fault + u8" where
  "prev_byte iv m prev i = (case prev of None \<Rightarrow> readE iv i | Some p \<Rightarrow> readE m (p + i))"

definition cbc_encrypt_pass ::
    "cipher_t \<Rightarrow> nat \<Rightarrow> u8 list \<Rightarrow> nat \<Rightarrow> nat \<Rightarrow> nat \<times> nat option \<times> u8 list \<times> u8 list \<Rightarrow>
     fault + (int \<times> u8 list, nat \<times> nat option \<times> u8 list \<times> u8 list) pass" where
  "cbc_encrypt_pass cipher bs iv inp out = (\<lambda>(offset, prev, input_block, m).
     bindE (memcpyE input_block 0 m (inp + offset) bs) (\<lambda>input_block.
     bindE (foldE (\<lambda>i blk. bindE (readE blk i) (\<lambda>x. bindE (prev_byte iv m prev i) (\<lambda>y. writeE blk i (x XOR y))))
       [0..<bs] input_block) (\<lambda>input_block.
     bindE (cipher_encrypt cipher input_block 0 m (out + offset)) (\<lambda>(r, m).
       if r \<noteq> 1 then Inr (Return (CIPHER_ERR_ENC_FAILED, m))
       else Inr (Next (offset + bs, Some (out + offset), input_block, m))))))"

definition cipher_encrypt_cbc ::
    "cipher_t \<Rightarrow> u8 list \<Rightarrow> u8 list \<Rightarrow> nat \<Rightarrow> nat \<Rightarrow> nat \<Rightarrow> fault + (int \<times> u8 list)" where
  "cipher_encrypt_cbc cipher iv m inp len out =
     (let bs = cipher_get_block_size cipher in
      if bs = 0 then Inl DivByZero
      else if len mod bs \<noteq> 0 then Inr (CIPHER_ERR_INVALID_LENGTH, m)
      else after (do_while (cbc_encrypt_pass cipher bs iv inp out)
                   (\<lambda>(offset, prev, input_block, m). offset < len)
                   (0, None, replicate CIPHER_MAX_BLOCK_SIZE 0, m))
             (\<lambda>(offset, prev, input_block, m). Inr (to_int offset, m)))"

definition cbc_decrypt_pass ::
    "cipher_t \<Rightarrow> nat \<Rightarrow> u8 list \<Rightarrow> nat \<Rightarrow> nat \<Rightarrow> nat \<times> nat option \<times> u8 list \<Rightarrow>
     fault + (int \<times> u8 list, nat \<times> nat option \<times> u8 list) pass" where
  "cbc_decrypt_pass cipher bs iv inp out = (\<lambda>(offset, prev, m).
     let input_block = inp + offset; output_block = out + offset in
     bindE (cipher_decrypt cipher m input_block m output_block) (\<lambda>(r, m).
       if r \<noteq> 1 then Inr (Return (CIPHER_ERR_DEC_FAILED, m))
       else
         bindE (foldE (\<lambda>i m. bindE (readE m (output_block + i)) (\<lambda>x.
                  bindE (prev_byte iv m prev i) (\<lambda>y. writeE m (output_block + i) (x XOR y)))) [0..<bs] m) (\<lambda>m.
           Inr (Next (offset + bs, Some input_block, m)))))"

definition cipher_decrypt_cbc ::
    "cipher_t \<Rightarrow> u8 list \<Rightarrow> u8 list \<Rightarrow> nat \<Rightarrow> nat \<Rightarrow> nat \<Rightarrow> fault + (int \<times> u8 list)" where
  "cipher_decrypt_cbc cipher iv m inp len out =
     (let bs = cipher_get_block_size cipher in
      if bs = 0 then Inl DivByZero
      else if len mod bs \<noteq> 0 then Inr (CIPHER_ERR_INVALID_LENGTH, m)
      else after (do_while (cbc_decrypt_pass cipher bs iv inp out)
                   (\<lambda>(offset, prev, m). offset < len) (0, None, m))
             (\<lambda>(offset, prev, m). Inr (to_int offset, m)))"

section \<open>Counter\<close>

text \<open>The result holds the counter as the function leaves it, too.\<close>

definition ctr_pass ::
    "cipher_t \<Rightarrow> nat \<Rightarrow> nat \<Rightarrow> nat \<Rightarrow> nat \<Rightarrow> nat \<Rightarrow> nat \<times> u8 list \<times> u8 list \<times> u8 list \<Rightarrow>
     fault + (int \<times> u8 list \<times> u8 list, nat \<times> u8 list \<times> u8 list \<times> u8 list) pass" where
  "ctr_pass cipher bs nonce_len inp len out = (\<lambda>(offset, stream_block, nonce_counter, m).
     bindE (cipher_encrypt cipher nonce_counter 0 stream_block 0) (\<lambda>(r, stream_block).
       if r \<noteq> 1 then Inr (Return (CIPHER_ERR_ENC_FAILED, nonce_counter, m))
       else
         let n = (if len - offset > bs then bs else len - offset) in
         bindE (foldE (\<lambda>i m. bindE (readE stream_block i) (\<lambda>x. bindE (readE m (inp + offset + i)) (\<lambda>y.
                  writeE m (out + offset + i) (x XOR y)))) [0..<n] m) (\<lambda>m.
         bindE (crypto_block_inc_ctr nonce_counter (int bs - int nonce_len)) (\<lambda>nonce_counter.
           Inr (Next (offset + n, stream_block, nonce_counter, m))))))"

definition cipher_encrypt_ctr ::
    "cipher_t \<Rightarrow> u8 list \<Rightarrow> nat \<Rightarrow> u8 list \<Rightarrow> nat \<Rightarrow> nat \<Rightarrow> nat \<Rightarrow> fault + (int \<times> u8 list \<times> u8 list)" where
  "cipher_encrypt_ctr cipher nonce_counter nonce_len m inp len out =
     after (do_while (ctr_pass cipher (cipher_get_block_size cipher) nonce_len inp len out)
             (\<lambda>(offset, stream_block, nonce_counter, m). offset < len)
             (0, replicate 16 0, nonce_counter, m))
       (\<lambda>(offset, stream_block, nonce_counter, m). Inr (to_int offset, nonce_counter, m))"

definition cipher_decrypt_ctr ::
    "cipher_t \<Rightarrow> u8 list \<Rightarrow> nat \<Rightarrow> u8 list \<Rightarrow> nat \<Rightarrow> nat \<Rightarrow> nat \<Rightarrow> fault + (int \<times> u8 list \<times> u8 list)" where
  "cipher_decrypt_ctr = cipher_encrypt_ctr"

section \<open>Helpers do what they say\<close>

text \<open>Big endian numbers.\<close>

definition be_val :: "u8 list \<Rightarrow> nat" where
  "be_val xs = foldl (\<lambda>v x. 256 * v + unat x) 0 xs"

primrec be_bytes :: "nat \<Rightarrow> nat \<Rightarrow> u8 list" where
  "be_bytes 0 v = []"
| "be_bytes (Suc n) v = be_bytes n (v div 256) @ [of_nat (v mod 256)]"

lemma be_val_snoc: "be_val (xs @ [x]) = 256 * be_val xs + unat x"
  by (simp add: be_val_def)

lemma length_be_bytes [simp]: "length (be_bytes n v) = n"
  by (induction n arbitrary: v) simp_all

lemma be_bytes_val: "be_bytes (length xs) (be_val xs) = xs"
  by (induction xs rule: rev_induct) (simp_all add: be_val_snoc)

lemma be_val_bytes: "be_val (be_bytes n v) = v mod 256 ^ n"
proof (induction n arbitrary: v)
  case (Suc n)
  have "256 * (v div 256 mod 256 ^ n) + v mod 256 = v mod (256 * 256 ^ n)"
    by (simp add: mod_mult2_eq)
  then show ?case by (simp add: Suc be_val_snoc unat_of_nat take_bit_eq_mod)
qed (simp add: be_val_def)

lemma inc_ctr_step:
  "inc_ctr (Suc n) (int (length ps)) (ps @ x # post) =
     (if x + 1 \<noteq> 0 then Inr (ps @ (x + 1) # post) else inc_ctr n (int (length ps) - 1) (ps @ 0 # post))"
  by (simp add: readE_def writeE_def nth_append list_update_append)

lemma inc_ctr_ok:
  assumes "length ys = n"
  shows "inc_ctr n (int (length pre + n) - 1) (pre @ ys @ post) = Inr (pre @ be_bytes n (be_val ys + 1) @ post)"
  using assms
proof (induction n arbitrary: ys post)
  case (Suc n)
  obtain zs x where ys: "ys = zs @ [x]" "length zs = n"
    using Suc.prems by (cases ys rule: rev_cases) auto
  have at: "int (length pre + Suc n) - 1 = int (length (pre @ zs))" using ys by simp
  have carry: "unat (x + 1) = (unat x + 1) mod 256" by (simp add: unat_word_ariths)
  show ?case
  proof (cases "x + 1 = 0")
    case True
    then have "unat x + 1 = 256" using carry unat_u8_less [of x] by (cases "unat x + 1 = 256") auto
    then have "be_val ys + 1 = 256 * (be_val zs + 1)" by (simp add: ys be_val_snoc)
    then have v: "be_bytes (Suc n) (be_val ys + 1) = be_bytes n (be_val zs + 1) @ [0]" by simp
    show ?thesis
      unfolding at v using inc_ctr_step [of n "pre @ zs" x post] Suc.IH [OF ys(2), of "0 # post"] True ys by simp
  next
    case False
    then have "(unat x + 1) mod 256 \<noteq> 0" using carry by (simp add: unat_eq_0 [symmetric])
    then have "unat x \<noteq> 255" by auto
    then have "unat x + 1 < 256" using unat_u8_less [of x] by linarith
    then have "(be_val ys + 1) div 256 = be_val zs" "(be_val ys + 1) mod 256 = unat x + 1"
      unfolding ys be_val_snoc by simp_all
    then have "be_bytes (Suc n) (be_val ys + 1) = zs @ [x + 1]"
      using be_bytes_val [of zs] ys by (simp add: add.commute)
    then show ?thesis
      unfolding at using inc_ctr_step [of n "pre @ zs" x post] False ys by simp
  qed
qed simp

definition next_counter :: "nat \<Rightarrow> u8 list \<Rightarrow> u8 list" where
  "next_counter L blk = take (16 - L) blk @ be_bytes L (be_val (drop (16 - L) blk) + 1)"

lemma length_next_counter [simp]: "length blk = 16 \<Longrightarrow> L \<le> 16 \<Longrightarrow> length (next_counter L blk) = 16"
  by (simp add: next_counter_def)

lemma crypto_block_inc_ctr_ok:
  assumes "length blk = 16" and "L \<le> 16"
  shows "crypto_block_inc_ctr blk L = Inr (next_counter (nat L) blk)"
proof -
  have "inc_ctr (nat L) (int (length (take (16 - nat L) blk) + nat L) - 1) (take (16 - nat L) blk @ drop (16 - nat L) blk @ [])
      = Inr (take (16 - nat L) blk @ be_bytes (nat L) (be_val (drop (16 - nat L) blk) + 1) @ [])"
    using assms by (intro inc_ctr_ok) simp
  moreover have "int (length (take (16 - nat L) blk) + nat L) - 1 = 15" using assms by simp
  ultimately show ?thesis by (simp add: crypto_block_inc_ctr_def next_counter_def)
qed

lemma xor_loop:
  assumes "off + n \<le> length xs" and "length ps = n"
    and "\<And>i ys. i < n \<Longrightarrow> length ys = length xs \<Longrightarrow>
      (\<And>j. j < length xs \<Longrightarrow> j < off \<or> off + i \<le> j \<Longrightarrow> ys ! j = xs ! j) \<Longrightarrow> rd ys i = Inr (ps ! i)"
  shows "foldE (\<lambda>i ys. bindE (readE ys (off + i)) (\<lambda>x. bindE (rd ys i) (\<lambda>y. writeE ys (off + i) (x XOR y)))) [0..<n] xs =
    Inr (splice xs off (xor_bytes (slice xs off n) ps))"
proof -
  have "map (\<lambda>i. xs ! (off + i) XOR ps ! i) [0..<n] = xor_bytes (slice xs off n) ps"
    using assms(1,2) by (intro nth_equalityI) (simp_all add: xor_bytes_def)
  moreover have "foldE (\<lambda>i ys. bindE (readE ys (off + i)) (\<lambda>x. bindE (rd ys i) (\<lambda>y. writeE ys (off + i) (x XOR y)))) [0..<n] xs =
    Inr (take off xs @ map (\<lambda>i. xs ! (off + i) XOR ps ! i) [0..<n] @ drop (off + n) xs)"
  proof (rule foldE_update [OF assms(1)])
    fix i ys assume i: "i < n" and "length ys = length xs"
      and same: "\<And>j. j < length xs \<Longrightarrow> j < off \<or> off + i \<le> j \<Longrightarrow> ys ! j = xs ! j"
    then show "bindE (readE ys (off + i)) (\<lambda>x. bindE (rd ys i) (\<lambda>y. writeE ys (off + i) (x XOR y))) =
        Inr (ys[off + i := xs ! (off + i) XOR ps ! i])"
      using assms(1) assms(3) [of i ys] by simp
  qed
  ultimately show ?thesis using assms(1,2) by (simp add: splice_def)
qed

lemma xor_bytes_cancel: "length xs = length ys \<Longrightarrow> xor_bytes (xor_bytes xs ys) ys = xs"
  by (rule nth_equalityI) (simp_all add: xor_bytes_def xor.assoc)

lemma length_concat_blocks: "(\<And>j. j < i \<Longrightarrow> length (B j) = 16) \<Longrightarrow> length (concat (map B [0..<i])) = 16 * i"
  by (induction i) simp_all

lemma slice_concat_blocks:
  assumes "\<And>j. j < n \<Longrightarrow> length (B j) = 16" and "i < n"
  shows "slice (concat (map B [0..<n])) (16 * i) 16 = B i"
  using assms
proof (induction n)
  case (Suc n)
  have l: "length (concat (map B [0..<n])) = 16 * n" using Suc.prems(1) by (intro length_concat_blocks) simp
  show ?case
  proof (cases "i < n")
    case True
    then show ?thesis using Suc l by (simp add: slice_def)
  next
    case False
    then show ?thesis using Suc l by (simp add: slice_def less_Suc_eq)
  qed
qed simp

lemma concat_slices: "concat (map (\<lambda>i. slice m (off + 16 * i) 16) [0..<n]) = slice m off (16 * n)"
proof (induction n)
  case (Suc n)
  have e: "16 * Suc n = 16 * n + 16" by simp
  show ?case unfolding e by (simp add: Suc slice_add)
qed simp

lemma splice_next_block:
  assumes "\<And>j. j \<le> i \<Longrightarrow> length (B j) = 16" and "off + 16 * i + 16 \<le> length m"
  shows "splice (splice m off (concat (map B [0..<i]))) (off + 16 * i) (B i) =
    splice m off (concat (map B [0..<Suc i]))"
proof -
  have l: "length (concat (map B [0..<i])) = 16 * i" using assms(1) by (intro length_concat_blocks) simp
  show ?thesis
    using splice_append [of off "concat (map B [0..<i])" "B i" m] assms by (simp add: l)
qed

lemma slice_slice: "a + k \<le> n \<Longrightarrow> slice (slice m off n) a k = slice m (off + a) k"
  by (simp add: slice_def drop_take min_def add.commute)

text \<open>Cipher block chaining: block \<open>i\<close> of the cipher text of the plain text blocks \<open>P\<close>.\<close>

primrec cbc_blocks :: "(u8 list \<Rightarrow> u8 list) \<Rightarrow> u8 list \<Rightarrow> (nat \<Rightarrow> u8 list) \<Rightarrow> nat \<Rightarrow> u8 list" where
  "cbc_blocks F iv P 0 = F (xor_bytes (P 0) iv)"
| "cbc_blocks F iv P (Suc i) = F (xor_bytes (P (Suc i)) (cbc_blocks F iv P i))"

definition cbc_prev :: "(u8 list \<Rightarrow> u8 list) \<Rightarrow> u8 list \<Rightarrow> (nat \<Rightarrow> u8 list) \<Rightarrow> nat \<Rightarrow> u8 list" where
  "cbc_prev F iv P i = (case i of 0 \<Rightarrow> iv | Suc j \<Rightarrow> cbc_blocks F iv P j)"

lemma cbc_blocks_prev: "cbc_blocks F iv P i = F (xor_bytes (P i) (cbc_prev F iv P i))"
  by (cases i) (simp_all add: cbc_prev_def)

text \<open>The key stream of the counter mode: byte \<open>j\<close> is from the cipher of counter \<open>j div 16\<close>.\<close>

definition keystream :: "(u8 list \<Rightarrow> u8 list) \<Rightarrow> nat \<Rightarrow> u8 list \<Rightarrow> nat \<Rightarrow> u8" where
  "keystream F L counter j = F ((next_counter L ^^ (j div 16)) counter) ! (j mod 16)"

lemma length_counters [simp]: "length k = 16 \<Longrightarrow> L \<le> 16 \<Longrightarrow> length ((next_counter L ^^ i) k) = 16"
  by (induction i) simp_all

lemma ctr_passes:
  "0 < max 1 ((n + 15) div 16)" "n \<le> 16 * max 1 ((n + 15) div 16)"
  "Suc i < max 1 ((n + 15) div 16) \<longleftrightarrow> 16 * Suc i < n" for n :: nat
  by (linarith, linarith) (auto simp: less_max_iff_disj)

lemma map_upt_add: "map B [0..<a] @ map (\<lambda>j. B (a + j)) [0..<d] = map B [0..<a + d]"
  by (rule nth_equalityI) (auto simp: nth_append)

lemma to_int_small: "n < 2 ^ 31 \<Longrightarrow> to_int n = int n"
  by (simp add: to_int_def sint_eq_unat unat_of_nat take_bit_nat_eq_self)

section \<open>What a mode needs of a block cipher\<close>

text \<open>
  A cipher that is \<open>ready\<close> has blocks of 16 bytes, its encryption replaces the output block by a
  function \<open>F\<close> of the input block, and its decryption inverts it.
\<close>

locale block_cipher =
  fixes ready :: "cipher_t \<Rightarrow> bool" and F :: "cipher_t \<Rightarrow> u8 list \<Rightarrow> u8 list"
  assumes size: "ready c \<Longrightarrow> cipher_get_block_size c = 16"
    and len: "ready c \<Longrightarrow> length p = 16 \<Longrightarrow> length (F c p) = 16"
    and enc: "ready c \<Longrightarrow> ioff + 16 \<le> length src \<Longrightarrow> ooff + 16 \<le> length dst \<Longrightarrow>
      cipher_encrypt c src ioff dst ooff = Inr (1, splice dst ooff (F c (slice src ioff 16)))"
    and dec: "ready c \<Longrightarrow> ioff + 16 \<le> length src \<Longrightarrow> ooff + 16 \<le> length dst \<Longrightarrow> length p = 16 \<Longrightarrow>
      slice src ioff 16 = F c p \<Longrightarrow> cipher_decrypt c src ioff dst ooff = Inr (1, splice dst ooff p)"
begin

lemma length_cbc_blocks:
  "ready c \<Longrightarrow> length iv = 16 \<Longrightarrow> (\<And>j. j \<le> i \<Longrightarrow> length (P j) = 16) \<Longrightarrow> length (cbc_blocks (F c) iv P i) = 16"
  by (induction i) (simp_all add: len)

lemma length_cbc_prev:
  "ready c \<Longrightarrow> length iv = 16 \<Longrightarrow> (\<And>j. j \<le> i \<Longrightarrow> length (P j) = 16) \<Longrightarrow> length (cbc_prev (F c) iv P i) = 16"
  by (auto simp: cbc_prev_def length_cbc_blocks split: nat.split)

lemma encrypt_ecb:
  assumes c: "ready c" and N: "N = max 1 n" "16 * N < 2 ^ 31"
    and inp: "inp + 16 * N \<le> length m" and out: "out + 16 * N \<le> length m"
    and apart: "out \<le> inp \<or> inp + 16 * N \<le> out"
  shows "cipher_encrypt_ecb c m inp (16 * n) out =
    Inr (16 * int N, splice m out (concat (map (\<lambda>i. F c (slice m (inp + 16 * i) 16)) [0..<N])))"
proof -
  define C where "C i = F c (slice m (inp + 16 * i) 16)" for i
  have C: "length (C i) = 16" if "i < N" for i using that inp by (simp add: C_def len [OF c])
  let ?M = "\<lambda>i. splice m out (concat (map C [0..<i]))"
  let ?I = "\<lambda>i (offset, m'). offset = 16 * i \<and> m' = ?M i"
  have "\<exists>s'. do_while (ecb_pass (cipher_encrypt c) CIPHER_ERR_ENC_FAILED 16 inp out)
      (\<lambda>(offset, m). offset < 16 * n) (0, m) = Some (Inr (Next s')) \<and> ?I N s'"
  proof (rule do_while_steps)
    fix i s assume i: "i < N" and "?I i s"
    then have s: "s = (16 * i, ?M i)" by (cases s) auto
    have l: "length (concat (map C [0..<i])) = 16 * i" using C i by (intro length_concat_blocks) simp
    have "slice (?M i) (inp + 16 * i) 16 = slice m (inp + 16 * i) 16"
      using l i inp out apart by (intro slice_splice_apart) auto
    then have "cipher_encrypt c (?M i) (inp + 16 * i) (?M i) (out + 16 * i) = Inr (1, ?M (Suc i))"
      using enc [OF c, of "inp + 16 * i" "?M i" "out + 16 * i" "?M i"] splice_next_block [of i C out m] C l i inp out
      by (simp add: C_def)
    then show "\<exists>s'. ecb_pass (cipher_encrypt c) CIPHER_ERR_ENC_FAILED 16 inp out s = Inr (Next s') \<and>
        ?I (Suc i) s' \<and> ((\<lambda>(offset, m). offset < 16 * n) s' \<longleftrightarrow> Suc i < N)"
      using N(1) unfolding s ecb_pass_def by auto
  qed (simp_all add: N(1))
  then show ?thesis
    using N(2) by (auto simp: cipher_encrypt_ecb_def size [OF c] to_int_small C_def [abs_def])
qed

lemma cbc_encrypt_pass_ok:
  assumes "ready c" and "length blk = 16" and "inp + off + 16 \<le> length m" and "out + off + 16 \<le> length m"
    and "length pb = 16" and "\<And>k. k < 16 \<Longrightarrow> prev_byte iv m prev k = Inr (pb ! k)"
    and "x = xor_bytes (slice m (inp + off) 16) pb"
  shows "cbc_encrypt_pass c 16 iv inp out (off, prev, blk, m) =
    Inr (Next (off + 16, Some (out + off), x, splice m (out + off) (F c x)))"
proof -
  let ?p = "slice m (inp + off) 16"
  have "foldE (\<lambda>k b. bindE (readE b k) (\<lambda>x. bindE (prev_byte iv m prev k) (\<lambda>y. writeE b k (x XOR y)))) [0..<16] ?p = Inr x"
    using xor_loop [of 0 16 ?p pb "\<lambda>b. prev_byte iv m prev"] assms by simp
  moreover have "cipher_encrypt c x 0 m (out + off) = Inr (1, splice m (out + off) (F c x))"
    using enc [OF assms(1), of 0 x "out + off" m] assms by simp
  ultimately show ?thesis using assms(2,3) by (simp add: cbc_encrypt_pass_def)
qed

lemma encrypt_cbc:
  assumes c: "ready c" and iv: "length iv = 16" and n: "0 < n" "16 * n < 2 ^ 31"
    and inp: "inp + 16 * n \<le> length m" and out: "out + 16 * n \<le> length m"
    and apart: "out \<le> inp \<or> inp + 16 * n \<le> out"
  shows "cipher_encrypt_cbc c iv m inp (16 * n) out =
    Inr (16 * int n, splice m out (concat (map (cbc_blocks (F c) iv (\<lambda>i. slice m (inp + 16 * i) 16)) [0..<n])))"
proof -
  define P where "P i = slice m (inp + 16 * i) 16" for i
  define C where "C = cbc_blocks (F c) iv P"
  have P: "length (P i) = 16" if "i < n" for i using that inp by (simp add: P_def)
  have C: "length (C i) = 16" if "i < n" for i
    using length_cbc_blocks [OF c iv, of i P] that P by (simp add: C_def)
  define M where "M i = splice m out (concat (map C [0..<i]))" for i
  define prev where "prev i = (case i of 0 \<Rightarrow> None | Suc j \<Rightarrow> Some (out + 16 * j))" for i
  let ?I = "\<lambda>i (offset, pr, blk :: u8 list, m'). offset = 16 * i \<and> length blk = 16 \<and> m' = M i \<and> pr = prev i"
  have "\<exists>s'. do_while (cbc_encrypt_pass c 16 iv inp out) (\<lambda>(offset, prev, input_block, m). offset < 16 * n)
      (0, None, replicate CIPHER_MAX_BLOCK_SIZE 0, m) = Some (Inr (Next s')) \<and> ?I n s'"
  proof (rule do_while_steps [OF n(1)])
    fix i s assume i: "i < n" and "?I i s"
    then obtain blk where s: "s = (16 * i, prev i, blk, M i)" and blk: "length blk = 16" by (cases s) auto
    have l: "length (concat (map C [0..<i])) = 16 * i" using C i by (intro length_concat_blocks) simp
    have M: "length (M i) = length m" using l i out by (simp add: M_def)
    have P_M: "slice (M i) (inp + 16 * i) 16 = P i"
      unfolding P_def M_def using l i inp out apart by (intro slice_splice_apart) auto
    have pl: "length (cbc_prev (F c) iv P i) = 16" using length_cbc_prev [OF c iv] P i by simp
    have pb: "prev_byte iv (M i) (prev i) k = Inr (cbc_prev (F c) iv P i ! k)" if k: "k < 16" for k
    proof (cases i)
      case (Suc j)
      have "M i ! (out + 16 * j + k) = slice (concat (map C [0..<i])) (16 * j) 16 ! k"
        using k l i out Suc by (simp add: splice_nth M_def)
      also have "\<dots> = C j ! k" using C i Suc by (subst slice_concat_blocks) auto
      finally show ?thesis using k M i out Suc by (simp add: prev_byte_def cbc_prev_def C_def prev_def)
    qed (use k iv in \<open>simp add: prev_byte_def cbc_prev_def prev_def\<close>)
    from cbc_encrypt_pass_ok [OF c blk _ _ pl pb refl, of inp "16 * i" out]
    have "cbc_encrypt_pass c 16 iv inp out s = Inr (Next (16 * Suc i, prev (Suc i),
        xor_bytes (P i) (cbc_prev (F c) iv P i), splice (M i) (out + 16 * i) (C i)))"
      using M i inp out by (simp add: s P_M C_def cbc_blocks_prev [of "F c" iv P i] prev_def)
    moreover have "splice (M i) (out + 16 * i) (C i) = M (Suc i)"
      unfolding M_def using C i out by (intro splice_next_block) auto
    ultimately show "\<exists>s'. cbc_encrypt_pass c 16 iv inp out s = Inr (Next s') \<and> ?I (Suc i) s' \<and>
        ((\<lambda>(offset, prev, input_block, m). offset < 16 * n) s' \<longleftrightarrow> Suc i < n)"
      using P [OF i] pl by auto
  qed (simp add: CIPHER_MAX_BLOCK_SIZE_def prev_def M_def)
  then show ?thesis
    using n by (auto simp: cipher_encrypt_cbc_def size [OF c] to_int_small C_def P_def [abs_def] M_def)
qed

lemma cbc_decrypt_pass_ok:
  assumes "ready c" and "inp + off + 16 \<le> length m" and "out + off + 16 \<le> length m"
    and "length p = 16" and "length pb = 16" and "slice m (inp + off) 16 = F c (xor_bytes p pb)"
    and "\<And>k m'. k < 16 \<Longrightarrow> length m' = length m \<Longrightarrow>
      (\<And>j. j < length m \<Longrightarrow> j < out + off \<or> out + off + 16 \<le> j \<Longrightarrow> m' ! j = m ! j) \<Longrightarrow>
      prev_byte iv m' prev k = Inr (pb ! k)"
  shows "cbc_decrypt_pass c 16 iv inp out (off, prev, m) =
    Inr (Next (off + 16, Some (inp + off), splice m (out + off) p))"
proof -
  let ?x = "xor_bytes p pb"
  let ?m = "splice m (out + off) ?x"
  have "cipher_decrypt c m (inp + off) m (out + off) = Inr (1, ?m)"
    using assms by (intro dec) simp_all
  moreover have "foldE (\<lambda>i m. bindE (readE m (out + off + i)) (\<lambda>x. bindE (prev_byte iv m prev i)
      (\<lambda>y. writeE m (out + off + i) (x XOR y)))) [0..<16] ?m = Inr (splice ?m (out + off) (xor_bytes (slice ?m (out + off) 16) pb))"
  proof (rule xor_loop)
    fix k m' assume k: "k < 16" and "length m' = length ?m"
      and same: "\<And>j. j < length ?m \<Longrightarrow> j < out + off \<or> out + off + k \<le> j \<Longrightarrow> m' ! j = ?m ! j"
    have "m' ! j = m ! j" if "j < length m" "j < out + off \<or> out + off + 16 \<le> j" for j
      using same [of j] that k assms(3,4,5) by (auto simp: splice_nth)
    then show "prev_byte iv m' prev k = Inr (pb ! k)"
      using assms(3-5,7) k \<open>length m' = length ?m\<close> by simp
  qed (use assms in simp_all)
  ultimately show ?thesis
    using assms(3-5) by (simp add: cbc_decrypt_pass_def xor_bytes_cancel splice_twice)
qed

lemma decrypt_cbc:
  assumes c: "ready c" and iv: "length iv = 16" and n: "0 < n" "16 * n < 2 ^ 31"
    and inp: "inp + 16 * n \<le> length m" and out: "out + 16 * n \<le> length m"
    and apart: "out + 16 * n \<le> inp \<or> inp + 16 * n \<le> out"
    and P: "\<And>i. i < n \<Longrightarrow> length (P i) = 16"
    and cipher: "\<And>i. i < n \<Longrightarrow> slice m (inp + 16 * i) 16 = cbc_blocks (F c) iv P i"
  shows "cipher_decrypt_cbc c iv m inp (16 * n) out = Inr (16 * int n, splice m out (concat (map P [0..<n])))"
proof -
  define M where "M i = splice m out (concat (map P [0..<i]))" for i
  define prev where "prev i = (case i of 0 \<Rightarrow> None | Suc j \<Rightarrow> Some (inp + 16 * j))" for i
  let ?I = "\<lambda>i (offset, pr, m'). offset = 16 * i \<and> m' = M i \<and> pr = prev i"
  have "\<exists>s'. do_while (cbc_decrypt_pass c 16 iv inp out) (\<lambda>(offset, prev, m). offset < 16 * n) (0, None, m) =
      Some (Inr (Next s')) \<and> ?I n s'"
  proof (rule do_while_steps [OF n(1)])
    fix i s assume i: "i < n" and "?I i s"
    then have s: "s = (16 * i, prev i, M i)" by (cases s) auto
    have l: "length (concat (map P [0..<i])) = 16 * i" using P i by (intro length_concat_blocks) simp
    have M: "length (M i) = length m" using l i out by (simp add: M_def)
    have in_M: "slice (M i) (inp + 16 * j) 16 = cbc_blocks (F c) iv P j" if "j < n" for j
      unfolding M_def cipher [OF that, symmetric]
      using l i inp out apart that by (intro slice_splice_apart) auto
    have pl: "length (cbc_prev (F c) iv P i) = 16" using length_cbc_prev [OF c iv] P i by simp
    have pb: "prev_byte iv m' (prev i) k = Inr (cbc_prev (F c) iv P i ! k)"
      if k: "k < 16" and m': "length m' = length (M i)"
        "\<And>j. j < length (M i) \<Longrightarrow> j < out + 16 * i \<or> out + 16 * i + 16 \<le> j \<Longrightarrow> m' ! j = M i ! j" for k m'
    proof (cases i)
      case (Suc j)
      have "m' ! (inp + 16 * j + k) = M i ! (inp + 16 * j + k)"
        using k M i inp out apart Suc by (intro m'(2)) auto
      also have "\<dots> = slice (M i) (inp + 16 * j) 16 ! k" using k M i inp Suc by simp
      also have "\<dots> = cbc_prev (F c) iv P i ! k" using in_M [of j] i Suc by (simp add: cbc_prev_def)
      finally show ?thesis using k m'(1) M i inp Suc by (simp add: prev_byte_def prev_def)
    qed (use k iv in \<open>simp add: prev_byte_def cbc_prev_def prev_def\<close>)
    have "cbc_decrypt_pass c 16 iv inp out (16 * i, prev i, M i) =
        Inr (Next (16 * i + 16, Some (inp + 16 * i), splice (M i) (out + 16 * i) (P i)))"
      by (rule cbc_decrypt_pass_ok [OF c _ _ P [OF i] pl _ pb])
        (use M i inp out in_M [OF i] in \<open>simp_all add: cbc_blocks_prev\<close>)
    moreover have "splice (M i) (out + 16 * i) (P i) = M (Suc i)"
      unfolding M_def using P i out by (intro splice_next_block) auto
    ultimately show "\<exists>s'. cbc_decrypt_pass c 16 iv inp out s = Inr (Next s') \<and> ?I (Suc i) s' \<and>
        ((\<lambda>(offset, prev, m). offset < 16 * n) s' \<longleftrightarrow> Suc i < n)"
      unfolding s by (auto simp: prev_def)
  qed (simp add: prev_def M_def)
  then show ?thesis using n by (auto simp: cipher_decrypt_cbc_def size [OF c] to_int_small M_def)
qed

text \<open>Encryption and decryption in cipher block chaining mode.\<close>

lemma cbc_decrypt_encrypt:
  assumes c: "ready c" and iv: "length iv = 16" and n: "0 < n" "16 * n < 2 ^ 31"
    and inp: "inp + 16 * n \<le> length m" and out: "out + 16 * n \<le> length m" and dst: "dst + 16 * n \<le> length m"
    and "out \<le> inp \<or> inp + 16 * n \<le> out" and "dst + 16 * n \<le> out \<or> out + 16 * n \<le> dst"
  shows "\<exists>m1 m2. cipher_encrypt_cbc c iv m inp (16 * n) out = Inr (16 * int n, m1) \<and>
    cipher_decrypt_cbc c iv m1 out (16 * n) dst = Inr (16 * int n, m2) \<and>
    slice m2 dst (16 * n) = slice m inp (16 * n)"
proof (intro exI conjI)
  let ?P = "\<lambda>i. slice m (inp + 16 * i) 16"
  let ?C = "cbc_blocks (F c) iv ?P"
  let ?m = "splice m out (concat (map ?C [0..<n]))"
  have P: "length (?P i) = 16" if "i < n" for i using that inp by simp
  have C: "length (?C i) = 16" if "i < n" for i using length_cbc_blocks [OF c iv, of i ?P] that P by simp
  have l: "length (concat (map ?C [0..<n])) = 16 * n" "length (concat (map ?P [0..<n])) = 16 * n"
    using C P by (intro length_concat_blocks; simp)+
  have "slice ?m (out + 16 * i) 16 = ?C i" if "i < n" for i
  proof -
    have "slice ?m (out + 16 * i) 16 = slice (slice ?m out (16 * n)) (16 * i) 16"
      using that by (simp add: slice_slice)
    also have "\<dots> = slice (concat (map ?C [0..<n])) (16 * i) 16" using out l by simp
    also have "\<dots> = ?C i" using C that by (rule slice_concat_blocks)
    finally show ?thesis .
  qed
  then show "cipher_decrypt_cbc c iv ?m out (16 * n) dst =
      Inr (16 * int n, splice ?m dst (concat (map ?P [0..<n])))"
    using assms l(1) P by (intro decrypt_cbc) auto
  show "cipher_encrypt_cbc c iv m inp (16 * n) out = Inr (16 * int n, ?m)"
    by (rule encrypt_cbc [OF assms(1-6,8)])
  show "slice (splice ?m dst (concat (map ?P [0..<n]))) dst (16 * n) = slice m inp (16 * n)"
    using dst out l by (simp add: concat_slices)
qed

lemma ctr_pass_ok:
  assumes c: "ready c" and "length sb = 16" and k: "length k = 16"
    and "n = (if len - off > 16 then 16 else len - off)" and inp: "inp + off + n \<le> length m"
    and out: "out + off + n \<le> length m" and apart: "out \<le> inp \<or> inp + off + n \<le> out + off"
  shows "ctr_pass c 16 nonce_len inp len out (off, sb, k, m) =
    Inr (Next (off + n, F c k, next_counter (16 - nonce_len) k,
      splice m (out + off) (map (\<lambda>i. F c k ! i XOR m ! (inp + off + i)) [0..<n])))"
proof -
  have f: "length (F c k) = 16" using len [OF c k] .
  have "foldE (\<lambda>i m. bindE (readE (F c k) i) (\<lambda>x. bindE (readE m (inp + off + i)) (\<lambda>y.
      writeE m (out + off + i) (x XOR y)))) [0..<n] m =
      Inr (take (out + off) m @ map (\<lambda>i. F c k ! i XOR m ! (inp + off + i)) [0..<n] @ drop (out + off + n) m)"
  proof (rule foldE_update [OF out])
    fix i ys assume i: "i < n" and "length ys = length m"
      and same: "\<And>j. j < length m \<Longrightarrow> j < out + off \<or> out + off + i \<le> j \<Longrightarrow> ys ! j = m ! j"
    moreover have "ys ! (inp + off + i) = m ! (inp + off + i)"
      using i inp apart by (intro same) auto
    ultimately show "bindE (readE (F c k) i) (\<lambda>x. bindE (readE ys (inp + off + i)) (\<lambda>y.
        writeE ys (out + off + i) (x XOR y))) = Inr (ys[out + off + i := F c k ! i XOR m ! (inp + off + i)])"
      using assms(4) f inp out by (simp split: if_splits)
  qed
  moreover have "cipher_encrypt c k 0 sb 0 = Inr (1, F c k)"
    using enc [OF c, of 0 k 0 sb] assms(2) k f by simp
  moreover have "crypto_block_inc_ctr k (16 - int nonce_len) = Inr (next_counter (16 - nonce_len) k)"
    using crypto_block_inc_ctr_ok [OF k, of "16 - int nonce_len"] by (simp add: nat_diff_distrib')
  ultimately show ?thesis
    using assms(4) by (simp add: ctr_pass_def splice_def Let_def)
qed

lemma encrypt_ctr:
  assumes c: "ready c" and k: "length k = 16" and small: "n < 2 ^ 31"
    and inp: "inp + n \<le> length m" and out: "out + n \<le> length m"
    and apart: "out \<le> inp \<or> inp + n \<le> out"
  shows "cipher_encrypt_ctr c k nonce_len m inp n out =
    Inr (int n, (next_counter (16 - nonce_len) ^^ (max 1 ((n + 15) div 16))) k,
      splice m out (map (\<lambda>j. keystream (F c) (16 - nonce_len) k j XOR m ! (inp + j)) [0..<n]))"
proof -
  define K where "K i = (next_counter (16 - nonce_len) ^^ i) k" for i
  define B where "B j = keystream (F c) (16 - nonce_len) k j XOR m ! (inp + j)" for j
  define M where "M i = splice m out (map B [0..<min (16 * i) n])" for i
  define N where "N = max 1 ((n + 15) div 16)"
  let ?I = "\<lambda>i (offset, sb :: u8 list, k', m'). offset = min (16 * i) n \<and> length sb = 16 \<and> k' = K i \<and> m' = M i"
  note N = ctr_passes [where n = n, folded N_def]
  have K: "length (K i) = 16" for i using k by (simp add: K_def)
  have "\<exists>s'. do_while (ctr_pass c 16 nonce_len inp n out) (\<lambda>(offset, sb, k, m). offset < n)
      (0, replicate 16 0, k, m) = Some (Inr (Next s')) \<and> ?I N s'"
  proof (rule do_while_steps [OF N(1)])
    fix i s assume i: "i < N" and "?I i s"
    then obtain sb where s: "s = (min (16 * i) n, sb, K i, M i)" and sb: "length sb = 16" by (cases s) auto
    have off: "min (16 * i) n = 16 * i" using i N(3) [of "i - 1"] by (cases i) auto
    define d where "d = (if n - 16 * i > 16 then 16 else n - 16 * i)"
    have d: "16 * i + d = min (16 * Suc i) n" "16 * i + d \<le> n" "d \<le> 16" using off by (auto simp: d_def)
    have M: "length (M i) = length m" using out by (simp add: M_def)
    have blk: "map (\<lambda>j. F c (K i) ! j XOR M i ! (inp + 16 * i + j)) [0..<d] = map (\<lambda>j. B (16 * i + j)) [0..<d]"
    proof (rule map_cong [OF refl])
      fix j assume j: "j \<in> set [0..<d]"
      then have "M i ! (inp + 16 * i + j) = m ! (inp + 16 * i + j)"
        using inp out apart d off by (auto simp: M_def splice_nth)
      then show "F c (K i) ! j XOR M i ! (inp + 16 * i + j) = B (16 * i + j)"
        using j d by (simp add: B_def keystream_def K_def add.assoc)
    qed
    have "ctr_pass c 16 nonce_len inp n out s = Inr (Next (16 * i + d, F c (K i),
        next_counter (16 - nonce_len) (K i), splice (M i) (out + 16 * i) (map (\<lambda>j. B (16 * i + j)) [0..<d])))"
      unfolding s off blk [symmetric] using inp out apart M d(2) by (intro ctr_pass_ok [OF c sb K d_def]) auto
    moreover have "splice (M i) (out + 16 * i) (map (\<lambda>j. B (16 * i + j)) [0..<d]) = M (Suc i)"
      using splice_append [of out "map B [0..<16 * i]" "map (\<lambda>j. B (16 * i + j)) [0..<d]" m] out d
      unfolding M_def off d(1) [symmetric] by (simp add: map_upt_add)
    ultimately show "\<exists>s'. ctr_pass c 16 nonce_len inp n out s = Inr (Next s') \<and> ?I (Suc i) s' \<and>
        ((\<lambda>(offset, sb, k, m). offset < n) s' \<longleftrightarrow> Suc i < N)"
      using len [OF c K] d N(3) [of i] by (auto simp: K_def)
  qed (simp add: K_def M_def)
  moreover have "min (16 * N) n = n" using N(2) by simp
  ultimately show ?thesis
    unfolding N_def [symmetric] using small
    by (auto simp: cipher_encrypt_ctr_def size [OF c] to_int_small K_def M_def B_def [abs_def])
qed

text \<open>The counter mode is its own inverse, in place or not.\<close>

lemma ctr_decrypt_encrypt:
  assumes c: "ready c" and k: "length k = 16" and "n < 2 ^ 31"
    and inp: "inp + n \<le> length m" and out: "out + n \<le> length m" and dst: "dst + n \<le> length m"
    and "out \<le> inp \<or> inp + n \<le> out" and "dst \<le> out \<or> out + n \<le> dst"
  shows "\<exists>k' m1 m2. cipher_encrypt_ctr c k nonce_len m inp n out = Inr (int n, k', m1) \<and>
    cipher_decrypt_ctr c k nonce_len m1 out n dst = Inr (int n, k', m2) \<and>
    slice m2 dst n = slice m inp n"
proof (intro exI conjI)
  let ?s = "keystream (F c) (16 - nonce_len) k"
  let ?x = "map (\<lambda>j. ?s j XOR m ! (inp + j)) [0..<n]"
  let ?m = "splice m out ?x"
  show "cipher_encrypt_ctr c k nonce_len m inp n out =
      Inr (int n, (next_counter (16 - nonce_len) ^^ (max 1 ((n + 15) div 16))) k, ?m)"
    by (rule encrypt_ctr [OF assms(1-5,7)])
  show "cipher_decrypt_ctr c k nonce_len ?m out n dst =
      Inr (int n, (next_counter (16 - nonce_len) ^^ (max 1 ((n + 15) div 16))) k,
        splice ?m dst (map (\<lambda>j. ?s j XOR ?m ! (out + j)) [0..<n]))"
    unfolding cipher_decrypt_ctr_def using assms by (intro encrypt_ctr) simp_all
  have "map (\<lambda>j. ?s j XOR ?m ! (out + j)) [0..<n] = slice m inp n"
    using inp out by (intro nth_equalityI) (simp_all add: splice_nth xor_left_cancel)
  then show "slice (splice ?m dst (map (\<lambda>j. ?s j XOR ?m ! (out + j)) [0..<n])) dst n = slice m inp n"
    using dst out inp by simp
qed

end

section \<open>AES behind the interface\<close>

definition aes_ready :: "cipher_t \<Rightarrow> bool" where
  "aes_ready c \<longleftrightarrow> (\<exists>b k. aes_key_ok k \<and> interface c = aes_interface b k) \<and> 16 \<le> length (ctxt c)"

definition aes128 :: "cipher_t \<Rightarrow> u8 list \<Rightarrow> u8 list" where
  "aes128 c = fips_cipher 4 10 (take 16 (ctxt c))"

interpretation aes: block_cipher aes_ready aes128
proof
  fix c p assume "aes_ready c"
  then obtain b k where c: "aes_key_ok k" "interface c = aes_interface b k" "16 \<le> length (ctxt c)"
    by (auto simp: aes_ready_def)
  show "cipher_get_block_size c = 16"
    by (simp add: cipher_get_block_size_def c(2) aes_interface_def AES_BLOCK_SIZE_def)
  show "length p = 16 \<Longrightarrow> length (aes128 c p) = 16" using c(3) by (simp add: aes128_def)
  show "ioff + 16 \<le> length src \<Longrightarrow> ooff + 16 \<le> length dst \<Longrightarrow>
      cipher_encrypt c src ioff dst ooff = Inr (1, splice dst ooff (aes128 c (slice src ioff 16)))" for ioff src ooff dst
    using c by (simp add: cipher_encrypt_def aes_interface_def aes_encrypt_splice aes128_def)
  show "ioff + 16 \<le> length src \<Longrightarrow> ooff + 16 \<le> length dst \<Longrightarrow> length p = 16 \<Longrightarrow>
      slice src ioff 16 = aes128 c p \<Longrightarrow> cipher_decrypt c src ioff dst ooff = Inr (1, splice dst ooff p)" for ioff src ooff dst
    using c by (simp add: cipher_decrypt_def aes_interface_def aes_decrypt_splice aes128_def)
qed


text \<open>Three rounds of shifting and or-ing spread a bit to all eight places.\<close>

lemma bit_or_rotated:
  fixes d :: u8
  assumes "n < 8" and "k < 8"
  shows "bit (d OR (drop_bit k d OR push_bit (8 - k) d)) n \<longleftrightarrow> bit d n \<or> bit d ((n + k) mod 8)"
proof (cases "n + k < 8")
  case True
  then show ?thesis using assms by (auto simp: bit_simps add.commute)
next
  case False
  then have "(n + k) mod 8 = n - (8 - k)" using assms by (simp add: le_mod_geq)
  moreover have "\<not> bit d (k + n)" using False bit_imp_le_length [of d "k + n"] by auto
  ultimately show ?thesis using False assms by (auto simp: bit_simps)
qed

lemma smear_bits:
  fixes d :: u8
  assumes d1: "d1 = d OR (drop_bit 1 d OR push_bit 7 d)"
    and d2: "d2 = d1 OR (drop_bit 2 d1 OR push_bit 6 d1)"
    and d3: "d3 = d2 OR (drop_bit 4 d2 OR push_bit 4 d2)"
  shows "d3 = (if d = 0 then 0 else - 1)"
proof (cases "d = 0")
  case False
  then obtain i where i: "bit d i" by (auto simp: bit_eq_iff)
  then have "i < 8" using bit_imp_le_length [OF i] by simp
  have step: "bit (x OR (drop_bit j x OR push_bit (8 - j) x)) n"
    if "bit x ((n + c * j) mod 8)" "n < 8" "j < 8" "c < 2" for x :: u8 and n c j
    using that by (auto simp: bit_or_rotated less_2_cases_iff)
  have "bit d3 n" if n: "n < 8" for n
  proof -
    define k where "k = (i + 8 - n) mod 8"
    define a where "a = (n + k div 4 * 4) mod 8"
    define b where "b = (a + k div 2 mod 2 * 2) mod 8"
    have "k div 4 * 4 + k div 2 mod 2 * 2 + k mod 2 = k" by presburger
    then have "(b + k mod 2) mod 8 = (n + k) mod 8" by (simp add: a_def b_def mod_add_left_eq add.assoc)
    also have "\<dots> = i" using n \<open>i < 8\<close> by (simp add: k_def mod_add_right_eq)
    finally have "(b + k mod 2 * 1) mod 8 = i" "a < 8" "b < 8" "k div 4 < 2"
      by (simp_all add: a_def b_def k_def less_mult_imp_div_less)
    then have "bit d1 b" using i step [of d b "k mod 2" 1] by (simp add: d1)
    then have "bit d2 a" using step [of d1 a "k div 2 mod 2" 2] \<open>a < 8\<close> by (simp add: d2 b_def)
    then show ?thesis using step [of d2 n "k div 4" 4] n \<open>k div 4 < 2\<close> by (simp add: d3 a_def)
  qed
  then show ?thesis using False by (auto intro!: bit_word_eqI)
qed (simp add: d1 d2 d3)

lemma crypto_equals_iff:
  assumes "n \<le> length a" and "n \<le> length b"
  shows "crypto_equals a b n = Inr (if take n a = take n b then 1 else 0)"
proof -
  let ?f = "\<lambda>i diff. bindE (readE a i) (\<lambda>x. bindE (readE b i) (\<lambda>y. Inr (diff OR (x XOR y))))"
  have "\<exists>d. foldE ?f [0..<n] 0 = Inr d \<and> (d = 0 \<longleftrightarrow> take n a = take n b)"
  proof (rule foldE_upt [where I = "\<lambda>i d. d = 0 \<longleftrightarrow> take i a = take i b"])
    fix i and d :: u8 assume i: "i < n" and d: "d = 0 \<longleftrightarrow> take i a = take i b"
    have "x XOR y = 0 \<longleftrightarrow> x = y" for x y :: u8
      by (metis xor.right_neutral xor_left_cancel xor_self_eq)
    then have "d OR (a ! i XOR b ! i) = 0 \<longleftrightarrow> take (Suc i) a = take (Suc i) b"
      using i assms d by (auto simp: take_Suc_conv_app_nth or_eq_0_iff)
    then show "\<exists>s'. ?f i d = Inr s' \<and> (s' = 0 \<longleftrightarrow> take (Suc i) a = take (Suc i) b)"
      using i assms by simp
  qed simp
  then obtain d where d: "foldE ?f [0..<n] 0 = Inr d" "d = 0 \<longleftrightarrow> take n a = take n b" by blast
  show ?thesis using smear_bits [OF refl refl refl, of d] d by (auto simp: crypto_equals_def Let_def)
qed

section \<open>Properties\<close>

abbreviation some_build :: build where
  "some_build \<equiv> \<lparr>crypto_threedes = False, crypto_aes = True, crypto_aes_precalculated = False,
    crypto_aes_unroll = False\<rparr>"

abbreviation some_key :: aes_key_st where
  "some_key \<equiv> \<lparr>rd_key = replicate 60 7, rounds = 99\<rparr>"

abbreviation some_cipher :: cipher_t where
  "some_cipher \<equiv> \<lparr>interface = aes_interface some_build some_key, ctxt = replicate 20 1\<rparr>"

lemma some_key_ok [simp]: "aes_key_ok some_key"
  by (simp add: aes_key_ok_def AES_MAXNR_def)





text \<open> \<open>crypto_block_inc_ctr\<close> with a counter of \<open>L\<close> bytes adds one to the big endian number in the
  last \<open>L\<close> bytes of the block, modulo \<open>256 ^ L\<close>, and leaves the other bytes alone; with \<open>L = 0\<close> or
  a negative \<open>L\<close> nothing changes. It never leaves the block.\<close>

theorem crypto_block_inc_ctr_adds_one:
  assumes "length block = 16" and "L \<le> 16"
  shows "\<exists>block'. crypto_block_inc_ctr block L = Inr block' \<and> length block' = 16 \<and>
    take (16 - nat L) block' = take (16 - nat L) block \<and>
    be_val (drop (16 - nat L) block') = (be_val (drop (16 - nat L) block) + 1) mod 256 ^ nat L"
  using assms by (simp add: crypto_block_inc_ctr_ok next_counter_def be_val_bytes)

theorem crypto_block_inc_ctr_adds_one_witness:
  "\<exists>b. crypto_block_inc_ctr (replicate 14 0 @ [3, 255]) 2 = Inr b \<and> be_val (drop 14 b) = 1024"
  using crypto_block_inc_ctr_adds_one [of "replicate 14 0 @ [3, 255]" 2] by (auto simp: be_val_def)

text \<open> \<open>cipher_encrypt_ecb\<close> encrypts block by block, apart or in place, but always at least one
  block: for the length 0 it reads 16 bytes of input, writes 16 bytes of output and returns 16.\<close>

theorem ecb_encrypts_at_least_one_block:
  assumes "interface c = aes_interface b k" and "aes_key_ok k" and "16 \<le> length (ctxt c)"
    and "N = max 1 n" and "16 * N < 2 ^ 31"
    and "inp + 16 * N \<le> length m" and "out + 16 * N \<le> length m" and "out \<le> inp \<or> inp + 16 * N \<le> out"
  shows "cipher_encrypt_ecb c m inp (16 * n) out = Inr (16 * int N, take out m @
    concat (map (\<lambda>i. fips_cipher 4 10 (take 16 (ctxt c)) (take 16 (drop (inp + 16 * i) m))) [0..<N]) @
    drop (out + 16 * N) m)"
proof -
  have "aes_ready c" using assms(1-3) by (auto simp: aes_ready_def)
  moreover have "length (concat (map (\<lambda>i. aes128 c (slice m (inp + 16 * i) 16)) [0..<N])) = 16 * N"
    using assms(6) by (intro length_concat_blocks aes.len [OF \<open>aes_ready c\<close>]) simp
  ultimately show ?thesis
    using aes.encrypt_ecb [OF _ assms(4-8)] by (simp add: splice_def slice_def aes128_def)
qed

theorem ecb_encrypts_at_least_one_block_witness:
  "cipher_encrypt_ecb some_cipher (replicate 20 5) 0 0 0 =
     Inr (16, fips_cipher 4 10 (replicate 16 1) (replicate 16 5) @ replicate 4 5)"
  using ecb_encrypts_at_least_one_block [of some_cipher some_build some_key 1 0 0 "replicate 20 5" 0] by simp



end
