(* ===== verification/Ccm.thy ===== *)
theory Ccm
  imports Cipher_Modes "HOL-Library.Signed_Division"
begin

text \<open>
  Counter with CBC-MAC, \<open>sys/crypto/modes/ccm.c\<close>: authenticated encryption. Input and output are two
  places of one memory \<open>m\<close>, authenticated data and nonce are arrays of their own, and an integer that
  the code converts to a narrower type is converted here, too.
\<close>

unbundle bit_operations_syntax

definition CCM_ERR_INVALID_CBC_MAC :: int where
  "CCM_ERR_INVALID_CBC_MAC = - 3"

definition CCM_ERR_INVALID_DATA_LENGTH :: int where
  "CCM_ERR_INVALID_DATA_LENGTH = - 3"

definition CCM_ERR_INVALID_LENGTH_ENCODING :: int where
  "CCM_ERR_INVALID_LENGTH_ENCODING = - 4"

definition CCM_ERR_INVALID_MAC_LENGTH :: int where
  "CCM_ERR_INVALID_MAC_LENGTH = - 5"

section \<open>The message authentication code\<close>

text \<open>The variable \<open>offset\<close> is a byte.\<close>

definition mac_pass ::
    "cipher_t \<Rightarrow> nat \<Rightarrow> u8 list \<Rightarrow> nat \<Rightarrow> nat \<Rightarrow> u8 \<times> u8 list \<times> u8 list \<Rightarrow>
     fault + (int \<times> u8 list, u8 \<times> u8 list \<times> u8 list) pass" where
  "mac_pass cipher bs m inp len = (\<lambda>(offset, mac_enc, mac).
     let n = (if len - unat offset > bs then bs else len - unat offset) in
     bindE (foldE (\<lambda>i mac. bindE (readE mac i) (\<lambda>x. bindE (readE m (inp + unat offset + i)) (\<lambda>y.
              writeE mac i (x XOR y)))) [0..<n] mac) (\<lambda>mac.
     bindE (cipher_encrypt cipher mac 0 mac_enc 0) (\<lambda>(r, mac_enc).
       if r \<noteq> 1 then Inr (Return (CIPHER_ERR_ENC_FAILED, mac))
       else bindE (memcpyE mac 0 mac_enc 0 bs) (\<lambda>mac. Inr (Next (offset + of_nat n, mac_enc, mac))))))"

definition ccm_compute_cbc_mac ::
    "cipher_t \<Rightarrow> u8 list \<Rightarrow> u8 list \<Rightarrow> nat \<Rightarrow> nat \<Rightarrow> u8 list \<Rightarrow> fault + (int \<times> u8 list)" where
  "ccm_compute_cbc_mac cipher iv m inp len mac =
     bindE (memcpyE mac 0 iv 0 16) (\<lambda>mac.
       after (do_while (mac_pass cipher (cipher_get_block_size cipher) m inp len)
               (\<lambda>(offset, mac_enc, mac). unat offset < len) (0, replicate 16 0, mac))
         (\<lambda>(offset, mac_enc, mac). Inr (int (unat offset), mac)))"

text \<open>
  The bytes of the length, from \<open>X1[15]\<close> downwards. The index is an unsigned byte: after 0 it is 255,
  which is outside \<open>X1\<close>.
\<close>

fun length_loop :: "nat \<Rightarrow> nat \<Rightarrow> u8 list \<Rightarrow> nat \<Rightarrow> fault + (u8 list \<times> nat)" where
  "length_loop i L X1 plaintext_len =
     (if int i > 16 - int L then
        bindE (writeE X1 i (of_nat (plaintext_len mod 256))) (\<lambda>X1.
          if i = 0 then Inl OutOfBounds else length_loop (i - 1) L X1 (plaintext_len div 256))
      else Inr (X1, plaintext_len))"

declare length_loop.simps [simp del]

text \<open>\<open>memcpy\<close> with a length that is a signed number: a negative one is huge.\<close>

definition memcpy_int :: "u8 list \<Rightarrow> nat \<Rightarrow> u8 list \<Rightarrow> int \<Rightarrow> fault + u8 list" where
  "memcpy_int dst doff src n = (if n < 0 then Inl OutOfBounds else memcpyE dst doff src 0 (nat n))"

definition ccm_create_mac_iv ::
    "cipher_t \<Rightarrow> u8 \<Rightarrow> u8 \<Rightarrow> u8 \<Rightarrow> u8 list \<Rightarrow> u8 \<Rightarrow> nat \<Rightarrow> u8 list \<Rightarrow> fault + (int \<times> u8 list)" where
  "ccm_create_mac_iv cipher auth_data_len M L nonce nonce_len plaintext_len X1 =
     bindE (memcpyE X1 0 (replicate 16 0) 0 16) (\<lambda>X1.
     let M' = word_of_int ((int (unat M) - 2) sdiv 2) :: u8; L' = L - 1 in
     bindE (writeE X1 0 ((if auth_data_len > 0 then 64 else 0) + 8 * M' + L')) (\<lambda>X1.
     bindE (memcpy_int X1 1 nonce (min (int (unat nonce_len)) (15 - int (unat L)))) (\<lambda>X1.
     bindE (length_loop 15 (unat L) X1 plaintext_len) (\<lambda>(X1, plaintext_len).
       if plaintext_len > 0 then Inr (CIPHER_ERR_INVALID_LENGTH, X1)
       else bindE (cipher_encrypt cipher X1 0 X1 0) (\<lambda>(r, X1).
              if r \<noteq> 1 then Inr (CIPHER_ERR_ENC_FAILED, X1) else Inr (0, X1))))))"

text \<open>\<open>auth_data_encoded\<close> is what the uninitialised array of 26 bytes holds.\<close>

definition ccm_compute_adata_mac ::
    "cipher_t \<Rightarrow> u8 list \<Rightarrow> u8 list \<Rightarrow> u32 \<Rightarrow> u8 list \<Rightarrow> fault + (int \<times> u8 list)" where
  "ccm_compute_adata_mac cipher auth_data_encoded auth_data auth_data_len X1 =
     (if auth_data_len > 0 then
        if auth_data_len \<le> 0xFEFF then
          bindE (writeE auth_data_encoded 1 (ucast (auth_data_len AND 0xFF))) (\<lambda>enc.
          bindE (writeE enc 0 (ucast (drop_bit 8 auth_data_len AND 0xFF))) (\<lambda>enc.
          bindE (memcpyE enc 2 auth_data 0 (unat auth_data_len)) (\<lambda>enc.
          bindE (ccm_compute_cbc_mac cipher X1 enc 0 (unat auth_data_len + 2) X1) (\<lambda>(len, X1).
            if len < 0 then Inr (- 1, X1) else Inr (0, X1)))))
        else Inr (- 1, X1)
      else Inr (0, X1))"

definition fits_in_nbytes :: "nat \<Rightarrow> u8 \<Rightarrow> bool" where
  "fits_in_nbytes val num_bytes \<longleftrightarrow>
     (let shift = 8 * min 8 (unat num_bytes) - 1 in drop_bit shift val \<le> 1)"

section \<open>Encryption and decryption\<close>

text \<open>
  The first stream block is the cipher of the counter block: the counter mode applied to an array of
  zeroes, with a counter of length 0.
\<close>

definition first_stream_block ::
    "cipher_t \<Rightarrow> u8 \<Rightarrow> u8 list \<Rightarrow> nat \<Rightarrow> fault + (int \<times> u8 list \<times> u8 list)" where
  "first_stream_block cipher length_encoding nonce nonce_len =
     (let bs = cipher_get_block_size cipher in
      bindE (writeE (replicate 16 0) 0 (length_encoding - 1)) (\<lambda>nonce_counter.
      bindE (memcpy_int nonce_counter 1 nonce (min (to_int nonce_len) (15 - int (unat length_encoding)))) (\<lambda>nonce_counter.
      bindE (cipher_encrypt_ctr cipher nonce_counter bs (replicate 16 0 @ replicate 16 0) 0 bs 16)
        (\<lambda>(len, nonce_counter, blocks). Inr (len, nonce_counter, drop 16 blocks)))))"

definition cipher_encrypt_ccm ::
    "cipher_t \<Rightarrow> u8 list \<Rightarrow> u8 list \<Rightarrow> u32 \<Rightarrow> u8 \<Rightarrow> u8 \<Rightarrow> u8 list \<Rightarrow> nat \<Rightarrow> u8 list \<Rightarrow> nat \<Rightarrow> nat \<Rightarrow> nat \<Rightarrow>
     fault + (int \<times> u8 list)" where
  "cipher_encrypt_ccm cipher junk auth_data auth_data_len mac_length length_encoding nonce nonce_len m inp input_len out =
     (if unat mac_length mod 2 \<noteq> 0 \<or> mac_length < 4 \<or> mac_length > 16 then Inr (CCM_ERR_INVALID_MAC_LENGTH, m)
      else if length_encoding < 2 \<or> length_encoding > 8 \<or> \<not> fits_in_nbytes input_len length_encoding
      then Inr (CCM_ERR_INVALID_LENGTH_ENCODING, m)
      else
      let bs = cipher_get_block_size cipher in
      bindE (ccm_create_mac_iv cipher (ucast auth_data_len) mac_length length_encoding nonce
               (of_nat nonce_len) input_len (replicate 16 0)) (\<lambda>(r, mac_iv).
      if r < 0 then Inr (CCM_ERR_INVALID_DATA_LENGTH, m)
      else
      bindE (ccm_compute_adata_mac cipher junk auth_data auth_data_len mac_iv) (\<lambda>(len, mac_iv).
      if len < 0 then Inr (len, m)
      else
      bindE (ccm_compute_cbc_mac cipher mac_iv m inp input_len (replicate 16 0)) (\<lambda>(len, mac).
      if len < 0 then Inr (len, m)
      else
      bindE (first_stream_block cipher length_encoding nonce nonce_len) (\<lambda>(len, nonce_counter, stream_block).
      if len < 0 then Inr (len, m)
      else
      bindE (crypto_block_inc_ctr nonce_counter (sint (word_of_int (int bs - int nonce_len) :: u32))) (\<lambda>nonce_counter.
      bindE (cipher_encrypt_ctr cipher nonce_counter (nonce_len mod 256) m inp input_len out) (\<lambda>(len, nonce_counter, m).
      if len < 0 then Inr (len, m)
      else
      bindE (foldE (\<lambda>i m. bindE (readE mac i) (\<lambda>x. bindE (readE stream_block i) (\<lambda>y.
               writeE m (out + nat len + i) (x XOR y)))) [0..<unat mac_length] m) (\<lambda>m.
      Inr (len + int (unat mac_length), m)))))))))"

definition cipher_decrypt_ccm ::
    "cipher_t \<Rightarrow> u8 list \<Rightarrow> u8 list \<Rightarrow> u32 \<Rightarrow> u8 \<Rightarrow> u8 \<Rightarrow> u8 list \<Rightarrow> nat \<Rightarrow> u8 list \<Rightarrow> nat \<Rightarrow> nat \<Rightarrow> nat \<Rightarrow>
     fault + (int \<times> u8 list)" where
  "cipher_decrypt_ccm cipher junk auth_data auth_data_len mac_length length_encoding nonce nonce_len m inp input_len plain =
     (if unat mac_length mod 2 \<noteq> 0 \<or> mac_length < 4 \<or> mac_length > 16 then Inr (CCM_ERR_INVALID_MAC_LENGTH, m)
      else if length_encoding < 2 \<or> length_encoding > 8 \<or> \<not> fits_in_nbytes input_len length_encoding
      then Inr (CCM_ERR_INVALID_LENGTH_ENCODING, m)
      else
      let bs = cipher_get_block_size cipher in
      bindE (first_stream_block cipher length_encoding nonce nonce_len) (\<lambda>(len, nonce_counter, stream_block).
      if len < 0 then Inr (len, m)
      else
      let plain_len = word_of_int (int input_len - int (unat mac_length)) :: u8 in
      bindE (crypto_block_inc_ctr nonce_counter (sint (word_of_int (int bs - int nonce_len) :: u32))) (\<lambda>nonce_counter.
      bindE (cipher_encrypt_ctr cipher nonce_counter (nonce_len mod 256) m inp (unat plain_len) plain)
        (\<lambda>(len, nonce_counter, m).
      if len < 0 then Inr (len, m)
      else
      bindE (ccm_create_mac_iv cipher (ucast auth_data_len) mac_length length_encoding nonce
               (of_nat nonce_len) (unat plain_len) (replicate 16 0)) (\<lambda>(r, mac_iv).
      if r < 0 then Inr (CCM_ERR_INVALID_DATA_LENGTH, m)
      else
      bindE (ccm_compute_adata_mac cipher junk auth_data auth_data_len mac_iv) (\<lambda>(len, mac_iv).
      if len < 0 then Inr (len, m)
      else
      bindE (ccm_compute_cbc_mac cipher mac_iv m plain (unat plain_len) (replicate 16 0)) (\<lambda>(len, mac).
      if len < 0 then Inr (len, m)
      else
      bindE (foldE (\<lambda>i mac_recv. bindE (readE m (inp + nat len + i)) (\<lambda>x. bindE (readE stream_block i) (\<lambda>y.
               writeE mac_recv i (x XOR y)))) [0..<unat mac_length] (replicate 16 0)) (\<lambda>mac_recv.
      bindE (crypto_equals mac_recv mac (unat mac_length)) (\<lambda>eq.
      if eq = 0 then Inr (CCM_ERR_INVALID_CBC_MAC, m)
      else Inr (int (unat plain_len), m))))))))))"

section \<open>The code as a function of the text\<close>

definition xor_prefix :: "u8 list \<Rightarrow> u8 list \<Rightarrow> u8 list" where
  "xor_prefix x p = xor_bytes (take (length p) x) p @ drop (length p) x"

text \<open>The CBC-MAC after \<open>i\<close> blocks of the text; the last block may be short.\<close>

primrec mac_chain :: "(u8 list \<Rightarrow> u8 list) \<Rightarrow> u8 list \<Rightarrow> u8 list \<Rightarrow> nat \<Rightarrow> u8 list" where
  "mac_chain F iv xs 0 = iv"
| "mac_chain F iv xs (Suc i) = F (xor_prefix (mac_chain F iv xs i) (take 16 (drop (16 * i) xs)))"

definition cbc_mac :: "(u8 list \<Rightarrow> u8 list) \<Rightarrow> u8 list \<Rightarrow> u8 list \<Rightarrow> u8 list" where
  "cbc_mac F iv xs = mac_chain F iv xs (max 1 ((length xs + 15) div 16))"

lemma length_xor_prefix [simp]: "length p \<le> length x \<Longrightarrow> length (xor_prefix x p) = length x"
  by (simp add: xor_prefix_def)

context block_cipher
begin

lemma length_mac_chain: "ready c \<Longrightarrow> length iv = 16 \<Longrightarrow> length (mac_chain (F c) iv xs i) = 16"
  by (induction i) (simp_all add: len)

lemma length_cbc_mac: "ready c \<Longrightarrow> length iv = 16 \<Longrightarrow> length (cbc_mac (F c) iv xs) = 16"
  by (simp add: cbc_mac_def length_mac_chain)

lemma mac_pass_ok:
  assumes c: "ready c" and "length enc = 16" and mac: "length mac = 16"
    and d: "d = (if n - unat off > 16 then 16 else n - unat off)" and inp: "inp + unat off + d \<le> length m"
    and x: "x = F c (xor_prefix mac (slice m (inp + unat off) d))"
  shows "mac_pass c 16 m inp n (off, enc, mac) = Inr (Next (off + of_nat d, x, x))"
proof -
  let ?p = "xor_prefix mac (slice m (inp + unat off) d)"
  have "d \<le> 16" using d by auto
  have "foldE (\<lambda>i mac. bindE (readE mac i) (\<lambda>x. bindE (readE m (inp + unat off + i)) (\<lambda>y.
      writeE mac i (x XOR y)))) [0..<d] mac = Inr (splice mac 0 (xor_bytes (slice mac 0 d) (slice m (inp + unat off) d)))"
    using xor_loop [of 0 d mac "slice m (inp + unat off) d" "\<lambda>ys i. readE m (inp + unat off + i)"] mac \<open>d \<le> 16\<close> inp
    by simp
  also have "splice mac 0 (xor_bytes (slice mac 0 d) (slice m (inp + unat off) d)) = ?p"
    using mac \<open>d \<le> 16\<close> inp by (simp add: splice_def xor_prefix_def slice_def)
  finally have loop: "foldE (\<lambda>i mac. bindE (readE mac i) (\<lambda>x. bindE (readE m (inp + unat off + i)) (\<lambda>y.
      writeE mac i (x XOR y)))) [0..<d] mac = Inr ?p" .
  have p: "length ?p = 16" using mac \<open>d \<le> 16\<close> inp by simp
  then have "length x = 16" using len [OF c] x by simp
  moreover have "cipher_encrypt c ?p 0 enc 0 = Inr (1, x)"
    using enc [OF c, of 0 ?p 0 enc] p assms(2) x len [OF c p] by simp
  ultimately show ?thesis
    using loop p unfolding mac_pass_def prod.case Let_def d [symmetric] by simp
qed

lemma compute_cbc_mac:
  assumes c: "ready c" and iv: "length iv = 16" and "length mac = 16" and n: "n \<le> 255"
    and inp: "inp + n \<le> length m"
  shows "ccm_compute_cbc_mac c iv m inp n mac = Inr (int n, cbc_mac (F c) iv (slice m inp n))"
proof -
  define X where "X = mac_chain (F c) iv (slice m inp n)"
  define N where "N = max 1 ((n + 15) div 16)"
  let ?I = "\<lambda>i (off :: u8, enc :: u8 list, mac). off = of_nat (min (16 * i) n) \<and> length enc = 16 \<and> mac = X i"
  note N = ctr_passes [where n = n, folded N_def]
  have X: "length (X i) = 16" for i using length_mac_chain [OF c iv] by (simp add: X_def)
  have "\<exists>s'. do_while (mac_pass c 16 m inp n) (\<lambda>(offset, mac_enc, mac). unat offset < n)
      (0, replicate 16 0, iv) = Some (Inr (Next s')) \<and> ?I N s'"
  proof (rule do_while_steps [OF N(1)])
    fix i s assume i: "i < N" and "?I i s"
    have off: "min (16 * i) n = 16 * i" using i N(3) [of "i - 1"] by (cases i) auto
    then obtain enc where s: "s = (of_nat (16 * i), enc, X i)" and enc: "length enc = 16"
      using \<open>?I i s\<close> by (cases s) auto
    have u: "unat (of_nat k :: u8) = k" if "k \<le> n" for k
      using that n by (simp add: unat_of_nat take_bit_nat_eq_self)
    define d where "d = (if n - 16 * i > 16 then 16 else n - 16 * i)"
    have d: "16 * i + d = min (16 * Suc i) n" "d = min 16 (n - 16 * i)" using off by (auto simp: d_def)
    have ui: "unat (of_nat (16 * i) :: u8) = 16 * i" using off by (intro u) simp
    have "take 16 (drop (16 * i) (slice m inp n)) = slice m (inp + 16 * i) d"
      by (simp add: slice_def d(2) drop_take min.commute add.commute)
    then have "X (Suc i) = F c (xor_prefix (X i) (slice m (inp + 16 * i) d))" by (simp add: X_def)
    moreover have "inp + 16 * i + d \<le> length m" using inp d(1) by simp
    ultimately have "mac_pass c 16 m inp n s = Inr (Next (of_nat (16 * i) + of_nat d, X (Suc i), X (Suc i)))"
      unfolding s by (intro mac_pass_ok [OF c enc X]) (simp_all only: ui d_def)
    moreover have "of_nat (16 * i) + of_nat d = (of_nat (min (16 * Suc i) n) :: u8)"
      unfolding d(1) [symmetric] by (rule of_nat_add [symmetric])
    ultimately show "\<exists>s'. mac_pass c 16 m inp n s = Inr (Next s') \<and> ?I (Suc i) s' \<and>
        ((\<lambda>(offset, mac_enc, mac). unat offset < n) s' \<longleftrightarrow> Suc i < N)"
      using u [of "min (16 * Suc i) n"] N(3) [of i] X by (simp add: min_less_iff_disj)
  qed (simp add: X_def)
  moreover have "min (16 * N) n = n" using N(2) by simp
  moreover have "cbc_mac (F c) iv (slice m inp n) = X N" using inp by (simp add: cbc_mac_def X_def N_def)
  moreover have "uint (of_nat n :: u8) = int n" using n by (simp add: unsigned_of_nat take_bit_nat_eq_self)
  ultimately show ?thesis
    using assms(2,3) by (auto simp: ccm_compute_cbc_mac_def size [OF c])
qed

text \<open>With 256 bytes or more the byte \<open>offset\<close> never reaches the length.\<close>

lemma compute_cbc_mac_forever:
  assumes c: "ready c" and iv: "length iv = 16" and "length mac = 16" and n: "256 \<le> n" and inp: "inp + n \<le> length m"
  shows "ccm_compute_cbc_mac c iv m inp n mac = Inl NoReturn"
proof -
  let ?J = "\<lambda>(off :: u8, enc :: u8 list, mac :: u8 list). length enc = 16 \<and> length mac = 16 \<and> unat off mod 16 = 0"
  have "do_while (mac_pass c 16 m inp n) (\<lambda>(offset, mac_enc, mac). unat offset < n) (0, replicate 16 0, iv) = None"
  proof (rule do_while_forever [where J = ?J])
    fix s assume J: "?J s"
    obtain off enc mac where s: "s = (off, enc, mac)" by (cases s)
    have "unat off mod 16 = 0" using J s by simp
    then have off: "unat off \<le> 240" using unat_u8_less [of off] by presburger
    then have d: "16 = (if n - unat off > 16 then 16 else n - unat off)" using n by auto
    let ?x = "F c (xor_prefix mac (slice m (inp + unat off) 16))"
    have "mac_pass c 16 m inp n s = Inr (Next (off + of_nat 16, ?x, ?x))"
      unfolding s using J s inp n off by (intro mac_pass_ok [OF c _ _ d]) auto
    moreover have "length ?x = 16" using J s inp n off by (intro len [OF c]) simp
    moreover have "unat (off + 16) mod 16 = 0"
      using J s by (simp add: unat_word_ariths mod_mod_cancel)
    moreover have "unat (off + 16) < n" using unat_u8_less [of "off + 16"] n by linarith
    ultimately show "\<exists>s'. mac_pass c 16 m inp n s = Inr (Next s') \<and> ?J s' \<and>
        (\<lambda>(offset, mac_enc, mac). unat offset < n) s'" by auto
  qed (simp add: iv)
  then show ?thesis using assms(2,3) by (simp add: ccm_compute_cbc_mac_def size [OF c])
qed

lemma adata_mac:
  assumes c: "ready c" and "length junk = 26" and "length X1 = 16" and n: "unat n \<le> 24" "unat n \<le> length adata"
  shows "ccm_compute_adata_mac c junk adata n X1 = Inr (0,
    if n = 0 then X1 else cbc_mac (F c) X1 ([ucast (drop_bit 8 n AND 0xFF), ucast (n AND 0xFF)] @ take (unat n) adata))"
proof (cases "n = 0")
  case False
  let ?h = "[ucast (drop_bit 8 n AND 0xFF), ucast (n AND 0xFF)] :: u8 list"
  let ?e = "splice (junk[1 := ucast (n AND 0xFF), 0 := ucast (drop_bit 8 n AND 0xFF)]) 2 (slice adata 0 (unat n))"
  obtain x y zs where "junk = x # y # zs" "length zs = 24"
    using assms(2) by (cases junk; cases "tl junk") auto
  then have "slice ?e 0 (unat n + 2) = ?h @ take (unat n) adata"
    using n by (simp add: splice_def slice_def)
  moreover have "ccm_compute_cbc_mac c X1 ?e 0 (unat n + 2) X1 =
      Inr (int (unat n + 2), cbc_mac (F c) X1 (slice ?e 0 (unat n + 2)))"
    using assms by (intro compute_cbc_mac) simp_all
  moreover have "n \<le> 0xFEFF" "0 < n" using n False by (simp_all add: word_le_nat_alt word_neq_0_conv)
  moreover have "0 \<le> uint n" by (rule unsigned_greater_eq)
  then have "\<not> 2 + uint n < 0" by linarith
  ultimately show ?thesis using assms False by (simp add: ccm_compute_adata_mac_def)
qed (simp add: ccm_compute_adata_mac_def)

end

lemma memcpy_int_ok:
  "0 \<le> n \<Longrightarrow> nat n \<le> length src \<Longrightarrow> doff + nat n \<le> length dst \<Longrightarrow>
    memcpy_int dst doff src n = Inr (splice dst doff (slice src 0 (nat n)))"
  by (simp add: memcpy_int_def)

text \<open>The part of the nonce that is copied.\<close>

lemma nonce_size:
  assumes "2 \<le> l" and "l \<le> 8" and "min a (15 - l) \<le> k"
  shows "nat (min (int a) (15 - int l)) \<le> k" "0 \<le> min (int a) (15 - int l)" "nat (min (int a) (15 - int l)) \<le> 15"
  using assms by auto

text \<open>The bytes of the length fit when the text is shorter than 256 bytes.\<close>

lemma length_loop_small:
  assumes "2 \<le> L" and "L \<le> 8" and "n < 256" and "length X = 16"
  shows "\<exists>X'. length_loop 15 L X n = Inr (X', 0) \<and> length X' = 16"
proof -
  have rest: "\<exists>X'. length_loop i L X 0 = Inr (X', 0) \<and> length X' = 16" if "length X = 16" "i < 16" for i X
    using that
  proof (induction i arbitrary: X)
    case 0
    then show ?case using assms(2) by (subst length_loop.simps) simp
  next
    case (Suc i)
    then show ?case by (subst length_loop.simps) simp
  qed
  have "length_loop 15 L X n = length_loop 14 L (X[15 := of_nat n]) 0"
    using assms by (subst length_loop.simps) simp
  then show ?thesis using rest [of "X[15 := of_nat n]" 14] assms(4) by simp
qed

text \<open>What both directions compute before they touch the text.\<close>

definition prepared ::
    "cipher_t \<Rightarrow> u8 list \<Rightarrow> u32 \<Rightarrow> u8 \<Rightarrow> u8 \<Rightarrow> u8 list \<Rightarrow> nat \<Rightarrow> nat \<Rightarrow> u8 list \<Rightarrow> u8 list \<Rightarrow> u8 list \<Rightarrow> bool" where
  "prepared c ad al ml L nonce nl n X s k \<longleftrightarrow>
     length X = 16 \<and> length s = 16 \<and> length k = 16 \<and>
     (\<exists>X0. ccm_create_mac_iv c (ucast al) ml L nonce (of_nat nl) n (replicate 16 0) = Inr (0, X0) \<and>
       (\<forall>junk. length junk = 26 \<longrightarrow> ccm_compute_adata_mac c junk ad al X0 = Inr (0, X))) \<and>
     (\<exists>k0. first_stream_block c L nonce nl = Inr (16, k0, s) \<and>
       crypto_block_inc_ctr k0 (sint (word_of_int (16 - int nl) :: u32)) = Inr k)"

lemma sint_word_of_int_small:
  "- (2 ^ 31) \<le> x \<Longrightarrow> x < 2 ^ 31 \<Longrightarrow> sint (word_of_int x :: u32) = x"
  by (simp add: signed_of_int signed_take_bit_int_eq_self)

lemma fits_in_nbytes_small:
  assumes "n < 2 ^ 15" and "2 \<le> L"
  shows "fits_in_nbytes n L"
proof -
  have "15 \<le> 8 * min 8 (unat L) - 1" using assms(2) by (simp add: word_le_nat_alt)
  then have "(2 :: nat) ^ 15 \<le> 2 ^ (8 * min 8 (unat L) - 1)" by (intro power_increasing) simp_all
  then have "n < 2 ^ (8 * min 8 (unat L) - 1)" using assms(1) by (rule less_le_trans [rotated])
  then show ?thesis unfolding fits_in_nbytes_def Let_def drop_bit_eq_div by (subst div_less) simp_all
qed

lemma ccm_guards:
  fixes ml L :: u8
  assumes "even (unat ml)" and "4 \<le> ml" and "ml \<le> 16" and "2 \<le> L" and "L \<le> 8" and "fits_in_nbytes n L"
  shows "\<not> (unat ml mod 2 \<noteq> 0 \<or> ml < 4 \<or> ml > 16)" "\<not> (L < 2 \<or> L > 8 \<or> \<not> fits_in_nbytes n L)"
  using assms by (auto simp: not_less even_iff_mod_2_eq_zero)

context block_cipher
begin

lemma create_mac_iv:
  assumes c: "ready c" and L: "2 \<le> L" "L \<le> 8" and n: "n < 256"
    and nonce: "min (unat nl) (15 - unat L) \<le> length nonce"
  shows "\<exists>X. ccm_create_mac_iv c al M L nonce nl n (replicate 16 0) = Inr (0, X) \<and> length X = 16"
proof -
  have L': "2 \<le> unat L" "unat L \<le> 8" using L by (simp_all add: word_le_nat_alt)
  let ?k = "min (int (unat nl)) (15 - int (unat L))"
  note k = nonce_size [OF L' nonce]
  let ?X = "(replicate 16 0)[0 := (if al > 0 then 64 else 0) + 8 * word_of_int ((int (unat M) - 2) sdiv 2) + (L - 1)]"
  have "memcpy_int ?X 1 nonce ?k = Inr (splice ?X 1 (slice nonce 0 (nat ?k)))"
    using k by (intro memcpy_int_ok) simp_all
  moreover obtain X where X: "length_loop 15 (unat L) (splice ?X 1 (slice nonce 0 (nat ?k))) n = Inr (X, 0)" "length X = 16"
    using length_loop_small [OF L' n, of "splice ?X 1 (slice nonce 0 (nat ?k))"] k by auto
  moreover have "cipher_encrypt c X 0 X 0 = Inr (1, F c X)" "length (F c X) = 16"
    using enc [OF c, of 0 X 0 X] X(2) len [OF c, of X] by simp_all
  ultimately show ?thesis by (simp add: ccm_create_mac_iv_def Let_def)
qed

lemma stream_block:
  assumes c: "ready c" and L: "2 \<le> L" "L \<le> 8" and nl: "nl < 2 ^ 31"
    and nonce: "min nl (15 - unat L) \<le> length nonce"
  shows "\<exists>k s. first_stream_block c L nonce nl = Inr (16, k, s) \<and> length k = 16 \<and> length s = 16"
proof -
  have L': "2 \<le> unat L" "unat L \<le> 8" using L by (simp_all add: word_le_nat_alt)
  let ?n = "min (to_int nl) (15 - int (unat L))"
  note n = nonce_size [OF L' nonce, folded to_int_small [OF nl]]
  let ?k = "splice ((replicate 16 0)[0 := L - 1]) 1 (slice nonce 0 (nat ?n))"
  have "memcpy_int ((replicate 16 0)[0 := L - 1]) 1 nonce ?n = Inr ?k"
    using n by (intro memcpy_int_ok) simp_all
  moreover have k: "length ?k = 16" using n by simp
  moreover have "cipher_encrypt_ctr c ?k 16 (replicate 16 0 @ replicate 16 0) 0 16 16 =
      Inr (int 16, (next_counter (16 - 16) ^^ max 1 ((16 + 15) div 16)) ?k, splice (replicate 16 0 @ replicate 16 0) 16
        (map (\<lambda>j. keystream (F c) (16 - 16) ?k j XOR (replicate 16 0 @ replicate 16 0) ! (0 + j)) [0..<16]))"
    by (rule encrypt_ctr [OF c k]) simp_all
  ultimately show ?thesis by (simp add: first_stream_block_def size [OF c])
qed

lemma prepared_exists:
  assumes c: "ready c" and L: "2 \<le> L" "L \<le> 8" and n: "n < 256" and nl: "nl < 256" "min nl (15 - unat L) \<le> length nonce"
    and al: "unat al \<le> 24" "unat al \<le> length ad"
  shows "\<exists>X s k. prepared c ad al ml L nonce nl n X s k"
proof -
  have "unat (of_nat nl :: u8) = nl" using nl(1) by (simp add: unat_of_nat take_bit_nat_eq_self)
  then obtain X0 where X0: "ccm_create_mac_iv c (ucast al) ml L nonce (of_nat nl) n (replicate 16 0) = Inr (0, X0)"
    "length X0 = 16"
    using create_mac_iv [OF c L n, of "of_nat nl" nonce "ucast al" ml] nl(2) by auto
  let ?X = "if al = 0 then X0 else cbc_mac (F c) X0 ([ucast (drop_bit 8 al AND 0xFF), ucast (al AND 0xFF)] @ take (unat al) ad)"
  have X: "length ?X = 16" using X0(2) length_cbc_mac [OF c X0(2)] by simp
  obtain k0 s where k0: "first_stream_block c L nonce nl = Inr (16, k0, s)" "length k0 = 16" "length s = 16"
    using stream_block [OF c L, of nl nonce] nl by auto
  have "sint (word_of_int (16 - int nl) :: u32) = 16 - int nl"
    using nl(1) by (intro sint_word_of_int_small) simp_all
  then have "crypto_block_inc_ctr k0 (sint (word_of_int (16 - int nl) :: u32)) = Inr (next_counter (nat (16 - int nl)) k0)"
    using k0(2) by (simp add: crypto_block_inc_ctr_ok)
  moreover have "length (next_counter (nat (16 - int nl)) k0) = 16" using k0(2) by simp
  ultimately have "prepared c ad al ml L nonce nl n ?X s (next_counter (nat (16 - int nl)) k0)"
    unfolding prepared_def using X0 X k0 adata_mac [OF c _ X0(2) al] by blast
  then show ?thesis by blast
qed

lemma encrypt_ccm:
  assumes c: "ready c" and t: "even (unat ml)" "4 \<le> ml" "ml \<le> 16" and L: "2 \<le> L" "L \<le> 8" and n: "n < 256"
    and nl: "nl < 256" and junk: "length junk = 26" and prep: "prepared c ad al ml L nonce nl n X s k"
    and inp: "inp + n \<le> length m" and out: "out + n + unat ml \<le> length m" and apart: "out \<le> inp \<or> inp + n \<le> out"
    and ct: "ct = map (\<lambda>j. keystream (F c) (16 - nl) k j XOR m ! (inp + j)) [0..<n]"
    and tag: "tag = xor_bytes (take (unat ml) (cbc_mac (F c) X (slice m inp n))) (take (unat ml) s)"
  shows "cipher_encrypt_ccm c junk ad al ml L nonce nl m inp n out =
    Inr (int (n + unat ml), splice m out (ct @ tag))"
proof -
  obtain X0 k0 where p: "length X = 16" "length s = 16" "length k = 16"
    "ccm_create_mac_iv c (ucast al) ml L nonce (of_nat nl) n (replicate 16 0) = Inr (0, X0)"
    "ccm_compute_adata_mac c junk ad al X0 = Inr (0, X)" "first_stream_block c L nonce nl = Inr (16, k0, s)"
    "crypto_block_inc_ctr k0 (sint (word_of_int (16 - int nl) :: u32)) = Inr k"
    using prep junk by (auto simp: prepared_def)
  let ?mac = "cbc_mac (F c) X (slice m inp n)"
  have mac: "ccm_compute_cbc_mac c X m inp n (replicate 16 0) = Inr (int n, ?mac)" "length ?mac = 16"
    using compute_cbc_mac [OF c p(1), of "replicate 16 0" n inp m] inp n length_cbc_mac [OF c p(1)] by simp_all
  have ml: "unat ml \<le> 16" using t(3) by (simp add: word_le_nat_alt)
  obtain k' where ctr: "cipher_encrypt_ctr c k (nl mod 256) m inp n out = Inr (int n, k', splice m out ct)"
    using encrypt_ctr [OF c p(3) _ inp _ apart, of "nl mod 256"] n nl out ct by simp
  let ?m = "splice m out ct"
  have "foldE (\<lambda>i m. bindE (readE ?mac i) (\<lambda>x. bindE (readE s i) (\<lambda>y. writeE m (out + n + i) (x XOR y))))
      [0..<unat ml] ?m = Inr (take (out + n) ?m @ map (\<lambda>i. ?mac ! i XOR s ! i) [0..<unat ml] @ drop (out + n + unat ml) ?m)"
    using out ml mac(2) p(2) ct by (intro foldE_update) simp_all
  also have "map (\<lambda>i. ?mac ! i XOR s ! i) [0..<unat ml] = tag"
    unfolding tag using ml mac(2) p(2) by (intro nth_equalityI) (simp_all add: xor_bytes_def)
  also have "take (out + n) ?m @ tag @ drop (out + n + unat ml) ?m = splice ?m (out + n) tag"
    using tag ml mac(2) p(2) by (simp add: splice_def)
  also have "\<dots> = splice m out (ct @ tag)"
    using splice_append [of out ct tag m] out ct tag ml mac(2) p(2) by simp
  finally have loop: "foldE (\<lambda>i m. bindE (readE ?mac i) (\<lambda>x. bindE (readE s i) (\<lambda>y. writeE m (out + n + i) (x XOR y))))
      [0..<unat ml] ?m = Inr (splice m out (ct @ tag))" .
  have "fits_in_nbytes n L" using n L by (intro fits_in_nbytes_small) simp_all
  note guards = ccm_guards [OF t L this]
  show ?thesis
    unfolding cipher_encrypt_ccm_def if_not_P [OF guards(1)] if_not_P [OF guards(2)] size [OF c]
    using p(4-7) mac(1) ctr loop by (simp add: Let_def)
qed

lemma decrypt_ccm:
  assumes c: "ready c" and t: "even (unat ml)" "4 \<le> ml" "ml \<le> 16" and L: "2 \<le> L" "L \<le> 8" and n: "n < 256"
    and nl: "nl < 256" and junk: "length junk = 26" and prep: "prepared c ad al ml L nonce nl n X s k"
    and inp: "inp + n + unat ml \<le> length m" and dst: "dst + n \<le> length m"
    and apart: "dst \<le> inp \<or> inp + n + unat ml \<le> dst"
    and pt: "pt = map (\<lambda>j. keystream (F c) (16 - nl) k j XOR m ! (inp + j)) [0..<n]"
  shows "cipher_decrypt_ccm c junk ad al ml L nonce nl m inp (n + unat ml) dst =
    Inr (if slice m (inp + n) (unat ml) = xor_bytes (take (unat ml) (cbc_mac (F c) X pt)) (take (unat ml) s)
         then int n else CCM_ERR_INVALID_CBC_MAC, splice m dst pt)"
proof -
  obtain X0 k0 where p: "length X = 16" "length s = 16" "length k = 16"
    "ccm_create_mac_iv c (ucast al) ml L nonce (of_nat nl) n (replicate 16 0) = Inr (0, X0)"
    "ccm_compute_adata_mac c junk ad al X0 = Inr (0, X)" "first_stream_block c L nonce nl = Inr (16, k0, s)"
    "crypto_block_inc_ctr k0 (sint (word_of_int (16 - int nl) :: u32)) = Inr k"
    using prep junk by (auto simp: prepared_def)
  have ml: "unat ml \<le> 16" using t(3) by (simp add: word_le_nat_alt)
  have plen: "unat (word_of_int (int (n + unat ml) - int (unat ml)) :: u8) = n"
    using n by (simp add: unat_of_nat take_bit_nat_eq_self)
  obtain k' where ctr: "cipher_encrypt_ctr c k (nl mod 256) m inp n dst = Inr (int n, k', splice m dst pt)"
    using encrypt_ctr [OF c p(3) _ _ dst, of inp "nl mod 256"] n nl inp apart pt by auto
  let ?m = "splice m dst pt" and ?mac = "cbc_mac (F c) X pt" and ?tag = "slice m (inp + n) (unat ml)"
  have mac: "ccm_compute_cbc_mac c X ?m dst n (replicate 16 0) = Inr (int n, ?mac)" "length ?mac = 16"
    using compute_cbc_mac [OF c p(1), of "replicate 16 0" n dst ?m] dst n pt length_cbc_mac [OF c p(1)] by simp_all
  have "slice ?m (inp + n) (unat ml) = ?tag" using inp dst apart pt by (intro slice_splice_apart) auto
  then have rd: "?m ! (inp + n + i) = ?tag ! i" if "i < unat ml" for i
    using that inp dst pt slice_nth [of "inp + n" "unat ml" ?m i] by simp
  define recv where "recv = map (\<lambda>i. ?tag ! i XOR s ! i) [0..<unat ml] @ drop (unat ml) (replicate 16 0)"
  have "foldE (\<lambda>i r. bindE (readE ?m (inp + n + i)) (\<lambda>x. bindE (readE s i) (\<lambda>y. writeE r i (x XOR y))))
      [0..<unat ml] (replicate 16 0) = Inr (take 0 (replicate 16 0) @ map (\<lambda>i. ?tag ! i XOR s ! i) [0..<unat ml] @
        drop (0 + unat ml) (replicate 16 0))"
    using ml inp dst pt p(2) rd by (intro foldE_update) (simp_all add: add.assoc)
  then have loop: "foldE (\<lambda>i r. bindE (readE ?m (inp + n + i)) (\<lambda>x. bindE (readE s i) (\<lambda>y. writeE r i (x XOR y))))
      [0..<unat ml] (replicate 16 0) = Inr recv" by (simp add: recv_def)
  have "take (unat ml) recv = xor_bytes ?tag (take (unat ml) s)"
    unfolding recv_def using ml p(2) inp by (intro nth_equalityI) (simp_all add: xor_bytes_def)
  then have "take (unat ml) recv = take (unat ml) ?mac \<longleftrightarrow> ?tag = xor_bytes (take (unat ml) ?mac) (take (unat ml) s)"
    using xor_bytes_cancel [of ?tag "take (unat ml) s"] xor_bytes_cancel [of "take (unat ml) ?mac" "take (unat ml) s"]
      ml p(2) mac(2) inp by auto
  then have eq: "crypto_equals recv ?mac (unat ml) =
      Inr (if ?tag = xor_bytes (take (unat ml) ?mac) (take (unat ml) s) then 1 else 0)"
    using ml mac(2) by (subst crypto_equals_iff) (simp_all add: recv_def)
  have "fits_in_nbytes (n + unat ml) L" using n L ml by (intro fits_in_nbytes_small) simp_all
  note guards = ccm_guards [OF t L this]
  show ?thesis
    unfolding cipher_decrypt_ccm_def if_not_P [OF guards(1)] if_not_P [OF guards(2)] size [OF c] Let_def plen
    using p(4-7) mac(1) ctr loop eq by simp
qed

lemma ccm_decrypt_encrypt:
  assumes c: "ready c" and t: "even (unat ml)" "4 \<le> ml" "ml \<le> 16" and L: "2 \<le> L" "L \<le> 8" and n: "n < 256"
    and nl: "nl < 256" "min nl (15 - unat L) \<le> length nonce" and al: "unat al \<le> 24" "unat al \<le> length ad"
    and junk: "length junk = 26" "length junk' = 26"
    and inp: "inp + n \<le> length m" and out: "out + n + unat ml \<le> length m" and dst: "dst + n \<le> length m"
    and apart: "out \<le> inp \<or> inp + n \<le> out" "dst \<le> out \<or> out + n + unat ml \<le> dst"
  shows "\<exists>m1. cipher_encrypt_ccm c junk ad al ml L nonce nl m inp n out = Inr (int (n + unat ml), m1) \<and>
    length m1 = length m \<and>
    (\<forall>m'. length m' = length m \<and> slice m' out n = slice m1 out n \<longrightarrow>
      cipher_decrypt_ccm c junk' ad al ml L nonce nl m' out (n + unat ml) dst =
        Inr (if slice m' (out + n) (unat ml) = slice m1 (out + n) (unat ml) then int n else CCM_ERR_INVALID_CBC_MAC,
          splice m' dst (slice m inp n)))"
proof -
  obtain X s k where prep: "prepared c ad al ml L nonce nl n X s k"
    using prepared_exists [OF c L n nl al] by blast
  define ct where "ct = map (\<lambda>j. keystream (F c) (16 - nl) k j XOR m ! (inp + j)) [0..<n]"
  define tag where "tag = xor_bytes (take (unat ml) (cbc_mac (F c) X (slice m inp n))) (take (unat ml) s)"
  let ?m = "splice m out (ct @ tag)"
  have X: "length X = 16" "length s = 16" using prep by (simp_all add: prepared_def)
  have ml: "unat ml \<le> 16" using t(3) by (simp add: word_le_nat_alt)
  have l: "length ct = n" "length tag = unat ml"
    using X ml length_cbc_mac [OF c X(1)] by (simp_all add: ct_def tag_def)
  have m1: "slice ?m out n = ct" "slice ?m (out + n) (unat ml) = tag"
    using splice_append [of out ct tag m, symmetric] l out
    by (simp_all add: slice_splice_apart)
  have "cipher_decrypt_ccm c junk' ad al ml L nonce nl m' out (n + unat ml) dst =
      Inr (if slice m' (out + n) (unat ml) = tag then int n else CCM_ERR_INVALID_CBC_MAC, splice m' dst (slice m inp n))"
    if m': "length m' = length m" "slice m' out n = slice ?m out n" for m'
  proof -
    have "m' ! (out + j) = ct ! j" if "j < n" for j
      using m' m1(1) slice_nth [of out n m' j] out that by simp
    then have "slice m inp n = map (\<lambda>j. keystream (F c) (16 - nl) k j XOR m' ! (out + j)) [0..<n]"
      using inp by (intro nth_equalityI) (simp_all add: ct_def xor_left_cancel)
    then show ?thesis
      using decrypt_ccm [OF c t L n nl(1) junk(2) prep, of out m' dst] m'(1) out dst apart(2) tag_def by simp
  qed
  then show ?thesis
    using encrypt_ccm [OF c t L n nl(1) junk(1) prep inp out apart(1) ct_def tag_def] m1(2) l out by auto
qed

end

section \<open>Properties\<close>



text \<open> C36: \<open>ccm_compute_cbc_mac\<close> keeps its position in a byte: for an input of 256 bytes or more, all of which
  can be read, it never returns.\<close>

theorem ccm_cbc_mac_never_returns:
  assumes "interface c = aes_interface b k" and "aes_key_ok k" and "16 \<le> length (ctxt c)"
    and "length iv = 16" and "length mac = 16" and "256 \<le> n" and "inp + n \<le> length m"
  shows "ccm_compute_cbc_mac c iv m inp n mac = Inl NoReturn"
  using aes.compute_cbc_mac_forever [OF _ assms(4-7)] assms(1-3) by (auto simp: aes_ready_def)

theorem ccm_cbc_mac_never_returns_witness:
  "ccm_compute_cbc_mac some_cipher (replicate 16 0) (replicate 300 5) 0 300 (replicate 16 0) = Inl NoReturn"
  using ccm_cbc_mac_never_returns [of some_cipher some_build some_key "replicate 16 0" "replicate 16 0" 300 0
    "replicate 300 5"] by simp

end
