(* ===== verification/Spec2Isabelle.thy ===== *)
theory Spec2Isabelle
  imports Bitarithm System Event Ringbuffer Clist_Sort Queues Checksum Base64 Ccm
begin

text \<open>
  A verification of the core of RIOT for 64-bit RISC-V, of the AES part of its crypto library, and
  of some modules of its system library.

  \<^bold>\<open>The program.\<close> RIOT is an operating system for small devices with one processor. Its kernel
  (\<open>src/core\<close>) runs threads of fixed priorities: \<open>sched.c\<close> keeps one circular list of runnable
  threads per priority and a word with a bit per list that is not empty; \<open>thread.c\<close> and
  \<open>kernel_init.c\<close> create threads; \<open>mutex.c\<close>, \<open>rmutex.c\<close>, \<open>cond.c\<close>, \<open>thread_flags.c\<close>,
  \<open>msg.c\<close> and \<open>mbox.c\<close> block threads and make them runnable again. All of them link threads
  through the one field \<open>rq_entry\<close> of the control block with the lists of \<open>list.h\<close> and \<open>clist.h\<close>,
  all change the status with \<open>sched_set_status\<close> and ask for a switch with \<open>sched_switch\<close> or
  \<open>thread_yield_higher\<close>. On RISC-V the latter raises a software interrupt, and the trap entry
  (\<open>src/cpu/riscv_common/intr.S\<close>) calls \<open>sched_run\<close>; an interrupt handler instead leaves a request
  in \<open>sched_context_switch_request\<close>, which the end of the handler looks at. The crypto library
  (\<open>src/sys/crypto\<close>) has a block cipher, a table of function pointers in front of it, and modes
  that call it through the table.

  \<^bold>\<open>How it is modelled.\<close> A C function is a HOL function of the state it reads that returns the state
  it leaves. Integers have their width as words where the code can wrap around. Everything the
  language leaves undefined or the code asserts is a value of \<open>fault\<close> (theory \<open>Prelude\<close>):
  dereferencing \<open>NULL\<close> or a tagged pointer, an index outside of an array, a division by zero, a
  failed \<open>assert\<close>. Loops over links or with a counter that can wrap around are
  \<open>partial_function (option)\<close> definitions, so not returning is the value \<open>None\<close> (in the kernel, where
  they are called, the fault \<open>NoReturn\<close>); there is no fuel. Every theorem about a function says that
  it returns. Loops with a fixed number of passes are \<open>foldE\<close> over the list of their indices (theory
  \<open>Buffers\<close>, which also has arrays, \<open>memcpy\<close> and the \<open>do\<close> loop).

  A call that blocks is cut in two: the part up to the switch, which answers \<open>Blocked\<close>, and the
  part that runs when the thread continues, with the suffix \<open>_resume\<close> or as a definition of its
  own. Code between \<open>irq_disable\<close> and \<open>irq_restore\<close> is one step.

  \<^bold>\<open>The theories and the code they model.\<close>

  \<^item> \<open>Cib\<close>: \<open>core/include/cib.h\<close>. The counters run freely modulo \<open>2 ^ 32\<close>; the locale
    \<open>slot_ring\<close> is the contract message queues and mailboxes rely on, interpreted by the buffer.
  \<^item> \<open>Lists\<close>: \<open>list.h\<close> and \<open>clist.h\<close>; \<open>Clist_Sort\<close>: \<open>core/clist.c\<close>; \<open>Queues\<close>: \<open>core/lifo.c\<close>
    and \<open>core/priority_queue.c\<close>. One map holds the \<open>next\<close> fields of all nodes, so aliasing is that of
    the code. \<open>slist\<close> and \<open>clist\<close> say which HOL list a head stands for; each operation is shown to do
    to it what its name says, and the merge sort to be a stable sort.
  \<^item> \<open>Bitarithm\<close>: \<open>core/bitarithm.c\<close>; the loop and the table of \<open>bitarithm_lsb\<close> agree.
  \<^item> \<open>Kernel\<close>: the control blocks (\<open>thread_t\<close> for \<open>struct _thread\<close>), the variables of \<open>sched.c\<close>,
    mutexes, mailboxes and the memory of messages, as the record \<open>kernel\<close>. \<open>Demo\<close> is a state with
    a thread in every kind of waiting, at which the theorems are applied.
  \<^item> \<open>Invariant\<close>: \<open>kinv s L\<close> relates the state to a layout \<open>L\<close> that gives every list head its
    threads: the lists in the heap are those of \<open>L\<close>, no thread is in two lists, a thread is in a run
    queue exactly when its status says so, the bits tell which run queues are not empty, waiting
    lists are sorted by priority. \<open>prio_ok\<close>: without a pending switch, no runnable thread is more
    urgent than the active one. The locale \<open>kernel_call\<close> is the contract of a call into the kernel: in
    a state with both, where the call is permitted, it returns without a fault and keeps both.
  \<^item> \<open>Sched\<close> (\<open>core/sched.c\<close> and \<open>thread_yield\<close>), \<open>Thread\<close> (\<open>core/thread.c\<close>,
    \<open>core/kernel_init.c\<close>), \<open>Mutex\<close> (\<open>core/mutex.c\<close>, \<open>core/rmutex.c\<close>), \<open>Cond\<close>
    (\<open>core/cond.c\<close>), \<open>Thread_Flags\<close> (\<open>core/thread_flags.c\<close>), \<open>Msg\<close> and \<open>Msg_Receive\<close>
    (\<open>core/msg.c\<close>), \<open>Mbox\<close> (\<open>core/mbox.c\<close>): one definition per C function, an interpretation of
    \<open>kernel_call\<close> per call, and the behaviour of the call in terms of lists of waiting threads and of
    messages (for mutexes, mailboxes and receiving as a refinement of an abstract operation).
  \<^item> \<open>System\<close>: the trap entry, and the relation \<open>step\<close> of a system in which threads make calls,
    end, are switched and continue their blocked calls, and in which an interrupt may come between
    any two steps and its handler make calls too. Its invariant, shown with the locale
    \<open>inductive_invariant\<close>, gives that no permitted call ever faults, that the most urgent thread
    runs, and that it gets to run. \<open>permitted\<close> is what a caller has to see to, as the headers
    document it (an initialised object is not in use, a reply goes to a thread that waits for it);
    what it rules out beyond the documentation is named as a finding of the code.
  \<^item> \<open>Ringbuffer\<close>: \<open>core/ringbuffer.c\<close> and \<open>sys/tsrb/tsrb.c\<close>, two implementations of the locale
    \<open>byte_fifo\<close>.
  \<^item> \<open>Aes_Tables\<close>, \<open>Aes\<close>: \<open>sys/crypto/aes.c\<close> in all its builds (a record \<open>build\<close> of the
    preprocessor switches). \<open>Aes_Field\<close> has the arithmetic of the finite field and that the tables
    are what they should be; \<open>Aes_Spec\<close> the standard FIPS-197 on lists of bytes and the key
    schedule; \<open>Aes_Correct\<close> that encryption is the standard's cipher and decryption its inverse.
  \<^item> \<open>Cipher_Modes\<close>: \<open>sys/crypto/ciphers.c\<close>, \<open>helper.c\<close>, \<open>modes/ecb.c\<close>, \<open>modes/cbc.c\<close> and
    \<open>modes/ctr.c\<close>; \<open>Ccm\<close>: \<open>modes/ccm.c\<close>. The modes call the cipher through its interface; the
    locale \<open>block_cipher\<close> is what they rely on, their theorems are proved in it, and its
    interpretation \<open>aes\<close> carries them to AES.

  \<^item> \<open>Event\<close>: \<open>sys/event/event.c\<close>, event queues over the lists of \<open>Lists\<close> and the flags of
    \<open>Thread_Flags\<close>: events come out in the order of posting, and a post wakes the waiting thread.
  \<^item> \<open>Checksum\<close>: \<open>sys/checksum\<close>; the table of the CRC is the polynomial, and the locale
    \<open>fletcher_sum\<close>, interpreted for both widths, shows that the sums of Fletcher do not overflow.
  \<^item> \<open>Base64\<close>: \<open>sys/base64/base64.c\<close>; the encoder writes RFC 4648, the decoder inverts it.

  \<^bold>\<open>Bounds.\<close> Priorities are below \<open>SCHED_PRIO_LEVELS\<close> = 16 and process identifiers between 1 and
  \<open>KERNEL_PID_LAST\<close> = 32, as in the default configuration. The sizes of message queues and
  mailboxes are powers of two up to \<open>2 ^ 30\<close> (\<open>cib.h\<close> asks for a power of two; beyond, the
  counters' difference does not fit an \<open>int\<close>). The theorems about the modes have texts below \<open>2 ^ 31\<close>
  bytes, the range of their \<open>int\<close> result. Those about CCM have texts below 256 and authenticated
  data of at most 24 bytes: beyond these the code does not work, and the theorem
  \<open>ccm_cbc_mac_never_returns\<close> shows one way in which it does not. Alignments and sizes of C objects,
  which \<open>thread_create\<close> computes with, are a parameter (\<open>abi_t\<close>). Base 64 is shown for less than
  \<open>2 ^ 29\<close> bytes, so that all indices stay within \<open>int\<close>.

  \<^bold>\<open>Not modelled.\<close> The contents of stacks and registers, and with them \<open>thread_stack_init\<close>,
  \<open>thread_measure_stack_free\<close> and the saving of floating point registers: which thread continues is
  \<open>sched_active_thread\<close>. Functions that only print or only exist in debug builds, the statistics of
  the scheduler, \<open>core_panic\<close> and the atomics of \<open>atomic_c11.c\<close>, which disable interrupts around one
  access. \<open>byteorder.h\<close> reinterprets bytes in memory. From \<open>src/sys\<close>, the other ciphers, hashes and
  modes, the timers (and with them waiting for an event with a timeout), the network stack, file
  systems and the shell; all device drivers, boards and
  processors, whose behaviour is that of hardware registers; the packages, which are patches to
  code that is not in the repository. \<open>ciphers.h\<close> also has a size for 3DES keys; the cipher itself
  is no longer in the repository.
\<close>

end
